(* ===== verification/Reach_Prelude.thy ===== *)
theory Reach_Prelude
  imports Main "HOL-Library.AList" "HOL-Library.Monad_Syntax" "HOL-Library.Multiset"
    "HOL-Library.Word"
begin

text \<open>
  Shared vocabulary of the development.

  A Go \<open>string\<close> is a \<open>string\<close> (a list of bytes), a Go \<open>[]byte\<close> is a list of
  8-bit words, an instant or a duration is an \<open>int\<close> count of nanoseconds, and a Go
  \<open>map\<close> is an association list whose keys are distinct: iteration and \<open>len\<close> are then
  executable, and a theorem about a permutation of the list is a theorem about every
  iteration order.  A run-time panic is the value \<open>None\<close> of an \<open>option\<close>: a read or a
  write of a slice out of its bounds goes through \<open>rd\<close> and \<open>wr\<close>.
\<close>

type_synonym key = string
type_synonym bytes = "8 word list"

named_theorems gomap_simps "lookups and key sets of Go maps"
named_theorems inv_intros "every operation keeps its component's invariant"

subsection \<open>Go maps\<close>

type_synonym ('k, 'v) gomap = "('k \<times> 'v) list"

abbreviation mget :: "('k, 'v) gomap \<Rightarrow> 'k \<Rightarrow> 'v option" where
  "mget m k \<equiv> map_of m k"

abbreviation mput :: "'k \<Rightarrow> 'v \<Rightarrow> ('k, 'v) gomap \<Rightarrow> ('k, 'v) gomap" where
  "mput k v m \<equiv> AList.update k v m"

abbreviation mdel :: "'k \<Rightarrow> ('k, 'v) gomap \<Rightarrow> ('k, 'v) gomap" where
  "mdel k m \<equiv> AList.delete k m"

abbreviation mkeys :: "('k, 'v) gomap \<Rightarrow> 'k list" where
  "mkeys m \<equiv> map fst m"

abbreviation gomap_ok :: "('k, 'v) gomap \<Rightarrow> bool" where
  "gomap_ok m \<equiv> distinct (map fst m)"

lemma mget_mput [simp, gomap_simps]: "mget (mput k v m) = (mget m)(k \<mapsto> v)"
  by (rule update_conv')

lemma mget_mdel [simp, gomap_simps]: "mget (mdel k m) = (mget m)(k := None)"
  by (rule delete_conv')

lemma gomap_ok_mput [simp, intro]: "gomap_ok m \<Longrightarrow> gomap_ok (mput k v m)"
  by (rule distinct_update)

lemma gomap_ok_mdel [simp, intro]: "gomap_ok m \<Longrightarrow> gomap_ok (mdel k m)"
  by (rule distinct_delete)

lemma mkeys_mput [simp, gomap_simps]: "fst ` set (mput k v m) = insert k (fst ` set m)"
  by (induction m) auto

lemma mkeys_mdel [simp, gomap_simps]: "fst ` set (mdel k m) = fst ` set m - {k}"
  by (induction m) auto

lemma mdel_mput_same [simp]: "mdel k (mput k v m) = mdel k m"
  by (induction m) auto

lemma mget_dom: "dom (mget m) = set (mkeys m)"
  by (simp add: dom_map_of_conv_image_fst)

lemma mget_some_key: "mget m k = Some v \<Longrightarrow> k \<in> set (mkeys m)"
  by (metis domI mget_dom)

lemma mget_in_set: "gomap_ok m \<Longrightarrow> (k, v) \<in> set m \<longleftrightarrow> mget m k = Some v"
  by (rule map_of_eq_Some_iff [symmetric])

lemma mput_mput_same [simp]: "mput k v (mput k w m) = mput k v m"
  by (induction m) auto

lemma mdel_absent: "k \<notin> set (mkeys m) \<Longrightarrow> mdel k m = m"
  by (induction m) auto

lemma mdel_filter: "mdel k m = filter (\<lambda>p. fst p \<noteq> k) m"
  by (induction m) auto

lemma mdel_commute: "mdel k (mdel k' m) = mdel k' (mdel k m)"
  by (auto simp: mdel_filter intro: filter_cong)

lemma length_mput: "length (mput k v m) = (if k \<in> set (mkeys m) then length m else Suc (length m))"
  by (induction m) auto

subsection \<open>Slices with bounds checks\<close>

definition rd :: "'a list \<Rightarrow> nat \<Rightarrow> 'a option" where
  "rd xs i = (if i < length xs then Some (xs ! i) else None)"

definition wr :: "'a list \<Rightarrow> nat \<Rightarrow> 'a \<Rightarrow> 'a list option" where
  "wr xs i x = (if i < length xs then Some (xs[i := x]) else None)"

lemma rd_Some [simp]: "i < length xs \<Longrightarrow> rd xs i = Some (xs ! i)"
  by (simp add: rd_def)

lemma rd_None [simp]: "length xs \<le> i \<Longrightarrow> rd xs i = None"
  by (simp add: rd_def)

lemma wr_Some [simp]: "i < length xs \<Longrightarrow> wr xs i x = Some (xs[i := x])"
  by (simp add: wr_def)

lemma wr_None [simp]: "length xs \<le> i \<Longrightarrow> wr xs i x = None"
  by (simp add: wr_def)

lemma rd_eq_Some_iff: "rd xs i = Some y \<longleftrightarrow> i < length xs \<and> xs ! i = y"
  by (simp add: rd_def)

lemma wr_eq_Some_iff: "wr xs i x = Some ys \<longleftrightarrow> i < length xs \<and> ys = xs[i := x]"
  by (auto simp: wr_def)

subsection \<open>Lists\<close>

text \<open>\<open>move_back x xs\<close> is \<open>xs\<close> with the element \<open>x\<close> moved to the back.\<close>

definition move_back :: "'a \<Rightarrow> 'a list \<Rightarrow> 'a list" where
  "move_back x xs = (if x \<in> set xs then remove1 x xs @ [x] else xs)"

definition move_front :: "'a \<Rightarrow> 'a list \<Rightarrow> 'a list" where
  "move_front x xs = (if x \<in> set xs then x # remove1 x xs else xs)"

lemma insert_set_remove1: "x \<in> set xs \<Longrightarrow> insert x (set (remove1 x xs)) = set xs"
  by (induction xs) auto

lemma length_remove1_Suc: "x \<in> set xs \<Longrightarrow> Suc (length (remove1 x xs)) = length xs"
  by (induction xs) auto

lemma set_move_back [simp]: "set (move_back x xs) = set xs"
  by (simp add: move_back_def insert_set_remove1)

lemma set_move_front [simp]: "set (move_front x xs) = set xs"
  by (simp add: move_front_def insert_set_remove1)

lemma distinct_move_back [simp]: "distinct xs \<Longrightarrow> distinct (move_back x xs)"
  by (simp add: move_back_def)

lemma distinct_move_front [simp]: "distinct xs \<Longrightarrow> distinct (move_front x xs)"
  by (simp add: move_front_def)

lemma length_move_back [simp]: "length (move_back x xs) = length xs"
  by (simp add: move_back_def length_remove1_Suc)

lemma length_move_front [simp]: "length (move_front x xs) = length xs"
  by (simp add: move_front_def length_remove1_Suc)

lemma sum_list_remove1:
  fixes f :: "'a \<Rightarrow> int"
  shows "x \<in> set xs \<Longrightarrow> sum_list (map f (remove1 x xs)) = sum_list (map f xs) - f x"
  by (induction xs) auto

lemma sum_list_move_back [simp]:
  fixes f :: "'a \<Rightarrow> int"
  shows "sum_list (map f (move_back x xs)) = sum_list (map f xs)"
  by (simp add: move_back_def sum_list_remove1)

lemma sum_list_update_one:
  fixes f g :: "'a \<Rightarrow> int"
  assumes "distinct xs" and "x \<in> set xs" and "\<And>y. y \<in> set xs \<Longrightarrow> y \<noteq> x \<Longrightarrow> g y = f y"
  shows "sum_list (map g xs) = sum_list (map f xs) + (g x - f x)"
  using assms
proof (induction xs)
  case (Cons a xs)
  show ?case
  proof (cases "a = x")
    case True
    with Cons.prems have "map g xs = map f xs" by auto
    with True show ?thesis by (simp del: map_eq_conv)
  next
    case False
    with Cons show ?thesis by simp
  qed
qed simp

lemma remove1_filter: "distinct xs \<Longrightarrow> remove1 x xs = filter (\<lambda>y. y \<noteq> x) xs"
  by (simp add: distinct_remove1_removeAll removeAll_filter_not_eq eq_commute)

end
