(* ===== verification/Byte_View.thy ===== *)
theory Byte_View
  imports Reach_Prelude
begin

text \<open>
  \<open>byteview.go\<close>: the read-only view of a cached value.

  The first part is the value a view denotes, which the other components use.  The second
  part is the memory behaviour of \<open>byteview.go\<close>: slices are references into arrays, so
  what \<open>ByteSlice\<close> copies and what \<open>Bytes\<close> shares is visible as aliasing.
\<close>

subsection \<open>The view as a value\<close>

datatype byteview = ByteView (bv_bytes: bytes)

definition ByteView_Len :: "byteview \<Rightarrow> int" where
  "ByteView_Len b = int (length (bv_bytes b))"

lemma ByteView_Len_nonneg [simp]: "0 \<le> ByteView_Len b"
  by (simp add: ByteView_Len_def)

definition ByteView_String :: "byteview \<Rightarrow> string" where
  "ByteView_String b = map (\<lambda>w. char_of (unat w)) (bv_bytes b)"

subsection \<open>Slices in memory\<close>

text \<open>A slice is an array, an offset and a length; memory maps an array's name to its bytes.\<close>

record slice =
  sl_array :: nat
  sl_off :: nat
  sl_len :: nat

record memory =
  arrays :: "nat \<Rightarrow> bytes"
  fresh :: nat

definition slice_ok :: "memory \<Rightarrow> slice \<Rightarrow> bool" where
  "slice_ok h s \<longleftrightarrow> sl_array s < fresh h \<and> sl_off s + sl_len s \<le> length (arrays h (sl_array s))"

definition slice_bytes :: "memory \<Rightarrow> slice \<Rightarrow> bytes" where
  "slice_bytes h s = take (sl_len s) (drop (sl_off s) (arrays h (sl_array s)))"

text \<open>The assignment \<open>s[i] = x\<close>; an index past the length of the slice panics.\<close>

definition slice_write :: "memory \<Rightarrow> slice \<Rightarrow> nat \<Rightarrow> 8 word \<Rightarrow> memory option" where
  "slice_write h s i x =
     (if i < sl_len s
      then Some (h\<lparr>arrays := (arrays h)(sl_array s := (arrays h (sl_array s))[sl_off s + i := x])\<rparr>)
      else None)"

text \<open>\<open>make([]byte, len(b))\<close> then \<open>copy(c, b)\<close>.\<close>

definition cloneBytes :: "memory \<Rightarrow> slice \<Rightarrow> slice \<times> memory" where
  "cloneBytes h b =
     (let made = replicate (sl_len b) 0;
          src = slice_bytes h b;
          copied = src @ drop (length src) made
      in (\<lparr>sl_array = fresh h, sl_off = 0, sl_len = sl_len b\<rparr>,
          h\<lparr>arrays := (arrays h)(fresh h := copied), fresh := Suc (fresh h)\<rparr>))"

text \<open>The struct \<open>ByteView\<close> in memory holds the slice \<open>b\<close>.\<close>

record byteview_ref =
  bv_slice :: slice

definition ByteSlice :: "memory \<Rightarrow> byteview_ref \<Rightarrow> slice \<times> memory" where
  "ByteSlice h b = cloneBytes h (bv_slice b)"

definition Bytes :: "byteview_ref \<Rightarrow> slice" where
  "Bytes b = bv_slice b"

definition view_of :: "memory \<Rightarrow> byteview_ref \<Rightarrow> byteview" where
  "view_of h b = ByteView (slice_bytes h (bv_slice b))"

lemma length_slice_bytes: "slice_ok h s \<Longrightarrow> length (slice_bytes h s) = sl_len s"
  by (auto simp: slice_ok_def slice_bytes_def min_def)

lemma cloneBytes_bytes:
  assumes "slice_ok h b" and "cloneBytes h b = (c, h')"
  shows "slice_bytes h' c = slice_bytes h b" and "slice_ok h' c"
    and "sl_array c = fresh h" and "\<And>s. slice_ok h s \<Longrightarrow> slice_bytes h' s = slice_bytes h s"
  using assms length_slice_bytes [OF assms(1)]
  by (auto simp: cloneBytes_def Let_def slice_ok_def slice_bytes_def)

lemma slice_write_other:
  assumes "slice_write h s i x = Some h'" and "sl_array t \<noteq> sl_array s"
  shows "slice_bytes h' t = slice_bytes h t"
  using assms by (auto simp: slice_write_def slice_bytes_def split: if_splits)

subsection \<open>Immutability of a stored view\<close>

text \<open>
  C40. A value stored through \<open>cloneBytes\<close> and read back through \<open>ByteSlice\<close> is isolated on
  both sides: the read returns the bytes the caller supplied, and after any write through the
  caller's own slice or through the returned copy the view still denotes the same bytes.
\<close>

theorem byteview_isolated:
  assumes "slice_ok h src"
    and "cloneBytes h src = (own, h1)"
    and "ByteSlice h1 \<lparr>bv_slice = own\<rparr> = (out, h2)"
    and "slice_write h2 src i x = Some h3"
    and "slice_write h3 out j y = Some h4"
  shows "view_of h2 \<lparr>bv_slice = own\<rparr> = ByteView (slice_bytes h src)
    \<and> slice_bytes h2 out = slice_bytes h src
    \<and> view_of h4 \<lparr>bv_slice = own\<rparr> = ByteView (slice_bytes h src)"
proof -
  note c1 = cloneBytes_bytes [OF assms(1,2)]
  from assms(3) have cl2: "cloneBytes h1 own = (out, h2)" by (simp add: ByteSlice_def)
  note c2 = cloneBytes_bytes [OF c1(2) cl2]
  have ne1: "sl_array own \<noteq> sl_array src"
    using assms(1) c1(3) by (simp add: slice_ok_def)
  have ne2: "sl_array own \<noteq> sl_array out"
    using c1(2) c2(3) by (simp add: slice_ok_def)
  have own2: "slice_bytes h2 own = slice_bytes h src"
    using c2(4) [OF c1(2)] c1(1) by simp
  moreover have "slice_bytes h4 own = slice_bytes h2 own"
    using slice_write_other [OF assms(4) ne1] slice_write_other [OF assms(5) ne2] by simp
  ultimately show ?thesis using c2(1) c1(1) by (simp add: view_of_def)
qed

text \<open>A caller's slice \<open>a[1:3]\<close> of the array \<open>[1, 2, 3]\<close>.\<close>

definition example_mem :: memory where
  "example_mem = \<lparr>arrays = (\<lambda>_. [])(0 := [1, 2, 3]), fresh = 1\<rparr>"

definition example_src :: slice where
  "example_src = \<lparr>sl_array = 0, sl_off = 1, sl_len = 2\<rparr>"

theorem byteview_isolated_witness:
  "(case cloneBytes example_mem example_src of (own, h1) \<Rightarrow>
    case ByteSlice h1 \<lparr>bv_slice = own\<rparr> of (out, h2) \<Rightarrow>
    case slice_write h2 example_src 0 9 of None \<Rightarrow> False | Some h3 \<Rightarrow>
    case slice_write h3 out 1 7 of None \<Rightarrow> False | Some h4 \<Rightarrow>
      view_of h4 \<lparr>bv_slice = own\<rparr> = ByteView [2, 3])"
proof -
  obtain own h1 where 1: "cloneBytes example_mem example_src = (own, h1)" by fastforce
  obtain out h2 where 2: "ByteSlice h1 \<lparr>bv_slice = own\<rparr> = (out, h2)" by fastforce
  have ok: "slice_ok example_mem example_src"
    by (simp add: example_mem_def example_src_def slice_ok_def)
  have "sl_len out = 2" and "sl_len example_src = 2"
    using 1 2 by (auto simp: ByteSlice_def cloneBytes_def Let_def example_src_def)
  then obtain h3 h4 where 3: "slice_write h2 example_src 0 9 = Some h3" "slice_write h3 out 1 7 = Some h4"
    by (simp add: slice_write_def)
  have "slice_bytes example_mem example_src = [2, 3]"
    by (simp add: example_mem_def example_src_def slice_bytes_def)
  with byteview_isolated [OF ok 1 2 3] have "view_of h4 \<lparr>bv_slice = own\<rparr> = ByteView [2, 3]"
    by simp
  with 1 2 3 show ?thesis by simp
qed

end
