(* ===== verification/Store_Api.thy ===== *)
theory Store_Api
  imports Byte_View
begin

text \<open>
  \<open>store/store.go\<close>: what a storage engine is.  Values, options, the default options, the
  calls of the interface \<open>Store\<close> as data, and the contract the layers above rely on as a
  locale that both engines interpret.
\<close>

subsection \<open>Values\<close>

text \<open>
  The interface \<open>Value\<close> has one method, \<open>Len\<close>.  The program stores \<open>ByteView\<close>s; any
  other implementation is represented by the length it reports.  A \<open>nil\<close> interface value
  is \<open>None\<close> of \<open>svalue option\<close>.
\<close>

datatype svalue = BV byteview | Opaque int

primrec Len :: "svalue \<Rightarrow> int" where
  "Len (BV b) = ByteView_Len b"
| "Len (Opaque n) = n"

subsection \<open>Options\<close>

datatype cache_type = LRU | LRU2 | OtherType string

definition minute :: int where "minute = 60 * 1000000000"

text \<open>
  \<open>OnEvicted\<close> is a function value or \<open>nil\<close>; what the engines do with it is call it, so
  the option records whether it is set and the calls are recorded in the engine's log.
\<close>

record Options =
  MaxBytes :: int
  BucketCount :: "16 word"
  CapPerBucket :: "16 word"
  Level2Cap :: "16 word"
  CleanupInterval :: int
  OnEvicted :: bool

definition NewOptions :: Options where
  "NewOptions = \<lparr>MaxBytes = 8192, BucketCount = 16, CapPerBucket = 512, Level2Cap = 256,
     CleanupInterval = minute, OnEvicted = False\<rparr>"

text \<open>
  One call of the eviction callback: the key, the value, and whether the engine held the
  entry's lock while it called.
\<close>

datatype callback = Callback (cb_key: key) (cb_value: "svalue option") (cb_locked: bool)

subsection \<open>The calls of the interface\<close>

text \<open>
  \<open>clk\<close> gives the clock readings of one call, in the order the call takes them.
  \<open>OpTick\<close> is one round of the background cleanup.
\<close>

type_synonym clk = "int \<times> int"

datatype store_op =
    OpGet clk key
  | OpSet clk key "svalue option" int
  | OpDelete key
  | OpClear
  | OpLen
  | OpTick int

datatype store_out = OVal "svalue option" bool | OBool bool | OLen nat | OUnit

text \<open>Running a list of calls; a panic stops the run.\<close>

fun run_ops :: "(store_op \<Rightarrow> 's \<Rightarrow> (store_out \<times> 's) option) \<Rightarrow> store_op list \<Rightarrow> 's
    \<Rightarrow> (store_out list \<times> 's) option" where
  "run_ops step [] s = Some ([], s)"
| "run_ops step (x # xs) s =
     (case step x s of
        None \<Rightarrow> None
      | Some (out, s') \<Rightarrow>
          (case run_ops step xs s' of
             None \<Rightarrow> None
           | Some (outs, s'') \<Rightarrow> Some (out # outs, s'')))"

text \<open>
  The values that may still be readable under \<open>k\<close> after a call, given those that were:
  a set adds its value, a delete or a clear removes all of them.
\<close>

fun keeps :: "store_op \<Rightarrow> key \<Rightarrow> svalue set \<Rightarrow> svalue set" where
  "keeps (OpSet t k' (Some v) d) k H = (if k' = k then insert v H else H)"
| "keeps (OpDelete k') k H = (if k' = k then {} else H)"
| "keeps OpClear k H = {}"
| "keeps _ k H = H"

text \<open>
  The same with overwriting: a set leaves only its own value under its key.
\<close>

fun keeps_last :: "store_op \<Rightarrow> key \<Rightarrow> svalue set \<Rightarrow> svalue set" where
  "keeps_last (OpSet t k' (Some v) d) k H = (if k' = k then {v} else H)"
| "keeps_last (OpSet t k' None d) k H = (if k' = k then {} else H)"
| "keeps_last (OpDelete k') k H = (if k' = k then {} else H)"
| "keeps_last OpClear k H = {}"
| "keeps_last _ k H = H"

lemma keeps_mono: "H \<subseteq> H' \<Longrightarrow> keeps x k H \<subseteq> keeps x k H'"
  by (cases "(x, k, H)" rule: keeps.cases) auto

lemma keeps_last_mono: "H \<subseteq> H' \<Longrightarrow> keeps_last x k H \<subseteq> keeps_last x k H'"
  by (cases "(x, k, H)" rule: keeps_last.cases) auto

lemma fold_keeps_mono: "H \<subseteq> H' \<Longrightarrow> fold (\<lambda>x. keeps x k) xs H \<subseteq> fold (\<lambda>x. keeps x k) xs H'"
  by (induction xs arbitrary: H H') (auto simp: keeps_mono)

lemma fold_keeps_last_mono:
  "H \<subseteq> H' \<Longrightarrow> fold (\<lambda>x. keeps_last x k) xs H \<subseteq> fold (\<lambda>x. keeps_last x k) xs H'"
  by (induction xs arbitrary: H H') (auto simp: keeps_last_mono)

subsection \<open>The contract\<close>

text \<open>
  \<open>held s k\<close> are the values the engine physically retains under \<open>k\<close>.  Every call
  returns, keeps the invariant, retains only what \<open>keeps\<close> allows, and a hit answers with
  a retained value.
\<close>

locale kv_store =
  fixes step :: "store_op \<Rightarrow> 's \<Rightarrow> (store_out \<times> 's) option"
    and inv :: "'s \<Rightarrow> bool"
    and held :: "'s \<Rightarrow> key \<Rightarrow> svalue set"
  assumes step_total: "inv s \<Longrightarrow> \<exists>out s'. step x s = Some (out, s') \<and> inv s'"
    and held_step: "inv s \<Longrightarrow> step x s = Some (out, s') \<Longrightarrow> held s' k \<subseteq> keeps x k (held s k)"
    and get_held: "inv s \<Longrightarrow> step (OpGet t k) s = Some (OVal (Some v) ok, s') \<Longrightarrow> v \<in> held s k"
begin

lemma inv_step: "inv s \<Longrightarrow> step x s = Some (out, s') \<Longrightarrow> inv s'"
  using step_total [of s x] by auto

lemma run_total: "inv s \<Longrightarrow> \<exists>outs s'. run_ops step xs s = Some (outs, s') \<and> inv s'"
proof (induction xs arbitrary: s)
  case (Cons x xs)
  obtain out s1 where 1: "step x s = Some (out, s1)" "inv s1"
    using step_total [OF Cons.prems] by blast
  obtain outs s2 where "run_ops step xs s1 = Some (outs, s2)" "inv s2"
    using Cons.IH [OF 1(2)] by blast
  with 1 show ?case by simp
qed simp

lemma run_inv: "inv s \<Longrightarrow> run_ops step xs s = Some (outs, s') \<Longrightarrow> inv s'"
  using run_total [of s xs] by auto

lemma run_held:
  "inv s \<Longrightarrow> run_ops step xs s = Some (outs, s') \<Longrightarrow>
   held s' k \<subseteq> fold (\<lambda>x. keeps x k) xs (held s k)"
proof (induction xs arbitrary: s outs)
  case (Cons x xs)
  obtain out s1 outs' where 1: "step x s = Some (out, s1)" "run_ops step xs s1 = Some (outs', s')"
    using Cons.prems(2) by (auto split: option.splits prod.splits)
  have "held s' k \<subseteq> fold (\<lambda>x. keeps x k) xs (held s1 k)"
    using Cons.IH [OF inv_step [OF Cons.prems(1) 1(1)] 1(2)] .
  also have "\<dots> \<subseteq> fold (\<lambda>x. keeps x k) xs (keeps x k (held s k))"
    by (rule fold_keeps_mono) (rule held_step [OF Cons.prems(1) 1(1)])
  finally show ?case by simp
qed simp

text \<open>When every set stores a value of \<open>R\<close>, the store never holds any other value.\<close>

lemma held_range:
  assumes "inv s" and "step x s = Some (out, s')" and "\<And>k. held s k \<subseteq> R"
    and "\<And>t k v d. x = OpSet t k (Some v) d \<Longrightarrow> v \<in> R"
  shows "held s' k \<subseteq> R"
proof -
  have "keeps x k H \<subseteq> R" if "H \<subseteq> R" for H
    using that assms(4) by (cases "(x, k, H)" rule: keeps.cases) auto
  then show ?thesis using held_step [OF assms(1,2)] assms(3) by blast
qed

text \<open>A hit after any run answers with a value some set of the run stored under that key.\<close>

lemma run_get:
  assumes "inv s" and "run_ops step xs s = Some (outs, s1)"
    and "step (OpGet t k) s1 = Some (OVal (Some v) ok, s2)"
  shows "v \<in> fold (\<lambda>x. keeps x k) xs (held s k)"
  using get_held [OF run_inv [OF assms(1,2)] assms(3)] run_held [OF assms(1,2), of k] by auto

end

text \<open>A store whose sets replace what was there: a hit is the last value written.\<close>

locale coherent_store = kv_store +
  assumes held_overwrite:
    "inv s \<Longrightarrow> step x s = Some (out, s') \<Longrightarrow> held s' k \<subseteq> keeps_last x k (held s k)"
begin

lemma run_held_last:
  "inv s \<Longrightarrow> run_ops step xs s = Some (outs, s') \<Longrightarrow>
   held s' k \<subseteq> fold (\<lambda>x. keeps_last x k) xs (held s k)"
proof (induction xs arbitrary: s outs)
  case (Cons x xs)
  obtain out s1 outs' where 1: "step x s = Some (out, s1)" "run_ops step xs s1 = Some (outs', s')"
    using Cons.prems(2) by (auto split: option.splits prod.splits)
  have "held s' k \<subseteq> fold (\<lambda>x. keeps_last x k) xs (held s1 k)"
    using Cons.IH [OF inv_step [OF Cons.prems(1) 1(1)] 1(2)] .
  also have "\<dots> \<subseteq> fold (\<lambda>x. keeps_last x k) xs (keeps_last x k (held s k))"
    by (rule fold_keeps_last_mono) (rule held_overwrite [OF Cons.prems(1) 1(1)])
  finally show ?case by simp
qed simp

lemma run_get_last:
  assumes "inv s" and "run_ops step xs s = Some (outs, s1)"
    and "step (OpGet t k) s1 = Some (OVal (Some v) ok, s2)"
  shows "v \<in> fold (\<lambda>x. keeps_last x k) xs (held s k)"
  using get_held [OF run_inv [OF assms(1,2)] assms(3)] run_held_last [OF assms(1,2), of k] by auto

end

end
