(* ===== verification/Lru.thy ===== *)
theory Lru
  imports Store_Api
begin

text \<open>
  \<open>store/lru.go\<close>: the LRU engine over \<open>container/list\<close> and two maps.

  A \<open>*list.Element\<close> is a number; \<open>lru_heap\<close> gives the \<open>*lruEntry\<close> an element points
  to, so that an element kept across two lock sections is the same element, and
  \<open>lru_list\<close> is the list of the elements from \<open>Front\<close> (least recently used) to
  \<open>Back\<close>.  Every operation below is one lock section, except \<open>lru_Get\<close>, which is
  composed of the read section and the section that follows it.  \<open>lru_log\<close> is the record
  of the eviction callbacks made so far.
\<close>

subsection \<open>State\<close>

record lruEntry =
  le_key :: key
  le_value :: svalue

record lruCache =
  lru_list :: "nat list"
  lru_heap :: "nat \<Rightarrow> lruEntry"
  lru_next :: nat
  items :: "(key, nat) gomap"
  expires :: "(key, int) gomap"
  maxBytes :: int
  usedBytes :: int
  onEvicted :: bool
  cleanupInterval :: int
  closeCh_closed :: bool
  lru_log :: "callback list"

definition newLRUCache :: "Options \<Rightarrow> lruCache" where
  "newLRUCache opts =
     \<lparr>lru_list = [], lru_heap = (\<lambda>_. \<lparr>le_key = [], le_value = Opaque 0\<rparr>), lru_next = 0,
      items = [], expires = [], maxBytes = MaxBytes opts, usedBytes = 0,
      onEvicted = OnEvicted opts,
      cleanupInterval = (if CleanupInterval opts \<le> 0 then minute else CleanupInterval opts),
      closeCh_closed = False, lru_log = []\<rparr>"

definition entry_bytes :: "lruEntry \<Rightarrow> int" where
  "entry_bytes e = int (length (le_key e)) + Len (le_value e)"

subsection \<open>Operations\<close>

definition removeElement :: "nat \<Rightarrow> lruCache \<Rightarrow> lruCache" where
  "removeElement elem c =
     (let entry = lru_heap c elem in
      c\<lparr>lru_list := remove1 elem (lru_list c),
        items := mdel (le_key entry) (items c),
        expires := mdel (le_key entry) (expires c),
        usedBytes := usedBytes c - (int (length (le_key entry)) + Len (le_value entry)),
        lru_log := (if onEvicted c
                    then lru_log c @ [Callback (le_key entry) (Some (le_value entry)) True]
                    else lru_log c)\<rparr>)"

definition lru_Delete :: "key \<Rightarrow> lruCache \<Rightarrow> bool \<times> lruCache" where
  "lru_Delete k c =
     (case mget (items c) k of
        Some elem \<Rightarrow> (True, removeElement elem c)
      | None \<Rightarrow> (False, c))"

text \<open>
  The first loop of \<open>evict\<close>, over the pairs \<open>range\<close> delivers: an entry that is removed is
  the current one, so the pairs are those of the map when the loop starts.
\<close>

fun evict_expired :: "int \<Rightarrow> (key \<times> int) list \<Rightarrow> lruCache \<Rightarrow> lruCache" where
  "evict_expired now [] c = c"
| "evict_expired now ((k, expTime) # es) c =
     evict_expired now es
       (if now > expTime
        then (case mget (items c) k of Some elem \<Rightarrow> removeElement elem c | None \<Rightarrow> c)
        else c)"

lemma length_list_removeElement:
  "lru_list c \<noteq> [] \<Longrightarrow> length (lru_list (removeElement (hd (lru_list c)) c)) < length (lru_list c)"
  by (cases "lru_list c") (auto simp: removeElement_def Let_def)

text \<open>The second loop of \<open>evict\<close>.\<close>

function evict_memory :: "lruCache \<Rightarrow> lruCache" where
  "evict_memory c =
     (if maxBytes c > 0 \<and> usedBytes c > maxBytes c \<and> lru_list c \<noteq> []
      then evict_memory (removeElement (hd (lru_list c)) c)
      else c)"
  by pat_completeness auto
termination
  by (relation "measure (\<lambda>c. length (lru_list c))") (auto simp: length_list_removeElement)

declare evict_memory.simps [simp del]

definition lru_evict :: "int \<Rightarrow> lruCache \<Rightarrow> lruCache" where
  "lru_evict now c = evict_memory (evict_expired now (expires c) c)"

text \<open>
  \<open>Get\<close>: what the section under the read lock finds, and what the second section does.
\<close>

datatype get_read = GMiss | GExpired | GHit nat svalue

definition lru_get_read :: "int \<Rightarrow> key \<Rightarrow> lruCache \<Rightarrow> get_read" where
  "lru_get_read now k c =
     (case mget (items c) k of
        None \<Rightarrow> GMiss
      | Some elem \<Rightarrow>
          (case mget (expires c) k of
             Some expTime \<Rightarrow>
               if now > expTime then GExpired else GHit elem (le_value (lru_heap c elem))
           | None \<Rightarrow> GHit elem (le_value (lru_heap c elem))))"

text \<open>
  An element that is not in the list is not moved.  (After \<open>Clear\<close>, whose \<open>list.Init\<close> leaves the
  old elements with their pointer to the list, Go would move such an element; that takes a \<open>Clear\<close>
  and a \<open>Set\<close> of the key between the two sections of one \<open>Get\<close>, which the read lock that \<open>Cache\<close>
  holds around \<open>Get\<close> excludes.)
\<close>

definition lru_get_touch :: "key \<Rightarrow> nat \<Rightarrow> lruCache \<Rightarrow> lruCache" where
  "lru_get_touch k elem c =
     (case mget (items c) k of
        Some _ \<Rightarrow> c\<lparr>lru_list := move_back elem (lru_list c)\<rparr>
      | None \<Rightarrow> c)"

definition lru_Get :: "int \<Rightarrow> key \<Rightarrow> lruCache \<Rightarrow> svalue option \<times> lruCache" where
  "lru_Get now k c =
     (case lru_get_read now k c of
        GMiss \<Rightarrow> (None, c)
      | GExpired \<Rightarrow> (None, snd (lru_Delete k c))
      | GHit elem v \<Rightarrow> (Some v, lru_get_touch k elem c))"

definition lru_SetWithExpiration :: "clk \<Rightarrow> key \<Rightarrow> svalue option \<Rightarrow> int \<Rightarrow> lruCache \<Rightarrow> lruCache" where
  "lru_SetWithExpiration t k val expiration c =
     (case val of
        None \<Rightarrow> snd (lru_Delete k c)
      | Some v \<Rightarrow>
          let c = (if expiration > 0
                   then c\<lparr>expires := mput k (fst t + expiration) (expires c)\<rparr>
                   else c\<lparr>expires := mdel k (expires c)\<rparr>) in
          (case mget (items c) k of
             Some elem \<Rightarrow>
               let old = lru_heap c elem in
               c\<lparr>usedBytes := usedBytes c + (Len v - Len (le_value old)),
                 lru_heap := (lru_heap c)(elem := old\<lparr>le_value := v\<rparr>),
                 lru_list := move_back elem (lru_list c)\<rparr>
           | None \<Rightarrow>
               let elem = lru_next c in
               lru_evict (snd t)
                 (c\<lparr>lru_heap := (lru_heap c)(elem := \<lparr>le_key = k, le_value = v\<rparr>),
                    lru_next := Suc elem,
                    lru_list := lru_list c @ [elem],
                    items := mput k elem (items c),
                    usedBytes := usedBytes c + (int (length k) + Len v)\<rparr>)))"

definition lru_Set :: "clk \<Rightarrow> key \<Rightarrow> svalue option \<Rightarrow> lruCache \<Rightarrow> lruCache" where
  "lru_Set t k val c = lru_SetWithExpiration t k val 0 c"

definition lru_Clear :: "lruCache \<Rightarrow> lruCache" where
  "lru_Clear c =
     c\<lparr>lru_log := (if onEvicted c
                   then lru_log c @ map (\<lambda>(k, elem). Callback (le_key (lru_heap c elem))
                                             (Some (le_value (lru_heap c elem))) True) (items c)
                   else lru_log c),
       lru_list := [], items := [], expires := [], usedBytes := 0\<rparr>"

definition lru_Len :: "lruCache \<Rightarrow> nat" where
  "lru_Len c = length (lru_list c)"

text \<open>One round of \<open>cleanupLoop\<close>.\<close>

definition lru_cleanup :: "int \<Rightarrow> lruCache \<Rightarrow> lruCache" where
  "lru_cleanup now c = lru_evict now c"

text \<open>\<open>Close\<close>: closing the channel a second time panics.\<close>

definition lru_Close :: "lruCache \<Rightarrow> lruCache option" where
  "lru_Close c = (if closeCh_closed c then None else Some (c\<lparr>closeCh_closed := True\<rparr>))"

definition lru_GetWithExpiration :: "int \<Rightarrow> key \<Rightarrow> lruCache \<Rightarrow> (svalue option \<times> int \<times> bool) \<times> lruCache" where
  "lru_GetWithExpiration now k c =
     (case mget (items c) k of
        None \<Rightarrow> ((None, 0, False), c)
      | Some elem \<Rightarrow>
          (case mget (expires c) k of
             Some expTime \<Rightarrow>
               if now > expTime then ((None, 0, False), c)
               else ((Some (le_value (lru_heap c elem)), expTime - now, True),
                     c\<lparr>lru_list := move_back elem (lru_list c)\<rparr>)
           | None \<Rightarrow> ((Some (le_value (lru_heap c elem)), 0, True),
                      c\<lparr>lru_list := move_back elem (lru_list c)\<rparr>)))"

definition lru_GetExpiration :: "key \<Rightarrow> lruCache \<Rightarrow> int option" where
  "lru_GetExpiration k c = mget (expires c) k"

definition lru_UpdateExpiration :: "int \<Rightarrow> key \<Rightarrow> int \<Rightarrow> lruCache \<Rightarrow> bool \<times> lruCache" where
  "lru_UpdateExpiration now k expiration c =
     (case mget (items c) k of
        None \<Rightarrow> (False, c)
      | Some _ \<Rightarrow>
          if expiration > 0 then (True, c\<lparr>expires := mput k (now + expiration) (expires c)\<rparr>)
          else (True, c\<lparr>expires := mdel k (expires c)\<rparr>))"

definition lru_UsedBytes :: "lruCache \<Rightarrow> int" where
  "lru_UsedBytes c = usedBytes c"

definition lru_MaxBytes :: "lruCache \<Rightarrow> int" where
  "lru_MaxBytes c = maxBytes c"

definition lru_SetMaxBytes :: "int \<Rightarrow> int \<Rightarrow> lruCache \<Rightarrow> lruCache" where
  "lru_SetMaxBytes now mb c =
     (let c = c\<lparr>maxBytes := mb\<rparr> in if mb > 0 then lru_evict now c else c)"

text \<open>The interface \<open>Store\<close> on this engine.\<close>

fun lru_step :: "store_op \<Rightarrow> lruCache \<Rightarrow> (store_out \<times> lruCache) option" where
  "lru_step (OpGet t k) c = (let (v, c') = lru_Get (fst t) k c in Some (OVal v (v \<noteq> None), c'))"
| "lru_step (OpSet t k v d) c = Some (OUnit, lru_SetWithExpiration t k v d c)"
| "lru_step (OpDelete k) c = (let (b, c') = lru_Delete k c in Some (OBool b, c'))"
| "lru_step OpClear c = Some (OUnit, lru_Clear c)"
| "lru_step OpLen c = Some (OLen (lru_Len c), c)"
| "lru_step (OpTick now) c = Some (OUnit, lru_cleanup now c)"

subsection \<open>Representation invariant\<close>

text \<open>
  The two maps and the list describe the same entries, no key has an expiry without an
  entry, and \<open>usedBytes\<close> is the size of what the list holds.
\<close>

definition lru_inv :: "lruCache \<Rightarrow> bool" where
  "lru_inv c \<longleftrightarrow>
     distinct (lru_list c) \<and> gomap_ok (items c) \<and> gomap_ok (expires c) \<and>
     (\<forall>(k, e) \<in> set (items c). e \<in> set (lru_list c) \<and> le_key (lru_heap c e) = k) \<and>
     (\<forall>e \<in> set (lru_list c). mget (items c) (le_key (lru_heap c e)) = Some e \<and> e < lru_next c) \<and>
     set (mkeys (expires c)) \<subseteq> set (mkeys (items c)) \<and>
     usedBytes c = sum_list (map (\<lambda>e. entry_bytes (lru_heap c e)) (lru_list c))"

lemma lru_invD:
  assumes "lru_inv c"
  shows "distinct (lru_list c)" and "gomap_ok (items c)" and "gomap_ok (expires c)"
    and "usedBytes c = sum_list (map (\<lambda>e. entry_bytes (lru_heap c e)) (lru_list c))"
    and "set (mkeys (expires c)) \<subseteq> set (mkeys (items c))"
  using assms by (auto simp: lru_inv_def)

lemma lru_inv_item:
  assumes "lru_inv c" and "mget (items c) k = Some e"
  shows "e \<in> set (lru_list c)" and "le_key (lru_heap c e) = k"
proof -
  from assms(1) have "\<forall>(k, e) \<in> set (items c). e \<in> set (lru_list c) \<and> le_key (lru_heap c e) = k"
    unfolding lru_inv_def by blast
  with map_of_SomeD [OF assms(2)] show "e \<in> set (lru_list c)" and "le_key (lru_heap c e) = k"
    by blast+
qed

lemma lru_inv_elem:
  assumes "lru_inv c" and "e \<in> set (lru_list c)"
  shows "mget (items c) (le_key (lru_heap c e)) = Some e" and "e < lru_next c"
  using assms unfolding lru_inv_def by blast+

lemma lru_inv_key_inj:
  assumes "lru_inv c" and "e \<in> set (lru_list c)" and "f \<in> set (lru_list c)"
  shows "le_key (lru_heap c e) = le_key (lru_heap c f) \<longleftrightarrow> e = f"
  using lru_inv_elem(1) [OF assms(1,2)] lru_inv_elem(1) [OF assms(1,3)] by (metis option.inject)

lemma lru_invI:
  assumes "distinct (lru_list c)" and "gomap_ok (items c)" and "gomap_ok (expires c)"
    and "\<And>k e. mget (items c) k = Some e \<Longrightarrow> e \<in> set (lru_list c) \<and> le_key (lru_heap c e) = k"
    and "\<And>e. e \<in> set (lru_list c) \<Longrightarrow> mget (items c) (le_key (lru_heap c e)) = Some e \<and> e < lru_next c"
    and "\<And>k t. mget (expires c) k = Some t \<Longrightarrow> \<exists>e. mget (items c) k = Some e"
    and "usedBytes c = sum_list (map (\<lambda>e. entry_bytes (lru_heap c e)) (lru_list c))"
  shows "lru_inv c"
proof -
  have "\<forall>(k, e) \<in> set (items c). e \<in> set (lru_list c) \<and> le_key (lru_heap c e) = k"
  proof clarify
    fix k e
    assume "(k, e) \<in> set (items c)"
    then have "mget (items c) k = Some e" using mget_in_set [OF assms(2)] by blast
    then show "e \<in> set (lru_list c) \<and> le_key (lru_heap c e) = k" by (rule assms(4))
  qed
  moreover have "\<forall>e \<in> set (lru_list c). mget (items c) (le_key (lru_heap c e)) = Some e \<and> e < lru_next c"
    by (intro ballI assms(5))
  moreover have "set (mkeys (expires c)) \<subseteq> set (mkeys (items c))"
    unfolding mget_dom [symmetric] using assms(6) by (intro subsetI) (auto simp: dom_def)
  ultimately show ?thesis unfolding lru_inv_def using assms(1,2,3,7) by (intro conjI)
qed

lemma lru_inv_dom: "lru_inv c \<Longrightarrow> mget (expires c) k = Some t \<Longrightarrow> \<exists>e. mget (items c) k = Some e"
  using lru_invD(5) [of c] unfolding mget_dom [symmetric] by blast

lemma lru_inv_new [inv_intros]: "lru_inv (newLRUCache opts)"
  by (simp add: lru_inv_def newLRUCache_def)

lemma removeElement_inv [inv_intros]:
  assumes inv: "lru_inv c" and e: "e \<in> set (lru_list c)"
  shows "lru_inv (removeElement e c)"
proof (rule lru_invI)
  note d = lru_invD [OF inv]
  show "distinct (lru_list (removeElement e c))" "gomap_ok (items (removeElement e c))"
    "gomap_ok (expires (removeElement e c))"
    using d by (simp_all add: removeElement_def Let_def)
  show "\<And>k f. mget (items (removeElement e c)) k = Some f \<Longrightarrow>
      f \<in> set (lru_list (removeElement e c)) \<and> le_key (lru_heap (removeElement e c) f) = k"
    using d(1) lru_inv_item [OF inv] by (force simp: removeElement_def Let_def split: if_splits)
  show "\<And>f. f \<in> set (lru_list (removeElement e c)) \<Longrightarrow>
      mget (items (removeElement e c)) (le_key (lru_heap (removeElement e c) f)) = Some f
      \<and> f < lru_next (removeElement e c)"
    using d(1) lru_inv_elem [OF inv] lru_inv_key_inj [OF inv _ e]
    by (auto simp: removeElement_def Let_def)
  show "\<And>k t. mget (expires (removeElement e c)) k = Some t \<Longrightarrow> \<exists>e'. mget (items (removeElement e c)) k = Some e'"
    using lru_inv_dom [OF inv] by (auto simp: removeElement_def Let_def split: if_splits)
  show "usedBytes (removeElement e c) =
      sum_list (map (\<lambda>f. entry_bytes (lru_heap (removeElement e c) f)) (lru_list (removeElement e c)))"
    using d(4) by (simp add: removeElement_def Let_def sum_list_remove1 [OF e] entry_bytes_def)
qed

lemma lru_Delete_inv [inv_intros]: "lru_inv c \<Longrightarrow> lru_inv (snd (lru_Delete k c))"
  by (auto simp: lru_Delete_def removeElement_inv lru_inv_item split: option.split)

lemma evict_expired_inv [inv_intros]: "lru_inv c \<Longrightarrow> lru_inv (evict_expired now es c)"
  by (induction now es c rule: evict_expired.induct)
    (auto simp: removeElement_inv lru_inv_item split: option.split)

lemma evict_memory_inv [inv_intros]: "lru_inv c \<Longrightarrow> lru_inv (evict_memory c)"
proof (induction c rule: evict_memory.induct)
  case (1 c)
  then show ?case
    by (subst evict_memory.simps) (simp add: removeElement_inv)
qed

lemma lru_evict_inv [inv_intros]: "lru_inv c \<Longrightarrow> lru_inv (lru_evict now c)"
  by (simp add: lru_evict_def inv_intros)

lemma lru_touch_inv [inv_intros]: "lru_inv c \<Longrightarrow> lru_inv (c\<lparr>lru_list := move_back e (lru_list c)\<rparr>)"
  by (simp add: lru_inv_def)

lemma lru_expires_inv:
  assumes "lru_inv c" and "gomap_ok m" and "set (mkeys m) \<subseteq> set (mkeys (items c))"
  shows "lru_inv (c\<lparr>expires := m\<rparr>)"
  using assms by (simp add: lru_inv_def)

lemma lru_Get_inv [inv_intros]: "lru_inv c \<Longrightarrow> lru_inv (snd (lru_Get now k c))"
  by (auto simp: lru_Get_def lru_get_touch_def inv_intros split: get_read.split option.split)

text \<open>Overwriting the value of an element, and pushing a new one.\<close>

lemma lru_overwrite_inv:
  assumes inv: "lru_inv c" and e: "e \<in> set (lru_list c)"
  shows "lru_inv (c\<lparr>usedBytes := usedBytes c + (Len v - Len (le_value (lru_heap c e))),
                    lru_heap := (lru_heap c)(e := (lru_heap c e)\<lparr>le_value := v\<rparr>)\<rparr>)"
    (is "lru_inv ?c")
proof (rule lru_invI)
  note d = lru_invD [OF inv]
  show "distinct (lru_list ?c)" "gomap_ok (items ?c)" "gomap_ok (expires ?c)"
    "\<And>k t. mget (expires ?c) k = Some t \<Longrightarrow> \<exists>e. mget (items ?c) k = Some e"
    using d lru_inv_dom [OF inv] by simp_all
  show "\<And>k f. mget (items ?c) k = Some f \<Longrightarrow> f \<in> set (lru_list ?c) \<and> le_key (lru_heap ?c f) = k"
    using lru_inv_item [OF inv] by auto
  show "\<And>f. f \<in> set (lru_list ?c) \<Longrightarrow>
      mget (items ?c) (le_key (lru_heap ?c f)) = Some f \<and> f < lru_next ?c"
    using lru_inv_elem [OF inv] by auto
  have "sum_list (map (\<lambda>f. entry_bytes (lru_heap ?c f)) (lru_list c)) =
      sum_list (map (\<lambda>f. entry_bytes (lru_heap c f)) (lru_list c))
      + (entry_bytes (lru_heap ?c e) - entry_bytes (lru_heap c e))"
    by (rule sum_list_update_one [OF d(1) e]) simp
  then show "usedBytes ?c = sum_list (map (\<lambda>e. entry_bytes (lru_heap ?c e)) (lru_list ?c))"
    using d(4) by (simp add: entry_bytes_def)
qed

definition lru_push :: "key \<Rightarrow> svalue \<Rightarrow> lruCache \<Rightarrow> lruCache" where
  "lru_push k v c =
     c\<lparr>lru_heap := (lru_heap c)(lru_next c := \<lparr>le_key = k, le_value = v\<rparr>),
       lru_next := Suc (lru_next c), lru_list := lru_list c @ [lru_next c],
       items := mput k (lru_next c) (items c),
       usedBytes := usedBytes c + (int (length k) + Len v)\<rparr>"

lemma lru_push_inv:
  assumes inv: "lru_inv (c\<lparr>expires := mdel k (expires c)\<rparr>)" and new: "mget (items c) k = None"
    and ok: "gomap_ok (expires c)"
  shows "lru_inv (lru_push k v c)"
proof (rule lru_invI)
  let ?c = "lru_push k v c"
  note d = lru_invD [OF inv, simplified]
  have fresh: "e \<noteq> lru_next c" if "e \<in> set (lru_list c)" for e
    using lru_inv_elem(2) [OF inv, of e] that by auto
  have it: "e \<in> set (lru_list c)" "le_key (lru_heap c e) = k'" if "mget (items c) k' = Some e" for k' e
    using lru_inv_item [OF inv, of k' e] that by auto
  have el: "mget (items c) (le_key (lru_heap c e)) = Some e" "e < lru_next c" if "e \<in> set (lru_list c)" for e
    using lru_inv_elem [OF inv, of e] that by auto
  show "distinct (lru_list ?c)" "gomap_ok (items ?c)" "gomap_ok (expires ?c)"
    using d ok fresh by (auto simp: lru_push_def)
  show "\<And>k' f. mget (items ?c) k' = Some f \<Longrightarrow> f \<in> set (lru_list ?c) \<and> le_key (lru_heap ?c f) = k'"
    using it fresh by (auto simp: lru_push_def split: if_splits)
  show "\<And>f. f \<in> set (lru_list ?c) \<Longrightarrow>
      mget (items ?c) (le_key (lru_heap ?c f)) = Some f \<and> f < lru_next ?c"
    using el new fresh by (auto simp: lru_push_def less_Suc_eq)
  show "\<And>k' t. mget (expires ?c) k' = Some t \<Longrightarrow> \<exists>e. mget (items ?c) k' = Some e"
    using lru_inv_dom [OF inv] by (fastforce simp: lru_push_def split: if_splits)
  have "sum_list (map (\<lambda>e. entry_bytes (lru_heap ?c e)) (lru_list c)) = sum_list (map (\<lambda>e. entry_bytes (lru_heap c e)) (lru_list c))"
    using fresh by (intro arg_cong [where f = sum_list] map_cong) (auto simp: lru_push_def)
  then show "usedBytes ?c = sum_list (map (\<lambda>e. entry_bytes (lru_heap ?c e)) (lru_list ?c))"
    using d(4) by (simp add: lru_push_def entry_bytes_def)
qed

lemma lru_forget_inv:
  "lru_inv c \<Longrightarrow> lru_inv (c\<lparr>expires := mdel k (expires c)\<rparr>)"
  using lru_invD(5) [of c] by (intro lru_expires_inv) (auto simp: lru_invD)

lemma lru_set_expires_inv:
  assumes inv: "lru_inv c" and "mget (items c) k = Some e"
  shows "lru_inv (c\<lparr>expires := mput k t (expires c)\<rparr>)"
  using lru_invD(3,5) [OF inv] mget_some_key [OF assms(2)]
  by (intro lru_expires_inv [OF inv]) auto

text \<open>The state \<open>SetWithExpiration\<close> is in after it has written \<open>expires\<close>.\<close>

definition lru_set_deadline :: "clk \<Rightarrow> key \<Rightarrow> int \<Rightarrow> lruCache \<Rightarrow> lruCache" where
  "lru_set_deadline t k d c =
     (if d > 0 then c\<lparr>expires := mput k (fst t + d) (expires c)\<rparr>
      else c\<lparr>expires := mdel k (expires c)\<rparr>)"

lemma lru_set_deadline_simps [simp]:
  "lru_list (lru_set_deadline t k d c) = lru_list c"
  "lru_heap (lru_set_deadline t k d c) = lru_heap c"
  "lru_next (lru_set_deadline t k d c) = lru_next c"
  "items (lru_set_deadline t k d c) = items c"
  "maxBytes (lru_set_deadline t k d c) = maxBytes c"
  "usedBytes (lru_set_deadline t k d c) = usedBytes c"
  "onEvicted (lru_set_deadline t k d c) = onEvicted c"
  "lru_log (lru_set_deadline t k d c) = lru_log c"
  "mget (expires (lru_set_deadline t k d c)) k' =
     (if k' = k then (if d > 0 then Some (fst t + d) else None) else mget (expires c) k')"
  by (simp_all add: lru_set_deadline_def)

lemma lru_set_update:
  assumes "mget (items c) k = Some e"
  shows "lru_SetWithExpiration t k (Some v) d c =
    (let c' = lru_set_deadline t k d c in
     c'\<lparr>usedBytes := usedBytes c' + (Len v - Len (le_value (lru_heap c' e))),
        lru_heap := (lru_heap c')(e := (lru_heap c' e)\<lparr>le_value := v\<rparr>),
        lru_list := move_back e (lru_list c')\<rparr>)"
  using assms by (simp add: lru_SetWithExpiration_def lru_set_deadline_def Let_def)

lemma lru_set_insert:
  assumes "mget (items c) k = None"
  shows "lru_SetWithExpiration t k (Some v) d c =
    lru_evict (snd t) (lru_push k v (lru_set_deadline t k d c))"
  using assms by (simp add: lru_SetWithExpiration_def lru_set_deadline_def lru_push_def Let_def)

lemma lru_SetWithExpiration_inv [inv_intros]:
  assumes inv: "lru_inv c"
  shows "lru_inv (lru_SetWithExpiration t k val d c)"
proof (cases val)
  case None
  with inv show ?thesis by (simp add: lru_SetWithExpiration_def lru_Delete_inv)
next
  case (Some v)
  let ?c = "lru_set_deadline t k d c"
  show ?thesis
  proof (cases "mget (items c) k")
    case None
    have "lru_inv (?c\<lparr>expires := mdel k (expires ?c)\<rparr>)"
      using lru_forget_inv [OF inv, of k] by (simp add: lru_set_deadline_def mdel_mput_same)
    then have "lru_inv (lru_push k v ?c)"
      using None lru_invD(3) [OF inv] by (intro lru_push_inv) (auto simp: lru_set_deadline_def)
    with Some None show ?thesis by (simp add: lru_set_insert lru_evict_inv)
  next
    case (Some e)
    have "lru_inv ?c"
      using inv Some by (simp add: lru_set_deadline_def lru_forget_inv lru_set_expires_inv)
    from lru_overwrite_inv [OF this, of e v] have "lru_inv (lru_SetWithExpiration t k (Some v) d c)"
      using Some lru_inv_item(1) [OF inv Some]
      by (simp add: lru_set_update Let_def) (erule lru_touch_inv [THEN back_subst [where P = lru_inv]], simp)
    with \<open>val = Some v\<close> show ?thesis by simp
  qed
qed

lemma lru_Clear_inv [inv_intros]: "lru_inv (lru_Clear c)"
  by (simp add: lru_inv_def lru_Clear_def)

lemma lru_cleanup_inv [inv_intros]: "lru_inv c \<Longrightarrow> lru_inv (lru_cleanup now c)"
  by (simp add: lru_cleanup_def inv_intros)

lemma lru_GetWithExpiration_inv [inv_intros]:
  "lru_inv c \<Longrightarrow> lru_inv (snd (lru_GetWithExpiration now k c))"
  by (auto simp: lru_GetWithExpiration_def lru_touch_inv split: option.split)

lemma lru_UpdateExpiration_inv [inv_intros]:
  "lru_inv c \<Longrightarrow> lru_inv (snd (lru_UpdateExpiration now k d c))"
  by (auto simp: lru_UpdateExpiration_def lru_forget_inv lru_set_expires_inv split: option.split)

lemma lru_SetMaxBytes_inv [inv_intros]:
  assumes "lru_inv c"
  shows "lru_inv (lru_SetMaxBytes now mb c)"
proof -
  have "lru_inv (c\<lparr>maxBytes := mb\<rparr>)" using assms by (simp add: lru_inv_def)
  then show ?thesis by (simp add: lru_SetMaxBytes_def Let_def lru_evict_inv)
qed

subsection \<open>What the engine implements\<close>

text \<open>
  The abstract state: the entries as (key, value, deadline), least recently used first.
  The operations of the specification know nothing of elements, maps or byte counters.
\<close>

type_synonym lru_spec = "(key, svalue \<times> int option) gomap"

definition lru_view :: "lruCache \<Rightarrow> lru_spec" where
  "lru_view c = map (\<lambda>e. (le_key (lru_heap c e), le_value (lru_heap c e),
                          mget (expires c) (le_key (lru_heap c e)))) (lru_list c)"

definition spec_expired :: "int \<Rightarrow> int option \<Rightarrow> bool" where
  "spec_expired now t = (case t of None \<Rightarrow> False | Some d \<Rightarrow> now > d)"

definition spec_get :: "int \<Rightarrow> key \<Rightarrow> lru_spec \<Rightarrow> svalue option \<times> lru_spec" where
  "spec_get now k xs =
     (case mget xs k of
        None \<Rightarrow> (None, xs)
      | Some (v, t) \<Rightarrow>
          if spec_expired now t then (None, mdel k xs) else (Some v, mdel k xs @ [(k, v, t)]))"

definition spec_bytes :: "lru_spec \<Rightarrow> int" where
  "spec_bytes xs = sum_list (map (\<lambda>(k, v, t). int (length k) + Len v) xs)"

fun spec_trim :: "int \<Rightarrow> lru_spec \<Rightarrow> lru_spec" where
  "spec_trim mb [] = []"
| "spec_trim mb (x # xs) = (if mb > 0 \<and> spec_bytes (x # xs) > mb then spec_trim mb xs else x # xs)"

lemma spec_trim_step:
  "xs \<noteq> [] \<Longrightarrow> spec_trim mb xs =
    (if mb > 0 \<and> spec_bytes xs > mb then spec_trim mb (tl xs) else xs)"
  by (cases xs) auto

definition spec_evict :: "int \<Rightarrow> int \<Rightarrow> lru_spec \<Rightarrow> lru_spec" where
  "spec_evict now mb xs = spec_trim mb (filter (\<lambda>(k, v, t). \<not> spec_expired now t) xs)"

definition spec_set :: "clk \<Rightarrow> int \<Rightarrow> key \<Rightarrow> svalue option \<Rightarrow> int \<Rightarrow> lru_spec \<Rightarrow> lru_spec" where
  "spec_set t mb k val d xs =
     (case val of
        None \<Rightarrow> mdel k xs
      | Some v \<Rightarrow>
          let x = (k, v, if d > 0 then Some (fst t + d) else None) in
          if k \<in> set (mkeys xs) then mdel k xs @ [x] else spec_evict (snd t) mb (xs @ [x]))"

lemma lru_view_keys: "mkeys (lru_view c) = map (\<lambda>e. le_key (lru_heap c e)) (lru_list c)"
  by (simp add: lru_view_def)

lemma lru_view_ok: "lru_inv c \<Longrightarrow> gomap_ok (lru_view c)"
  unfolding lru_view_keys using lru_invD(1) [of c] lru_inv_key_inj [of c]
  by (auto simp: distinct_map inj_on_def)

lemma lru_view_mget:
  assumes inv: "lru_inv c"
  shows "mget (lru_view c) k =
    (case mget (items c) k of None \<Rightarrow> None | Some e \<Rightarrow> Some (le_value (lru_heap c e), mget (expires c) k))"
proof (cases "mget (items c) k")
  case None
  have "k \<notin> set (mkeys (lru_view c))"
    using lru_inv_elem(1) [OF inv] None unfolding lru_view_keys by force
  then have "mget (lru_view c) k = None" by (simp add: map_of_eq_None_iff)
  with None show ?thesis by (simp only: option.case)
next
  case (Some e)
  have "(k, le_value (lru_heap c e), mget (expires c) k) \<in> set (lru_view c)"
    unfolding lru_view_def set_map
    by (rule image_eqI [OF _ lru_inv_item(1) [OF inv Some]]) (simp add: lru_inv_item(2) [OF inv Some])
  with mget_in_set [OF lru_view_ok [OF inv]]
  have "mget (lru_view c) k = Some (le_value (lru_heap c e), mget (expires c) k)" by blast
  with Some show ?thesis by (simp only: option.case)
qed

lemma lru_view_bytes: "lru_inv c \<Longrightarrow> spec_bytes (lru_view c) = usedBytes c"
  by (simp add: lru_invD(4) spec_bytes_def lru_view_def entry_bytes_def comp_def)

lemma lru_view_removeElement:
  assumes inv: "lru_inv c" and e: "e \<in> set (lru_list c)"
  shows "lru_view (removeElement e c) = mdel (le_key (lru_heap c e)) (lru_view c)"
proof -
  have "remove1 e (lru_list c) =
      filter (\<lambda>f. le_key (lru_heap c f) \<noteq> le_key (lru_heap c e)) (lru_list c)"
    using lru_inv_key_inj [OF inv _ e] lru_invD(1) [OF inv]
    by (auto simp: remove1_filter intro!: filter_cong)
  moreover have "mdel (le_key (lru_heap c e)) (lru_view c) =
      map (\<lambda>f. (le_key (lru_heap c f), le_value (lru_heap c f), mget (expires c) (le_key (lru_heap c f))))
        (filter (\<lambda>f. le_key (lru_heap c f) \<noteq> le_key (lru_heap c e)) (lru_list c))"
    by (simp add: lru_view_def mdel_filter filter_map comp_def)
  ultimately show ?thesis by (auto simp: lru_view_def removeElement_def Let_def)
qed

lemma lru_view_Delete:
  assumes "lru_inv c"
  shows "lru_view (snd (lru_Delete k c)) = mdel k (lru_view c)"
    and "fst (lru_Delete k c) \<longleftrightarrow> k \<in> set (mkeys (lru_view c))"
proof -
  have *: "mget (lru_view c) k = None \<longleftrightarrow> k \<notin> set (mkeys (lru_view c))"
    by (simp add: map_of_eq_None_iff)
  have "lru_view (snd (lru_Delete k c)) = mdel k (lru_view c)
      \<and> (fst (lru_Delete k c) \<longleftrightarrow> k \<in> set (mkeys (lru_view c)))"
  proof (cases "mget (items c) k")
    case None
    with * lru_view_mget [OF assms, of k] show ?thesis
      by (auto simp: lru_Delete_def mdel_absent)
  next
    case (Some e)
    with * lru_view_mget [OF assms, of k] lru_inv_item [OF assms Some] show ?thesis
      using lru_view_removeElement [OF assms, of e] by (simp add: lru_Delete_def)
  qed
  then show "lru_view (snd (lru_Delete k c)) = mdel k (lru_view c)"
    and "fst (lru_Delete k c) \<longleftrightarrow> k \<in> set (mkeys (lru_view c))" by auto
qed

text \<open>
  The loop over the expiry pairs, whatever list of pairs it visits and in whatever order:
  it leaves the entries no visited pair condemns.
\<close>

lemma lru_view_evict_expired:
  assumes "lru_inv c"
  shows "lru_view (evict_expired now es c) =
    filter (\<lambda>x. \<not> (\<exists>d. (fst x, d) \<in> set es \<and> now > d)) (lru_view c)"
  using assms
proof (induction now es c rule: evict_expired.induct)
  case (2 now k d es c)
  let ?c = "if now > d then snd (lru_Delete k c) else c"
  have eq: "evict_expired now ((k, d) # es) c = evict_expired now es ?c"
    by (auto simp: lru_Delete_def split: option.split)
  have same: "?c = (if now > d then (case mget (items c) k of Some e \<Rightarrow> removeElement e c | None \<Rightarrow> c) else c)"
    by (auto simp: lru_Delete_def split: option.split)
  have "lru_inv ?c" using "2.prems" by (simp add: lru_Delete_inv)
  with "2.IH" have "lru_view (evict_expired now es ?c) =
      filter (\<lambda>x. \<not> (\<exists>d. (fst x, d) \<in> set es \<and> now > d)) (lru_view ?c)"
    unfolding same by simp
  moreover have "lru_view ?c = (if now > d then filter (\<lambda>x. fst x \<noteq> k) (lru_view c) else lru_view c)"
    using lru_view_Delete(1) [OF "2.prems"] by (simp add: mdel_filter)
  ultimately show ?case unfolding eq by (auto intro: filter_cong)
qed simp

lemma lru_view_evict_memory:
  assumes "lru_inv c"
  shows "lru_view (evict_memory c) = spec_trim (maxBytes c) (lru_view c)"
  using assms
proof (induction c rule: evict_memory.induct)
  case (1 c)
  show ?case
  proof (cases "lru_list c")
    case Nil
    then show ?thesis by (subst evict_memory.simps) (simp add: lru_view_def)
  next
    case (Cons e es)
    let ?c = "removeElement e c"
    have hd: "lru_view c = (le_key (lru_heap c e), le_value (lru_heap c e),
        mget (expires c) (le_key (lru_heap c e))) # tl (lru_view c)"
      using Cons by (simp add: lru_view_def)
    have "lru_view ?c = mdel (le_key (lru_heap c e)) (lru_view c)"
      using "1.prems" Cons by (intro lru_view_removeElement) auto
    also have "\<dots> = tl (lru_view c)"
      using lru_view_ok [OF "1.prems"] by (subst hd, subst (asm) hd) (simp add: mdel_absent)
    finally have v: "lru_view ?c = tl (lru_view c)" .
    have inv': "lru_inv ?c" using "1.prems" Cons by (simp add: removeElement_inv)
    have mb: "maxBytes ?c = maxBytes c" by (simp add: removeElement_def Let_def)
    show ?thesis
    proof (cases "maxBytes c > 0 \<and> usedBytes c > maxBytes c")
      case True
      with Cons have "evict_memory c = evict_memory ?c" by (subst evict_memory.simps) simp
      moreover have "lru_view (evict_memory ?c) = spec_trim (maxBytes c) (lru_view ?c)"
        using "1.IH" True Cons inv' mb by simp
      moreover have "lru_view c \<noteq> []" using Cons by (simp add: lru_view_def)
      ultimately show ?thesis
        using True lru_view_bytes [OF "1.prems"] v by (simp add: spec_trim_step)
    next
      case False
      then have "evict_memory c = c" by (subst evict_memory.simps) auto
      moreover have "lru_view c \<noteq> []" using Cons by (simp add: lru_view_def)
      ultimately show ?thesis
        using False lru_view_bytes [OF "1.prems"] by (auto simp: spec_trim_step)
    qed
  qed
qed

lemma lru_view_evict:
  assumes "lru_inv c"
  shows "lru_view (lru_evict now c) = spec_evict now (maxBytes c) (lru_view c)"
proof -
  have mb: "maxBytes (evict_expired now es c) = maxBytes c" for es
    by (induction now es c rule: evict_expired.induct)
      (auto simp: removeElement_def Let_def split: option.split)
  have "(\<exists>d. (k, d) \<in> set (expires c) \<and> now > d) \<longleftrightarrow> spec_expired now (mget (expires c) k)" for k
    using mget_in_set [OF lru_invD(3) [OF assms], of k] by (auto simp: spec_expired_def split: option.split)
  then have "filter (\<lambda>x. \<not> (\<exists>d. (fst x, d) \<in> set (expires c) \<and> now > d)) (lru_view c)
      = filter (\<lambda>(k, v, t). \<not> spec_expired now t) (lru_view c)"
    by (intro filter_cong) (auto simp: lru_view_def)
  then show ?thesis
    using assms by (simp add: lru_evict_def spec_evict_def lru_view_evict_memory
        lru_view_evict_expired evict_expired_inv mb)
qed

lemma lru_view_move_back:
  assumes inv: "lru_inv c" and e: "e \<in> set (lru_list c)"
  shows "lru_view (c\<lparr>lru_list := move_back e (lru_list c)\<rparr>) =
    mdel (le_key (lru_heap c e)) (lru_view c) @
      [(le_key (lru_heap c e), le_value (lru_heap c e), mget (expires c) (le_key (lru_heap c e)))]"
proof -
  have "remove1 e (lru_list c) =
      filter (\<lambda>f. le_key (lru_heap c f) \<noteq> le_key (lru_heap c e)) (lru_list c)"
    using lru_inv_key_inj [OF inv _ e] lru_invD(1) [OF inv]
    by (auto simp: remove1_filter intro!: filter_cong)
  then show ?thesis
    using e by (simp add: lru_view_def move_back_def mdel_filter filter_map comp_def)
qed

lemma lru_read_cases:
  "lru_get_read now k c =
    (case mget (items c) k of
       None \<Rightarrow> GMiss
     | Some e \<Rightarrow> if spec_expired now (mget (expires c) k) then GExpired
                else GHit e (le_value (lru_heap c e)))"
  by (simp add: lru_get_read_def spec_expired_def split: option.split)

lemma lru_view_Get:
  assumes inv: "lru_inv c"
  shows "apsnd lru_view (lru_Get now k c) = spec_get now k (lru_view c)"
proof (cases "mget (items c) k")
  case None
  with lru_view_mget [OF inv, of k] have "mget (lru_view c) k = None" by (simp only: option.case)
  with None show ?thesis by (simp add: lru_Get_def lru_read_cases spec_get_def cong: option.case_cong)
next
  case (Some e)
  note e = lru_inv_item [OF inv Some]
  have look: "mget (lru_view c) k = Some (le_value (lru_heap c e), mget (expires c) k)"
    using lru_view_mget [OF inv, of k] Some by (simp only: option.case)
  show ?thesis
  proof (cases "spec_expired now (mget (expires c) k)")
    case True
    with Some look lru_view_Delete(1) [OF inv] show ?thesis
      by (simp add: lru_Get_def lru_read_cases spec_get_def)
  next
    case False
    with Some look e lru_view_move_back [OF inv e(1)] show ?thesis
      by (simp add: lru_Get_def lru_read_cases lru_get_touch_def spec_get_def)
  qed
qed

lemma lru_view_deadline:
  assumes "mget (items c) k = None" and "lru_inv c"
  shows "lru_view (lru_set_deadline t k d c) = lru_view c"
proof -
  have "le_key (lru_heap c e) \<noteq> k" if "e \<in> set (lru_list c)" for e
    using lru_inv_elem(1) [OF assms(2) that] assms(1) by auto
  then show ?thesis by (simp add: lru_view_def)
qed

lemma lru_view_push:
  assumes "lru_inv c" and "mget (items c) k = None"
  shows "lru_view (lru_push k v (lru_set_deadline t k d c)) =
    lru_view c @ [(k, v, if d > 0 then Some (fst t + d) else None)]"
proof -
  have "e \<noteq> lru_next c" if "e \<in> set (lru_list c)" for e
    using lru_inv_elem(2) [OF assms(1) that] by simp
  moreover have "le_key (lru_heap c e) \<noteq> k" if "e \<in> set (lru_list c)" for e
    using lru_inv_elem(1) [OF assms(1) that] assms(2) by auto
  moreover have "expires (lru_push k v b) = expires b" for b by (simp add: lru_push_def)
  ultimately show ?thesis
    by (simp add: lru_view_def) (auto simp: lru_push_def)
qed

lemma lru_set_insert_inv:
  assumes "lru_inv c" and "mget (items c) k = None"
  shows "lru_inv (lru_push k v (lru_set_deadline t k d c))"
proof -
  have "lru_inv (lru_set_deadline t k d c
      \<lparr>expires := mdel k (expires (lru_set_deadline t k d c))\<rparr>)"
    using lru_forget_inv [OF assms(1), of k] by (simp add: lru_set_deadline_def)
  then show ?thesis
    using assms lru_invD(3) [OF assms(1)] by (intro lru_push_inv) (auto simp: lru_set_deadline_def)
qed

lemma lru_view_Set:
  assumes inv: "lru_inv c"
  shows "lru_view (lru_SetWithExpiration t k val d c) = spec_set t (maxBytes c) k val d (lru_view c)"
proof (cases val)
  case None
  with inv show ?thesis
    by (simp add: lru_SetWithExpiration_def spec_set_def lru_view_Delete(1))
next
  case val: (Some v)
  let ?x = "(k, v, if d > 0 then Some (fst t + d) else None)"
  show ?thesis
  proof (cases "mget (items c) k")
    case None
    have "k \<notin> set (mkeys (lru_view c))"
      using lru_view_mget [OF inv, of k] None by (simp add: map_of_eq_None_iff cong: option.case_cong)
    moreover have "maxBytes (lru_push k v b) = maxBytes b" for b by (simp add: lru_push_def)
    ultimately show ?thesis
      using val None inv
      by (simp add: lru_set_insert spec_set_def lru_view_evict lru_set_insert_inv lru_view_push)
  next
    case (Some e)
    note e = lru_inv_item [OF inv Some]
    have "mget (lru_view c) k \<noteq> None"
      using lru_view_mget [OF inv, of k] Some by (simp only: option.case) simp
    then have k: "k \<in> set (mkeys (lru_view c))"
      by (simp add: map_of_eq_None_iff)
    let ?c = "lru_set_deadline t k d c"
    let ?c' = "?c\<lparr>usedBytes := usedBytes ?c + (Len v - Len (le_value (lru_heap ?c e))),
        lru_heap := (lru_heap ?c)(e := (lru_heap ?c e)\<lparr>le_value := v\<rparr>)\<rparr>"
    have "lru_inv ?c"
      using inv Some by (simp add: lru_set_deadline_def lru_forget_inv lru_set_expires_inv)
    from lru_overwrite_inv [OF this] e have inv': "lru_inv ?c'" by simp
    have "lru_SetWithExpiration t k (Some v) d c = ?c'\<lparr>lru_list := move_back e (lru_list ?c')\<rparr>"
      using Some by (simp add: lru_set_update Let_def)
    then have "lru_view (lru_SetWithExpiration t k (Some v) d c) = mdel k (lru_view ?c') @ [?x]"
      using lru_view_move_back [OF inv'] e by simp
    moreover have "mdel k (lru_view ?c') = mdel k (lru_view c)"
      using lru_inv_key_inj [OF inv _ e(1)] e
      by (auto simp: mdel_filter lru_view_def filter_map comp_def intro!: map_cong filter_cong)
    ultimately show ?thesis using val k by (simp add: spec_set_def)
  qed
qed

subsection \<open>Refinement of the whole interface\<close>

fun lru_spec_step :: "int \<Rightarrow> store_op \<Rightarrow> lru_spec \<Rightarrow> (store_out \<times> lru_spec) option" where
  "lru_spec_step mb (OpGet t k) xs = (let (v, xs') = spec_get (fst t) k xs in Some (OVal v (v \<noteq> None), xs'))"
| "lru_spec_step mb (OpSet t k v d) xs = Some (OUnit, spec_set t mb k v d xs)"
| "lru_spec_step mb (OpDelete k) xs = Some (OBool (k \<in> set (mkeys xs)), mdel k xs)"
| "lru_spec_step mb OpClear xs = Some (OUnit, [])"
| "lru_spec_step mb OpLen xs = Some (OLen (length xs), xs)"
| "lru_spec_step mb (OpTick now) xs = Some (OUnit, spec_evict now mb xs)"

lemma removeElement_config [simp]:
  "maxBytes (removeElement e c) = maxBytes c" "onEvicted (removeElement e c) = onEvicted c"
  by (simp_all add: removeElement_def Let_def)

lemma evict_expired_config [simp]:
  "maxBytes (evict_expired now es c) = maxBytes c \<and> onEvicted (evict_expired now es c) = onEvicted c"
  by (induction now es c rule: evict_expired.induct) (auto split: option.split)

lemma evict_memory_config [simp]:
  "maxBytes (evict_memory c) = maxBytes c \<and> onEvicted (evict_memory c) = onEvicted c"
proof (induction c rule: evict_memory.induct)
  case (1 c)
  then show ?case by (subst (1 2) evict_memory.simps) simp
qed

lemma lru_evict_config [simp]:
  "maxBytes (lru_evict now c) = maxBytes c" "onEvicted (lru_evict now c) = onEvicted c"
  by (simp_all add: lru_evict_def)

lemma lru_Set_config [simp]:
  "maxBytes (lru_SetWithExpiration t k val d c) = maxBytes c"
  by (auto simp: lru_SetWithExpiration_def lru_Delete_def Let_def split: option.split)

lemma lru_step_config:
  "lru_step x c = Some (out, c') \<Longrightarrow> maxBytes c' = maxBytes c \<and> onEvicted c' = onEvicted c"
  by (cases x)
    (auto simp: lru_Get_def lru_Delete_def lru_get_touch_def lru_SetWithExpiration_def lru_Clear_def
      lru_cleanup_def Let_def split: option.splits get_read.splits if_splits)

lemma lru_step_total: "\<exists>out c'. lru_step x c = Some (out, c')"
  by (cases x) (auto simp: Let_def split: prod.split)

lemma lru_step_inv [inv_intros]: "lru_inv c \<Longrightarrow> lru_step x c = Some (out, c') \<Longrightarrow> lru_inv c'"
  using lru_Get_inv lru_Delete_inv lru_SetWithExpiration_inv lru_Clear_inv lru_cleanup_inv
  by (cases x) (auto simp: Let_def split: prod.splits; metis snd_conv)+

lemma lru_view_Clear: "lru_view (lru_Clear c) = []"
  by (simp add: lru_view_def lru_Clear_def)

lemma lru_view_Len: "lru_Len c = length (lru_view c)"
  by (simp add: lru_view_def lru_Len_def)

lemma lru_step_refines:
  assumes "lru_inv c" and "lru_step x c = Some (out, c')"
  shows "lru_spec_step (maxBytes c) x (lru_view c) = Some (out, lru_view c')"
proof (cases x)
  case (OpGet t k)
  then show ?thesis using assms(2) lru_view_Get [OF assms(1), of "fst t" k]
    by (auto simp: Let_def split: prod.splits)
next
  case (OpDelete k)
  then show ?thesis using assms(2) lru_view_Delete [OF assms(1), of k]
    by (auto simp: Let_def split: prod.splits)
qed (use assms in \<open>auto simp: lru_view_Set lru_view_Clear lru_view_Len lru_cleanup_def lru_view_evict\<close>)

lemma lru_run_refines:
  "lru_inv c \<Longrightarrow> run_ops lru_step xs c = Some (outs, c') \<Longrightarrow>
   run_ops (lru_spec_step (maxBytes c)) xs (lru_view c) = Some (outs, lru_view c')"
proof (induction xs arbitrary: c outs)
  case (Cons x xs)
  obtain out c1 outs' where 1: "lru_step x c = Some (out, c1)"
      "run_ops lru_step xs c1 = Some (outs', c')" "outs = out # outs'"
    using Cons.prems(2) by (auto split: option.splits prod.splits)
  have "run_ops (lru_spec_step (maxBytes c1)) xs (lru_view c1) = Some (outs', lru_view c')"
    using Cons.IH [OF lru_step_inv [OF Cons.prems(1) 1(1)] 1(2)] .
  then show ?case
    using lru_step_refines [OF Cons.prems(1) 1(1)] lru_step_config [OF 1(1)] 1(3) by simp
qed simp

subsection \<open>The engine as a store\<close>

definition lru_held :: "lruCache \<Rightarrow> key \<Rightarrow> svalue set" where
  "lru_held c k = set_option (map_option fst (mget (lru_view c) k))"

lemma mget_filter_sub: "gomap_ok m \<Longrightarrow> mget (filter P m) k = Some v \<Longrightarrow> mget m k = Some v"
  using map_of_SomeD [of "filter P m" k v] by (auto intro: map_of_is_SomeI)

lemma spec_trim_suffix: "\<exists>n. spec_trim mb xs = drop n xs"
proof (induction xs)
  case (Cons x xs)
  then obtain n where "spec_trim mb xs = drop n xs" by blast
  then show ?case by (cases "mb > 0 \<and> spec_bytes (x # xs) > mb") (auto intro: exI [of _ "Suc n"] exI [of _ 0])
qed simp

lemma mget_drop: "gomap_ok m \<Longrightarrow> mget (drop n m) k = Some v \<Longrightarrow> mget m k = Some v"
  using map_of_SomeD [of "drop n m" k v] by (auto intro: map_of_is_SomeI dest: in_set_dropD)

lemma spec_evict_sub:
  assumes "gomap_ok xs" and "mget (spec_evict now mb xs) k = Some v"
  shows "mget xs k = Some v"
proof -
  obtain n where "spec_evict now mb xs = drop n (filter (\<lambda>(k, v, t). \<not> spec_expired now t) xs)"
    using spec_trim_suffix unfolding spec_evict_def by blast
  then show ?thesis
    using assms mget_drop mget_filter_sub distinct_map_filter by metis
qed

lemma lru_spec_step_held:
  assumes "gomap_ok xs" and "lru_spec_step mb x xs = Some (out, xs')"
  shows "set_option (map_option fst (mget xs' k)) \<subseteq> keeps_last x k (set_option (map_option fst (mget xs k)))"
proof (cases x)
  case (OpGet t k')
  then show ?thesis using assms(2)
    by (auto simp: spec_get_def map_add_def split: option.splits prod.splits if_splits)
next
  case (OpSet t k' val d)
  show ?thesis
  proof (cases val)
    case None
    then show ?thesis using OpSet assms(2) by (auto simp: spec_set_def)
  next
    case (Some v)
    show ?thesis
    proof (cases "k' \<in> set (mkeys xs)")
      case True
      then show ?thesis using OpSet Some assms(2)
        by (auto simp: spec_set_def map_add_def split: option.splits if_splits)
    next
      case False
      let ?xs = "xs @ [(k', v, if d > 0 then Some (fst t + d) else None)]"
      have "gomap_ok ?xs" using assms(1) False by simp
      moreover have "xs' = spec_evict (snd t) mb ?xs"
        using False OpSet Some assms(2) by (simp add: spec_set_def)
      ultimately have "mget xs' k = Some w \<Longrightarrow> mget ?xs k = Some w" for w
        using spec_evict_sub by blast
      then show ?thesis using OpSet Some False
        by (fastforce simp: map_add_def split: option.splits if_splits dest: mget_some_key)
    qed
  qed
next
  case (OpTick now)
  then show ?thesis using assms spec_evict_sub by fastforce
qed (use assms in auto)

interpretation lru: coherent_store lru_step lru_inv lru_held
proof
  fix s x
  assume "lru_inv s"
  then show "\<exists>out s'. lru_step x s = Some (out, s') \<and> lru_inv s'"
    using lru_step_total [of x s] lru_step_inv by blast
next
  fix s x out s' k
  assume "lru_inv s" and "lru_step x s = Some (out, s')"
  then have *: "lru_held s' k \<subseteq> keeps_last x k (lru_held s k)"
    unfolding lru_held_def using lru_spec_step_held lru_step_refines lru_view_ok by blast
  then show "lru_held s' k \<subseteq> keeps_last x k (lru_held s k)" .
  have "keeps_last x k H \<subseteq> keeps x k H" for H
    by (cases "(x, k, H)" rule: keeps_last.cases) auto
  with * show "lru_held s' k \<subseteq> keeps x k (lru_held s k)" by blast
next
  fix s t k v ok s'
  assume "lru_inv s" and "lru_step (OpGet t k) s = Some (OVal (Some v) ok, s')"
  then have "lru_spec_step (maxBytes s) (OpGet t k) (lru_view s) = Some (OVal (Some v) ok, lru_view s')"
    by (rule lru_step_refines)
  then show "v \<in> lru_held s k"
    by (auto simp: lru_held_def spec_get_def split: option.splits if_splits prod.splits)
qed

subsection \<open>Callbacks\<close>

text \<open>
  \<open>reported c c'\<close>: what left the list between two states is exactly what the callbacks
  made in between say, each of them made under the write lock.
\<close>

definition kv_pairs :: "lruCache \<Rightarrow> (key \<times> svalue option) multiset" where
  "kv_pairs c = image_mset (\<lambda>e. (le_key (lru_heap c e), Some (le_value (lru_heap c e)))) (mset (lru_list c))"

definition reported :: "lruCache \<Rightarrow> lruCache \<Rightarrow> bool" where
  "reported c c' \<longleftrightarrow> onEvicted c' = onEvicted c \<and>
     (\<exists>cbs. lru_log c' = lru_log c @ cbs \<and> (\<forall>cb \<in> set cbs. cb_locked cb) \<and>
        (if onEvicted c
         then kv_pairs c = kv_pairs c' + mset (map (\<lambda>cb. (cb_key cb, cb_value cb)) cbs)
         else cbs = []))"

lemma reported_refl [simp]: "reported c c"
  by (simp add: reported_def)

lemma reported_trans: "reported a b \<Longrightarrow> reported b c \<Longrightarrow> reported a c"
proof -
  assume "reported a b" and "reported b c"
  then obtain l1 l2 where
      1: "onEvicted b = onEvicted a" "lru_log b = lru_log a @ l1" "\<forall>cb \<in> set l1. cb_locked cb"
        "if onEvicted a then kv_pairs a = kv_pairs b + mset (map (\<lambda>cb. (cb_key cb, cb_value cb)) l1) else l1 = []"
      and 2: "onEvicted c = onEvicted b" "lru_log c = lru_log b @ l2" "\<forall>cb \<in> set l2. cb_locked cb"
        "if onEvicted b then kv_pairs b = kv_pairs c + mset (map (\<lambda>cb. (cb_key cb, cb_value cb)) l2) else l2 = []"
    unfolding reported_def by blast
  then show "reported a c"
    unfolding reported_def by (intro conjI exI [of _ "l1 @ l2"]) (auto simp: ac_simps split: if_splits)
qed

lemma reported_removeElement:
  assumes "e \<in> set (lru_list c)"
  shows "reported c (removeElement e c)"
  using assms insert_DiffM [of e "mset (lru_list c)"]
  by (auto simp: reported_def removeElement_def Let_def kv_pairs_def image_mset_Diff)

lemma reported_Delete: "lru_inv c \<Longrightarrow> reported c (snd (lru_Delete k c))"
  by (auto simp: lru_Delete_def reported_removeElement lru_inv_item split: option.split)

lemma reported_evict_expired: "lru_inv c \<Longrightarrow> reported c (evict_expired now es c)"
proof (induction now es c rule: evict_expired.induct)
  case (2 now k d es c)
  let ?c = "if now > d then (case mget (items c) k of Some e \<Rightarrow> removeElement e c | None \<Rightarrow> c) else c"
  have "lru_inv ?c" and "reported c ?c"
    using "2.prems" by (auto simp: removeElement_inv lru_inv_item reported_removeElement split: option.split)
  with "2.IH" show ?case by (auto intro: reported_trans)
qed simp

lemma reported_evict_memory: "lru_inv c \<Longrightarrow> reported c (evict_memory c)"
proof (induction c rule: evict_memory.induct)
  case (1 c)
  show ?case
  proof (cases "maxBytes c > 0 \<and> usedBytes c > maxBytes c \<and> lru_list c \<noteq> []")
    case True
    let ?c = "removeElement (hd (lru_list c)) c"
    have "reported c ?c" "lru_inv ?c"
      using True "1.prems" by (simp_all add: reported_removeElement removeElement_inv)
    then have "reported c (evict_memory ?c)" using "1.IH" True by (blast intro: reported_trans)
    with True show ?thesis by (subst evict_memory.simps) simp
  next
    case False
    then have "evict_memory c = c" by (subst evict_memory.simps) auto
    then show ?thesis by simp
  qed
qed

subsection \<open>Properties\<close>

text \<open>
  C2. The LRU engine implements its specification: whatever calls of the interface \<open>Store\<close>
  are made on a new engine, none panics, every answer is the specification's answer, and the
  list and the maps represent the specification's recency list at the end.
\<close>

theorem lru_implements_spec:
  "\<exists>outs c. run_ops lru_step xs (newLRUCache opts) = Some (outs, c) \<and> lru_inv c
     \<and> run_ops (lru_spec_step (MaxBytes opts)) xs [] = Some (outs, lru_view c)"
proof -
  obtain outs c where run: "run_ops lru_step xs (newLRUCache opts) = Some (outs, c)" and "lru_inv c"
    using lru.run_total [OF lru_inv_new] by blast
  moreover have "lru_view (newLRUCache opts) = []" "maxBytes (newLRUCache opts) = MaxBytes opts"
    by (simp_all add: lru_view_def newLRUCache_def)
  ultimately show ?thesis using lru_run_refines [OF lru_inv_new run] by auto
qed

lemma spec_bytes_trim: "mb > 0 \<Longrightarrow> spec_bytes (spec_trim mb xs) \<le> mb"
  by (induction xs) (auto simp: spec_bytes_def)

text \<open>
  C35. Whenever a new key is written, or the background cleanup runs, an engine with a limit
  ends within it: \<open>usedBytes\<close> is the total size of the entries and at most \<open>maxBytes\<close>.
\<close>

theorem lru_within_limit:
  assumes "lru_inv c" and "maxBytes c > 0"
    and "c' = lru_cleanup now c \<or>
      (c' = lru_SetWithExpiration t k (Some v) d c \<and> k \<notin> set (mkeys (lru_view c)))"
  shows "usedBytes c' = spec_bytes (lru_view c') \<and> usedBytes c' \<le> maxBytes c"
proof -
  have inv: "lru_inv c'" using assms(1,3) by (auto simp: inv_intros)
  have "\<exists>xs. lru_view c' = spec_trim (maxBytes c) xs"
    using assms(3)
  proof
    assume "c' = lru_cleanup now c"
    then show ?thesis
      using lru_view_evict [OF assms(1)] by (auto simp: lru_cleanup_def spec_evict_def)
  next
    assume *: "c' = lru_SetWithExpiration t k (Some v) d c \<and> k \<notin> set (mkeys (lru_view c))"
    then show ?thesis
      using lru_view_Set [OF assms(1), of t k "Some v" d] by (auto simp: spec_set_def spec_evict_def)
  qed
  then show ?thesis
    using spec_bytes_trim [OF assms(2)] lru_view_bytes [OF inv] by metis
qed

definition example_lru :: lruCache where
  "example_lru = lru_SetWithExpiration (0, 0) ''b'' (Some (Opaque 3)) 0
     (lru_SetWithExpiration (0, 0) ''a'' (Some (Opaque 3)) 0 (newLRUCache (NewOptions\<lparr>MaxBytes := 8\<rparr>)))"

lemma example_lru_inv: "lru_inv example_lru"
  by (simp add: example_lru_def inv_intros)

lemma spec_evict_id: "spec_bytes xs \<le> mb \<Longrightarrow> (\<And>k v t. (k, v, t) \<in> set xs \<Longrightarrow> t = None) \<Longrightarrow> spec_evict now mb xs = xs"
proof -
  assume "spec_bytes xs \<le> mb" and "\<And>k v t. (k, v, t) \<in> set xs \<Longrightarrow> t = None"
  moreover from this have "filter (\<lambda>(k, v, t). \<not> spec_expired now t) xs = xs"
    by (fastforce simp: filter_id_conv spec_expired_def)
  ultimately show ?thesis by (cases xs) (auto simp: spec_evict_def)
qed

lemma example_lru_view:
  "lru_view example_lru = [(''a'', Opaque 3, None), (''b'', Opaque 3, None)]"
  "maxBytes example_lru = 8" "items example_lru = [(''a'', 0), (''b'', 1)]"
  "lru_list example_lru = [0, 1]" "expires example_lru = []" "onEvicted example_lru = False"
  by (simp_all add: example_lru_def lru_SetWithExpiration_def newLRUCache_def NewOptions_def
      lru_evict_def evict_memory.simps lru_view_def)

theorem lru_within_limit_witness:
  "usedBytes (lru_SetWithExpiration (0, 0) ''c'' (Some (Opaque 7)) 0 example_lru) \<le> 8"
proof -
  have "maxBytes example_lru > 0" by (simp add: example_lru_view)
  from lru_within_limit [OF example_lru_inv this disjI2, of _ "(0, 0)" "''c''" "Opaque 7" 0]
  show ?thesis by (simp add: example_lru_view)
qed

text \<open>
  Eviction under memory pressure takes the least recently used entries and no more than
  needed: what remains is a suffix of the recency list, and every longer suffix is over the
  limit.
\<close>

theorem lru_evicts_oldest_first:
  assumes "lru_inv c" and "maxBytes c > 0"
  shows "\<exists>n \<le> length (lru_view c). lru_view (evict_memory c) = drop n (lru_view c)
     \<and> spec_bytes (drop n (lru_view c)) \<le> maxBytes c
     \<and> (\<forall>j < n. spec_bytes (drop j (lru_view c)) > maxBytes c)"
proof -
  have "\<exists>n \<le> length xs. spec_trim mb xs = drop n xs \<and> (\<forall>j < n. spec_bytes (drop j xs) > mb)"
    for mb and xs :: lru_spec
  proof (induction xs)
    case (Cons x xs)
    then obtain n where n: "n \<le> length xs" "spec_trim mb xs = drop n xs"
      "\<forall>j < n. spec_bytes (drop j xs) > mb" by blast
    show ?case
    proof (cases "mb > 0 \<and> spec_bytes (x # xs) > mb")
      case True
      with n have "\<forall>j < Suc n. spec_bytes (drop j (x # xs)) > mb"
        by (auto simp: drop_Cons split: nat.split)
      with n True show ?thesis by (intro exI [of _ "Suc n"]) auto
    next
      case False
      then show ?thesis by (intro exI [of _ 0]) auto
    qed
  qed simp
  then obtain n where "n \<le> length (lru_view c)" "lru_view (evict_memory c) = drop n (lru_view c)"
      "\<forall>j < n. spec_bytes (drop j (lru_view c)) > maxBytes c"
    using lru_view_evict_memory [OF assms(1)] by metis
  moreover from this have "spec_bytes (drop n (lru_view c)) \<le> maxBytes c"
    using spec_bytes_trim [OF assms(2)] lru_view_evict_memory [OF assms(1)] by metis
  ultimately show ?thesis by blast
qed

definition example_lru_over :: lruCache where
  "example_lru_over = lru_SetWithExpiration (0, 0) ''a'' (Some (Opaque 5)) 0 example_lru"

theorem lru_evicts_oldest_first_witness:
  "lru_view example_lru_over = [(''b'', Opaque 3, None), (''a'', Opaque 5, None)]
   \<and> lru_view (evict_memory example_lru_over) = [(''a'', Opaque 5, None)]"
proof -
  have v: "lru_view example_lru_over = [(''b'', Opaque 3, None), (''a'', Opaque 5, None)]"
    by (simp add: example_lru_over_def lru_view_Set [OF example_lru_inv] example_lru_view spec_set_def)
  have mb: "maxBytes example_lru_over = 8"
    by (simp add: example_lru_over_def lru_SetWithExpiration_def Let_def example_lru_view)
  have "lru_inv example_lru_over"
    by (simp add: example_lru_over_def inv_intros example_lru_inv)
  from lru_evicts_oldest_first [OF this] obtain n where n: "lru_view (evict_memory example_lru_over) = drop n (lru_view example_lru_over)"
      "spec_bytes (drop n (lru_view example_lru_over)) \<le> 8"
      "\<forall>j < n. spec_bytes (drop j (lru_view example_lru_over)) > 8"
    using mb by auto
  have "n \<noteq> 0"
  proof
    assume "n = 0"
    with n(2) show False by (simp add: v spec_bytes_def)
  qed
  moreover have "\<not> 1 < n"
  proof
    assume "1 < n"
    with n(3) have "spec_bytes (drop 1 (lru_view example_lru_over)) > 8" by blast
    then show False by (simp add: v spec_bytes_def)
  qed
  ultimately have "n = 1" by simp
  with n(1) v show ?thesis by simp
qed

text \<open>
  The order in which \<open>evict\<close> meets the keys of the map \<open>expires\<close> does not matter: for
  every order, the entries left are the same, in the same recency order.
\<close>

theorem lru_expiry_order_irrelevant:
  assumes "lru_inv c" and "mset es = mset (expires c)"
  shows "lru_view (evict_memory (evict_expired now es c)) = lru_view (lru_evict now c)"
proof -
  have "set es = set (expires c)" using assms(2) by (metis set_mset_mset)
  then have "lru_view (evict_expired now es c) = lru_view (evict_expired now (expires c) c)"
    using assms(1) by (simp add: lru_view_evict_expired)
  then show ?thesis
    using assms(1) by (simp add: lru_evict_def lru_view_evict_memory evict_expired_inv)
qed

definition example_lru_ttl :: lruCache where
  "example_lru_ttl = lru_SetWithExpiration (0, 0) ''a'' (Some (Opaque 1)) 5
     (lru_SetWithExpiration (0, 0) ''b'' (Some (Opaque 1)) 7 example_lru)"

theorem lru_expiry_order_irrelevant_witness:
  "lru_view (evict_memory (evict_expired 6 (rev (expires example_lru_ttl)) example_lru_ttl))
   = [(''b'', Opaque 1, Some 7)]"
proof -
  have inv: "lru_inv example_lru_ttl"
    by (simp add: example_lru_ttl_def inv_intros example_lru_inv)
  have "lru_view example_lru_ttl = [(''b'', Opaque 1, Some 7), (''a'', Opaque 1, Some 5)]"
    by (simp add: example_lru_ttl_def lru_view_Set inv_intros example_lru_inv example_lru_view spec_set_def)
  moreover have "maxBytes example_lru_ttl = 8"
    by (simp add: example_lru_ttl_def lru_SetWithExpiration_def Let_def example_lru_view)
  moreover have "mset (rev (expires example_lru_ttl)) = mset (expires example_lru_ttl)" by simp
  ultimately show ?thesis
    using lru_expiry_order_irrelevant [OF inv, of "rev (expires example_lru_ttl)" 6]
    by (simp add: lru_view_evict [OF inv] spec_evict_def spec_expired_def spec_bytes_def)
qed

lemma reported_touch: "lru_inv c \<Longrightarrow> reported c (lru_get_touch k e c)"
  by (auto simp: lru_get_touch_def reported_def kv_pairs_def move_back_def split: option.split)

lemma reported_Get: "lru_inv c \<Longrightarrow> reported c (snd (lru_Get now k c))"
  by (auto simp: lru_Get_def reported_touch reported_Delete split: get_read.split)

lemma reported_evict: "lru_inv c \<Longrightarrow> reported c (lru_evict now c)"
  by (simp add: lru_evict_def)
    (blast intro: reported_trans reported_evict_expired reported_evict_memory evict_expired_inv)

lemma reported_Clear:
  assumes inv: "lru_inv c"
  shows "reported c (lru_Clear c)"
proof -
  have eq: "snd ` set (items c) = set (lru_list c)"
  proof
    show "snd ` set (items c) \<subseteq> set (lru_list c)"
      using inv by (auto simp: lru_inv_def)
    show "set (lru_list c) \<subseteq> snd ` set (items c)"
    proof
      fix e assume "e \<in> set (lru_list c)"
      from map_of_SomeD [OF lru_inv_elem(1) [OF inv this]] show "e \<in> snd ` set (items c)" by force
    qed
  qed
  have inj: "inj_on snd (set (items c))"
  proof (rule inj_onI)
    fix x y assume "x \<in> set (items c)" and "y \<in> set (items c)" and "snd x = snd y"
    moreover from inv have "\<forall>(k, e) \<in> set (items c). le_key (lru_heap c e) = k"
      unfolding lru_inv_def by blast
    ultimately show "x = y" by (metis (mono_tags, lifting) case_prodD prod.collapse)
  qed
  have "mset (map snd (items c)) = mset (lru_list c)"
    using eq inj lru_invD(1,2) [OF inv]
    by (intro set_eq_iff_mset_eq_distinct [THEN iffD1]) (auto simp: distinct_map)
  then have "image_mset (\<lambda>e. (le_key (lru_heap c e), Some (le_value (lru_heap c e)))) (mset (lru_list c))
      = image_mset (\<lambda>x. (le_key (lru_heap c (snd x)), Some (le_value (lru_heap c (snd x))))) (mset (items c))"
    by (metis (no_types, lifting) comp_apply image_mset.compositionality image_mset_cong mset_map)
  then show ?thesis
    by (auto simp: reported_def lru_Clear_def kv_pairs_def comp_def case_prod_beta multiset.map_comp)
qed

text \<open>
  Every entry that \<open>Get\<close>, \<open>Delete\<close>, \<open>Clear\<close> or an eviction takes out of the cache is
  reported to \<open>OnEvicted\<close> exactly once with its key and value, and nothing else is: the
  entries before are the entries after plus the callbacks made.  Every one of these callbacks
  is made while the write lock is held.
\<close>

theorem lru_removals_reported:
  assumes "lru_inv c"
  shows "reported c (snd (lru_Get now k c)) \<and> reported c (snd (lru_Delete k c))
    \<and> reported c (lru_evict now c) \<and> reported c (lru_Clear c)"
  using assms by (simp add: reported_Get reported_Delete reported_evict reported_Clear)

theorem lru_removals_reported_witness: "reported example_lru (lru_Clear example_lru)"
  using lru_removals_reported [OF example_lru_inv] by blast

text \<open>
  The two lock sections of \<open>Get\<close> are not atomic together: when the read section saw an
  expired entry and another goroutine writes a fresh value before the second section runs,
  the second section deletes the fresh value.
\<close>

theorem lru_get_deletes_fresh_value:
  assumes "lru_inv c" and "lru_get_read now k c = GExpired"
  shows "mget (lru_view (lru_SetWithExpiration t k (Some v) d c)) k
           = Some (v, if d > 0 then Some (fst t + d) else None)
       \<and> mget (lru_view (snd (lru_Delete k (lru_SetWithExpiration t k (Some v) d c)))) k = None"
proof -
  have "mget (items c) k \<noteq> None"
    using assms(2) by (auto simp: lru_get_read_def split: option.splits)
  then have "mget (lru_view c) k \<noteq> None"
    using lru_view_mget [OF assms(1), of k] by (auto split: option.splits)
  then have "k \<in> set (mkeys (lru_view c))" by (simp add: map_of_eq_None_iff)
  then show ?thesis
    using assms(1) by (simp add: lru_view_Set lru_view_Delete(1) lru_SetWithExpiration_inv spec_set_def map_add_def)
qed

theorem lru_get_deletes_fresh_value_witness:
  "mget (lru_view (snd (lru_Delete ''a''
     (lru_SetWithExpiration (9, 9) ''a'' (Some (Opaque 2)) 100 example_lru_ttl)))) ''a'' = None"
proof -
  have inv: "lru_inv example_lru_ttl"
    by (simp add: example_lru_ttl_def inv_intros example_lru_inv)
  have "lru_get_read 9 ''a'' example_lru_ttl = GExpired"
    by (simp add: lru_get_read_def example_lru_ttl_def lru_SetWithExpiration_def Let_def example_lru_view)
  from lru_get_deletes_fresh_value [OF inv this, of "(9, 9)" "Opaque 2" 100] show ?thesis by blast
qed

text \<open>
  Overwriting an existing key triggers no eviction: an engine that held at most
  \<open>maxBytes\<close> can hold more after the call, and keeps doing so until a new key is added or
  the next cleanup round.
\<close>

theorem lru_update_exceeds_limit:
  "\<exists>c. lru_inv c \<and> maxBytes c > 0 \<and> usedBytes c \<le> maxBytes c
     \<and> usedBytes (lru_SetWithExpiration t ''a'' (Some (Opaque 5)) 0 c) > maxBytes c"
proof (intro exI conjI)
  show "lru_inv example_lru" by (rule example_lru_inv)
  show "maxBytes example_lru > 0" by (simp add: example_lru_view)
  have used: "usedBytes example_lru = 8"
    using lru_view_bytes [OF example_lru_inv] by (simp add: example_lru_view spec_bytes_def)
  then show "usedBytes example_lru \<le> maxBytes example_lru" by (simp add: example_lru_view)
  have "lru_heap example_lru 0 = \<lparr>le_key = ''a'', le_value = Opaque 3\<rparr>"
    by (simp add: example_lru_def lru_SetWithExpiration_def newLRUCache_def NewOptions_def
        lru_evict_def evict_memory.simps)
  then show "usedBytes (lru_SetWithExpiration t ''a'' (Some (Opaque 5)) 0 example_lru) > maxBytes example_lru"
    using used by (simp add: lru_SetWithExpiration_def Let_def example_lru_view)
qed

text \<open>
  C24. A hit never invents or revives a value: after any calls on a new engine, a \<open>Get\<close>
  answers with the last value set under its key, and only if no \<open>Delete\<close> or \<open>Clear\<close> came
  after that set.
\<close>

theorem lru_get_last_write:
  assumes "run_ops lru_step xs (newLRUCache opts) = Some (outs, c)"
    and "lru_Get now k c = (Some v, c')"
  shows "v \<in> fold (\<lambda>x. keeps_last x k) xs {}"
proof -
  have "lru_step (OpGet (now, now) k) c = Some (OVal (Some v) True, c')"
    using assms(2) by simp
  from lru.run_get_last [OF lru_inv_new assms(1) this] show ?thesis
    by (simp add: lru_held_def lru_view_def newLRUCache_def)
qed

theorem lru_get_last_write_witness:
  "\<exists>outs c c'. run_ops lru_step [OpSet (0, 0) ''a'' (Some (Opaque 1)) 0, OpSet (0, 0) ''a'' (Some (Opaque 2)) 0]
       (newLRUCache NewOptions) = Some (outs, c)
     \<and> lru_Get 0 ''a'' c = (Some (Opaque 2), c')
     \<and> Opaque 2 \<in> fold (\<lambda>x. keeps_last x ''a'')
         [OpSet (0, 0) ''a'' (Some (Opaque 1)) 0, OpSet (0, 0) ''a'' (Some (Opaque 2)) 0] {}"
proof -
  let ?xs = "[OpSet (0, 0) ''a'' (Some (Opaque 1)) 0, OpSet (0, 0) ''a'' (Some (Opaque 2)) 0]"
  obtain outs c where run: "run_ops lru_step ?xs (newLRUCache NewOptions) = Some (outs, c)"
    by simp
  then have get: "\<exists>c'. lru_Get 0 ''a'' c = (Some (Opaque 2), c')"
    by (auto simp: newLRUCache_def NewOptions_def lru_SetWithExpiration_def Let_def lru_evict_def
        evict_memory.simps lru_Get_def lru_get_read_def)
  then obtain c' where "lru_Get 0 ''a'' c = (Some (Opaque 2), c')" by blast
  with run lru_get_last_write [OF run this] show ?thesis by blast
qed

end
