(* ===== verification/Index_Ring.thy ===== *)
theory Index_Ring
  imports Reach_Prelude
begin

text \<open>
  Doubly linked rings through the sentinel 0, on a pair of link functions: \<open>T\<close> leads from a
  node to its successor, \<open>F\<close> back.  \<open>ring F T xs\<close> says that starting from 0 the nodes are
  visited in the order \<open>xs\<close> and the ring closes.  The two directions are symmetric, so the
  one parametrised routine of \<open>store/lru2.go\<close> is covered by one lemma.
\<close>

fun path_ok :: "(nat \<Rightarrow> nat) \<Rightarrow> (nat \<Rightarrow> nat) \<Rightarrow> nat list \<Rightarrow> bool" where
  "path_ok F T [] = True"
| "path_ok F T [a] = True"
| "path_ok F T (a # b # r) = (T a = b \<and> F b = a \<and> path_ok F T (b # r))"

definition ring :: "(nat \<Rightarrow> nat) \<Rightarrow> (nat \<Rightarrow> nat) \<Rightarrow> nat list \<Rightarrow> bool" where
  "ring F T xs \<longleftrightarrow> distinct (0 # xs) \<and> path_ok F T (0 # xs @ [0])"

lemma path_ok_join:
  "xs \<noteq> [] \<Longrightarrow> ys \<noteq> [] \<Longrightarrow> path_ok F T (xs @ ys) \<longleftrightarrow>
     path_ok F T xs \<and> path_ok F T ys \<and> T (last xs) = hd ys \<and> F (hd ys) = last xs"
proof (induction xs rule: path_ok.induct [of _ F T, case_names Nil One More])
  case (One F T a)
  then show ?case by (cases ys) auto
qed auto

lemma path_ok_cong:
  assumes "path_ok F T xs" and "\<And>x. x \<in> set (butlast xs) \<Longrightarrow> T' x = T x"
    and "\<And>x. x \<in> set (tl xs) \<Longrightarrow> F' x = F x"
  shows "path_ok F' T' xs"
  using assms
proof (induction F T xs rule: path_ok.induct)
  case (3 F T a b r)
  then show ?case by (cases r) auto
qed auto

lemma path_ok_rev: "path_ok T F (rev xs) \<longleftrightarrow> path_ok F T xs"
proof (induction F T xs rule: path_ok.induct)
  case (3 F T a b r)
  have "path_ok T F (rev (a # b # r)) \<longleftrightarrow> path_ok T F (rev (b # r)) \<and> F b = a \<and> T a = b"
    using path_ok_join [of "rev (b # r)" "[a]" T F] by (simp add: last_rev)
  with 3 show ?case by auto
qed auto

lemma ring_rev: "ring F T xs \<Longrightarrow> ring T F (rev xs)"
  using path_ok_rev [of T F "0 # xs @ [0]"] by (auto simp: ring_def)

lemma ring_distinct: "ring F T xs \<Longrightarrow> distinct xs \<and> 0 \<notin> set xs"
  by (simp add: ring_def)

lemma ring_Nil: "ring F T [] \<longleftrightarrow> T 0 = 0 \<and> F 0 = 0"
  by (simp add: ring_def)

lemma ring_first: "ring F T (x # xs) \<Longrightarrow> T 0 = x \<and> F x = 0"
  by (simp add: ring_def)

lemma ring_last:
  assumes "ring F T xs" and "xs \<noteq> []"
  shows "F 0 = last xs \<and> T (last xs) = 0"
  using assms path_ok_join [of "0 # xs" "[0]" F T] by (auto simp: ring_def)

lemma ring_empty_iff: "ring F T xs \<Longrightarrow> T 0 = 0 \<longleftrightarrow> xs = []"
  by (cases xs) (auto simp: ring_def)

lemma ring_first_iff:
  assumes "ring F T xs" and "i \<in> set xs"
  shows "F i = 0 \<longleftrightarrow> hd xs = i"
proof -
  obtain as bs where xs: "xs = as @ i # bs" using assms(2) by (auto simp: in_set_conv_decomp)
  show ?thesis
  proof (cases as rule: rev_cases)
    case Nil
    with xs assms(1) ring_first show ?thesis by fastforce
  next
    case (snoc as' a)
    have "F i = a"
      using assms(1) xs snoc path_ok_join [of "0 # as' @ [a]" "i # bs @ [0]" F T] by (simp add: ring_def)
    with assms(1) xs snoc show ?thesis by (cases as') (auto simp: ring_def)
  qed
qed

text \<open>The pointer writes of \<open>adjust\<close>, in its order.\<close>

definition relink :: "(nat \<Rightarrow> nat) \<Rightarrow> (nat \<Rightarrow> nat) \<Rightarrow> nat \<Rightarrow> (nat \<Rightarrow> nat) \<times> (nat \<Rightarrow> nat)" where
  "relink F T i =
     (let F1 = F(T i := F i);
          T1 = T(F1 i := T i);
          F2 = F1(i := 0);
          T2 = T1(i := T1 0);
          F3 = F2(T2 0 := i);
          T3 = T2(0 := i)
      in (F3, T3))"

lemma ring_relink:
  assumes r: "ring F T xs" and i: "i \<in> set xs" and "F i \<noteq> 0"
  shows "ring (fst (relink F T i)) (snd (relink F T i)) (move_front i xs)"
proof -
  obtain as bs where xs: "xs = as @ i # bs" using i by (auto simp: in_set_conv_decomp)
  have "as \<noteq> []" using ring_first_iff [OF r i] \<open>F i \<noteq> 0\<close> xs by auto
  then obtain h as' where as: "as = h # as'" by (cases as) auto
  define a where "a = last as"
  define b where "b = hd (bs @ [0])"
  have d: "distinct (0 # as @ i # bs)" using r xs by (simp add: ring_def)
  have "path_ok F T (0 # as) \<and> path_ok F T (i # bs @ [0]) \<and> T a = i \<and> F i = a"
    using r xs path_ok_join [of "0 # as" "i # bs @ [0]" F T] \<open>as \<noteq> []\<close> by (simp add: ring_def a_def)
  moreover have "path_ok F T (i # bs @ [0]) \<longleftrightarrow> path_ok F T (bs @ [0]) \<and> T i = b \<and> F b = i"
    using path_ok_join [of "[i]" "bs @ [0]" F T] by (auto simp: b_def)
  ultimately have p: "path_ok F T (0 # as)" "path_ok F T (bs @ [0])" "T a = i" "F i = a" "T i = b" "F b = i"
    by auto
  have h: "T 0 = h" "F h = 0" "path_ok F T as" using p(1) as by auto
  have a: "a \<in> set as" using \<open>as \<noteq> []\<close> by (simp add: a_def)
  have b: "b = 0 \<or> b \<in> set bs" by (cases bs) (auto simp: b_def)
  have ne: "i \<noteq> b" "a \<noteq> 0" "a \<noteq> i" "h \<noteq> i" "h \<noteq> 0" "h \<noteq> b" "i \<noteq> 0" using a b d as by auto
  have rl: "relink F T i = (F(b := a, i := 0, h := i), T(a := b, i := h, 0 := i))"
    using p ne h by (simp add: relink_def Let_def fun_upd_twist)
  let ?F = "F(b := a, i := 0, h := i)" and ?T = "T(a := b, i := h, 0 := i)"
  have "path_ok ?F ?T as"
  proof (rule path_ok_cong [OF h(3)])
    fix x assume x: "x \<in> set (butlast as)"
    have "distinct (butlast as @ [a])" using d \<open>as \<noteq> []\<close> by (simp add: a_def)
    then have "x \<noteq> a" using x by auto
    then show "?T x = T x" using in_set_butlastD [OF x] d by auto
  next
    fix x assume "x \<in> set (tl as)"
    then show "?F x = F x" using d as b by auto
  qed
  moreover have "path_ok ?F ?T (bs @ [0])"
  proof (rule path_ok_cong [OF p(2)])
    fix x assume "x \<in> set (butlast (bs @ [0]))"
    then show "?T x = T x" using d a by auto
  next
    fix x assume "x \<in> set (tl (bs @ [0]))"
    then show "?F x = F x" using d as by (cases bs) (auto simp: b_def)
  qed
  moreover have "?T a = b" "?F b = a" "?T i = h" "?F h = i" "?T 0 = i" "?F i = 0"
    using ne by auto
  ultimately have "path_ok ?F ?T (0 # i # as @ bs @ [0])"
    using path_ok_join [of as "bs @ [0]" ?F ?T] path_ok_join [of "[0, i]" "as @ bs @ [0]" ?F ?T] \<open>as \<noteq> []\<close> as
    by (simp add: a_def b_def)
  moreover have "move_front i xs = i # as @ bs"
    using d xs by (simp add: move_front_def remove1_append)
  ultimately show ?thesis using d by (simp add: ring_def rl)
qed

text \<open>Linking a new node in front.\<close>

lemma ring_push:
  assumes r: "ring F T xs" and i: "i \<noteq> 0" "i \<notin> set xs"
  shows "ring (F(T 0 := i, i := 0)) (T(i := T 0, 0 := i)) (i # xs)"
proof -
  let ?F = "F(T 0 := i, i := 0)" and ?T = "T(i := T 0, 0 := i)"
  have p: "path_ok F T (xs @ [0])" and h: "T 0 = hd (xs @ [0])" "F (T 0) = 0"
    using r path_ok_join [of "[0]" "xs @ [0]" F T] by (auto simp: ring_def)
  have d: "distinct (0 # xs)" using r by (simp add: ring_def)
  have "path_ok ?F ?T (xs @ [0])"
  proof (rule path_ok_cong [OF p])
    fix x assume "x \<in> set (butlast (xs @ [0]))"
    then show "?T x = T x" using d i by auto
  next
    fix x assume "x \<in> set (tl (xs @ [0]))"
    then show "?F x = F x" using d i h by (cases xs) auto
  qed
  moreover have "T 0 \<noteq> i" using h i by (cases xs) auto
  ultimately have "path_ok ?F ?T (0 # i # xs @ [0])"
    using path_ok_join [of "[0, i]" "xs @ [0]" ?F ?T] i h by simp
  with d i show ?thesis by (simp add: ring_def)
qed

end
