(* ===== verification/Lru2_Level.thy ===== *)
theory Lru2_Level
  imports Store_Api Index_Ring
begin

text \<open>
  \<open>store/lru2.go\<close>, the struct \<open>cache\<close>: one level of a bucket, a ring of indices into a
  preallocated array.  Indices are \<open>uint16\<close>: they are naturals below 65536 and the
  arithmetic on them wraps.  Every access to \<open>dlnk\<close> and \<open>m\<close> is checked; \<open>None\<close> is the
  panic of an index out of range.
\<close>

subsection \<open>State\<close>

record node =
  nd_k :: key
  nd_v :: "svalue option"
  nd_expireAt :: int

record cache =
  dlnk :: "(nat \<times> nat) list"
  c_m :: "node list"
  hmap :: "(key, nat) gomap"
  c_last :: nat

text \<open>The column indices \<open>p\<close> (predecessor) and \<open>n\<close> (successor).\<close>

definition col_p :: nat where "col_p = 0"
definition col_n :: nat where "col_n = 1"

definition u16 :: "nat \<Rightarrow> nat" where "u16 x = x mod 65536"

definition u16_pred :: "nat \<Rightarrow> nat" where "u16_pred x = (x + 65535) mod 65536"

text \<open>\<open>cap + 1\<close> is \<open>uint16\<close> arithmetic.\<close>

definition Create :: "16 word \<Rightarrow> cache" where
  "Create cap =
     \<lparr>dlnk = replicate (unat (cap + 1)) (0, 0),
      c_m = replicate (unat cap) \<lparr>nd_k = [], nd_v = None, nd_expireAt = 0\<rparr>,
      hmap = [], c_last = 0\<rparr>"

subsection \<open>Checked accesses\<close>

definition dget :: "(nat \<times> nat) list \<Rightarrow> nat \<Rightarrow> nat \<Rightarrow> nat option" where
  "dget dl i d = do { q \<leftarrow> rd dl i; if d = 0 then Some (fst q) else if d = 1 then Some (snd q) else None }"

definition dset :: "(nat \<times> nat) list \<Rightarrow> nat \<Rightarrow> nat \<Rightarrow> nat \<Rightarrow> (nat \<times> nat) list option" where
  "dset dl i d x =
     do { q \<leftarrow> rd dl i;
          if d = 0 then wr dl i (x, snd q) else if d = 1 then wr dl i (fst q, x) else None }"

subsection \<open>Operations\<close>

definition adjust :: "cache \<Rightarrow> nat \<Rightarrow> nat \<Rightarrow> nat \<Rightarrow> cache option" where
  "adjust c idx f t =
     do { from \<leftarrow> dget (dlnk c) idx f;
          if from \<noteq> 0 then
            do { a \<leftarrow> dget (dlnk c) idx t;
                 b \<leftarrow> dget (dlnk c) idx f;
                 d1 \<leftarrow> dset (dlnk c) a f b;
                 a \<leftarrow> dget d1 idx f;
                 b \<leftarrow> dget d1 idx t;
                 d2 \<leftarrow> dset d1 a t b;
                 d3 \<leftarrow> dset d2 idx f 0;
                 h \<leftarrow> dget d3 0 t;
                 d4 \<leftarrow> dset d3 idx t h;
                 h \<leftarrow> dget d4 0 t;
                 d5 \<leftarrow> dset d4 h f idx;
                 d6 \<leftarrow> dset d5 0 t idx;
                 Some (c\<lparr>dlnk := d6\<rparr>) }
          else Some c }"

text \<open>The result of \<open>put\<close>: (1 new, 0 update), and what was evicted.\<close>

type_synonym put_result = "nat \<times> key \<times> svalue option \<times> bool"

definition put :: "key \<Rightarrow> svalue option \<Rightarrow> int \<Rightarrow> cache \<Rightarrow> (put_result \<times> cache) option" where
  "put k val expireAt c =
     (case mget (hmap c) k of
        Some idx \<Rightarrow>
          do { nd \<leftarrow> rd (c_m c) (u16_pred idx);
               m' \<leftarrow> wr (c_m c) (u16_pred idx) (nd\<lparr>nd_v := val, nd_expireAt := expireAt\<rparr>);
               c \<leftarrow> adjust (c\<lparr>c_m := m'\<rparr>) idx col_p col_n;
               Some ((0, [], None, False), c) }
      | None \<Rightarrow>
          if c_last c = u16 (length (c_m c)) then
            do { ti \<leftarrow> dget (dlnk c) 0 col_p;
                 tail \<leftarrow> rd (c_m c) (u16_pred ti);
                 let evicted = nd_expireAt tail > 0;
                 let evictedKey = nd_k tail;
                 let evictedValue = nd_v tail;
                 let h = mdel (nd_k tail) (hmap c);
                 m' \<leftarrow> wr (c_m c) (u16_pred ti) (\<lparr>nd_k = k, nd_v = val, nd_expireAt = expireAt\<rparr>);
                 c \<leftarrow> adjust (c\<lparr>hmap := mput k ti h, c_m := m'\<rparr>) ti col_p col_n;
                 Some ((1, evictedKey, evictedValue, evicted), c) }
          else
            do { let l = u16 (c_last c + 1);
                 d1 \<leftarrow> (if hmap c = [] then dset (dlnk c) 0 col_p l
                        else do { h \<leftarrow> dget (dlnk c) 0 col_n; dset (dlnk c) h col_p l });
                 m' \<leftarrow> wr (c_m c) (u16_pred l) (\<lparr>nd_k = k, nd_v = val, nd_expireAt = expireAt\<rparr>);
                 h \<leftarrow> dget d1 0 col_n;
                 d2 \<leftarrow> wr d1 l (0, h);
                 d3 \<leftarrow> dset d2 0 col_n l;
                 Some ((1, [], None, False),
                       c\<lparr>c_last := l, c_m := m', dlnk := d3, hmap := mput k l (hmap c)\<rparr>) })"

definition get_node :: "key \<Rightarrow> cache \<Rightarrow> (node option \<times> cache) option" where
  "get_node k c =
     (case mget (hmap c) k of
        Some idx \<Rightarrow>
          do { c \<leftarrow> adjust c idx col_p col_n;
               nd \<leftarrow> rd (c_m c) (u16_pred idx);
               Some (Some nd, c) }
      | None \<Rightarrow> Some (None, c))"

text \<open>
  \<open>del\<close> marks the node with \<open>expireAt = 0\<close> and moves it to the tail; the result is the
  marked node and the deadline it had.
\<close>

definition del :: "key \<Rightarrow> cache \<Rightarrow> ((node \<times> int) option \<times> cache) option" where
  "del k c =
     (case mget (hmap c) k of
        Some idx \<Rightarrow>
          do { nd \<leftarrow> rd (c_m c) (u16_pred idx);
               if nd_expireAt nd > 0 then
                 do { let e = nd_expireAt nd;
                      m' \<leftarrow> wr (c_m c) (u16_pred idx) (nd\<lparr>nd_expireAt := 0\<rparr>);
                      c \<leftarrow> adjust (c\<lparr>c_m := m'\<rparr>) idx col_n col_p;
                      nd \<leftarrow> rd (c_m c) (u16_pred idx);
                      Some (Some (nd, e), c) }
               else Some (None, c) }
      | None \<Rightarrow> Some (None, c))"

text \<open>
  \<open>walk\<close>: the loop over the ring, with the state \<open>s\<close> the walker's closure updates and the
  bool it returns.  The fuel is one more than the number of links, which
  \<open>walk_enough_fuel\<close> shows is enough.
\<close>

type_synonym 's walker = "key \<Rightarrow> svalue option \<Rightarrow> int \<Rightarrow> 's \<Rightarrow> bool \<times> 's"

fun walk_from :: "nat \<Rightarrow> 's walker \<Rightarrow> nat \<Rightarrow> cache \<Rightarrow> 's \<Rightarrow> 's option" where
  "walk_from 0 w idx c s = None"
| "walk_from (Suc fuel) w idx c s =
     (if idx = 0 then Some s
      else do { nd \<leftarrow> rd (c_m c) (u16_pred idx);
                if nd_expireAt nd > 0 then
                  (case w (nd_k nd) (nd_v nd) (nd_expireAt nd) s of (go, s') \<Rightarrow>
                     if go then do { nx \<leftarrow> dget (dlnk c) idx col_n; walk_from fuel w nx c s' }
                     else Some s')
                else do { nx \<leftarrow> dget (dlnk c) idx col_n; walk_from fuel w nx c s } })"

definition walk :: "'s walker \<Rightarrow> cache \<Rightarrow> 's \<Rightarrow> 's option" where
  "walk w c s =
     do { idx \<leftarrow> dget (dlnk c) 0 col_n; walk_from (length (dlnk c) + 1) w idx c s }"

subsection \<open>Link reads and writes as function updates\<close>

definition lk :: "(nat \<times> nat) list \<Rightarrow> nat \<Rightarrow> nat \<Rightarrow> nat" where
  "lk dl d i = (if d = 0 then fst (dl ! i) else snd (dl ! i))"

definition lset :: "(nat \<times> nat) list \<Rightarrow> nat \<Rightarrow> nat \<Rightarrow> nat \<Rightarrow> (nat \<times> nat) list" where
  "lset dl i d x = dl[i := if d = 0 then (x, snd (dl ! i)) else (fst (dl ! i), x)]"

lemma length_lset [simp]: "length (lset dl i d x) = length dl"
  by (simp add: lset_def)

lemma dget_lk [simp]: "i < length dl \<Longrightarrow> d < 2 \<Longrightarrow> dget dl i d = Some (lk dl d i)"
  by (auto simp: dget_def lk_def)

lemma dset_lset [simp]: "i < length dl \<Longrightarrow> d < 2 \<Longrightarrow> dset dl i d x = Some (lset dl i d x)"
  by (auto simp: dset_def lset_def)

lemma lk_lset_same [simp]: "i < length dl \<Longrightarrow> d < 2 \<Longrightarrow> lk (lset dl i d x) d = (lk dl d)(i := x)"
  by (auto simp: lk_def lset_def nth_list_update)

lemma lk_lset_other [simp]:
  "i < length dl \<Longrightarrow> d < 2 \<Longrightarrow> d' < 2 \<Longrightarrow> d \<noteq> d' \<Longrightarrow> lk (lset dl i d x) d' = lk dl d'"
  by (auto simp: lk_def lset_def nth_list_update fun_eq_iff)

lemma ring_closed:
  assumes r: "ring F T xs" and i: "i \<in> insert 0 (set xs)"
  shows "T i \<in> insert 0 (set xs) \<and> F i \<in> insert 0 (set xs)"
proof (cases "i = 0")
  case True
  then show ?thesis
  proof (cases xs)
    case Nil
    with r True show ?thesis by (simp add: ring_Nil)
  next
    case (Cons x ys)
    then have "F 0 = last xs" "last xs \<in> set xs" "T 0 \<in> set xs"
      using ring_last [OF r] ring_first [of F T x ys] r by auto
    with True show ?thesis by simp
  qed
next
  case False
  then obtain as bs where xs: "xs = as @ i # bs" using i by (auto simp: in_set_conv_decomp)
  have "T i = hd (bs @ [0]) \<and> F i = last (0 # as)"
    using r xs path_ok_join [of "0 # as" "i # bs @ [0]" F T] path_ok_join [of "[i]" "bs @ [0]" F T]
    by (simp add: ring_def)
  moreover have "hd (bs @ [0]) \<in> insert 0 (set bs)" by (cases bs) auto
  moreover have "last (0 # as) \<in> insert 0 (set as)" by (cases as rule: rev_cases) auto
  ultimately show ?thesis using xs by auto
qed

lemma adjust_front:
  assumes r: "ring (lk (dlnk c) f) (lk (dlnk c) t) xs" and i: "i \<in> set xs"
    and b: "\<And>x. x \<in> insert 0 (set xs) \<Longrightarrow> x < length (dlnk c)"
    and ft: "f < 2" "t < 2" "f \<noteq> t"
  shows "\<exists>d'. adjust c i f t = Some (c\<lparr>dlnk := d'\<rparr>) \<and> length d' = length (dlnk c)
    \<and> ring (lk d' f) (lk d' t) (move_front i xs)"
proof (cases "lk (dlnk c) f i = 0")
  case True
  then have "hd xs = i" using ring_first_iff [OF r i] by simp
  then have "move_front i xs = xs" using i by (cases xs) (auto simp: move_front_def)
  moreover have "adjust c i f t = Some (c\<lparr>dlnk := dlnk c\<rparr>)"
    using True ft i by (simp add: adjust_def b)
  ultimately show ?thesis using r by (intro exI [of _ "dlnk c"]) simp
next
  case False
  let ?F = "lk (dlnk c) f" and ?T = "lk (dlnk c) t"
  let ?T1 = "?T((?F(?T i := ?F i)) i := ?T i)"
  have bi: "i < length (dlnk c)" and b0: "0 < length (dlnk c)" using b i by auto
  have bT: "?T i < length (dlnk c)" and bF: "?F i < length (dlnk c)" and bh: "?T 0 < length (dlnk c)"
    using ring_closed [OF r] i b by blast+
  have bF1: "(?F(?T i := ?F i)) i < length (dlnk c)" using bF by simp
  have b1: "?T1 0 < length (dlnk c)" using bT bh by simp
  have ne: "i \<noteq> 0" using ring_distinct [OF r] i by metis
  have "adjust c i f t = Some (c\<lparr>dlnk :=
      lset (lset (lset (lset (lset (lset (dlnk c) (?T i) f (?F i))
        ((?F(?T i := ?F i)) i) t (?T i)) i f 0) i t (?T1 0))
        ((?T1(i := ?T1 0)) 0) f i) 0 t i\<rparr>)" (is "_ = Some (c\<lparr>dlnk := ?d\<rparr>)")
    using False ft bi b0 bT bF bh bF1 b1 ne by (simp add: adjust_def split del: if_split)
  moreover have "lk ?d f = fst (relink ?F ?T i) \<and> lk ?d t = snd (relink ?F ?T i)"
    using ft bi b0 bT bF bh bF1 b1 ne by (simp add: relink_def Let_def split del: if_split)
  moreover have "length ?d = length (dlnk c)" by simp
  ultimately show ?thesis using ring_relink [OF r i False] by metis
qed

lemma adjust_back:
  assumes r: "ring (lk (dlnk c) t) (lk (dlnk c) f) xs" and i: "i \<in> set xs"
    and b: "\<And>x. x \<in> insert 0 (set xs) \<Longrightarrow> x < length (dlnk c)"
    and ft: "f < 2" "t < 2" "f \<noteq> t"
  shows "\<exists>d'. adjust c i f t = Some (c\<lparr>dlnk := d'\<rparr>) \<and> length d' = length (dlnk c)
    \<and> ring (lk d' t) (lk d' f) (move_back i xs)"
proof -
  obtain d' where d': "adjust c i f t = Some (c\<lparr>dlnk := d'\<rparr>)" "length d' = length (dlnk c)"
      "ring (lk d' f) (lk d' t) (move_front i (rev xs))"
    using adjust_front [OF ring_rev [OF r], of i] i b ft by auto
  have "distinct xs" using r by (simp add: ring_def)
  then have "rev (move_front i (rev xs)) = move_back i xs"
    using i by (simp add: move_front_def move_back_def remove1_filter rev_filter)
  with ring_rev [OF d'(3)] d'(1,2) show ?thesis by auto
qed

subsection \<open>Representation\<close>

text \<open>
  \<open>level_inv cap c xs\<close>: the ring visits the allocated indices \<open>1..last\<close> in the order \<open>xs\<close>
  from head to tail, and \<open>hmap\<close> maps the key stored at an index to that index.
  \<open>level_rep cap c ns\<close>: \<open>c\<close> represents the nodes \<open>ns\<close>, most recent first.
\<close>

definition level_inv :: "nat \<Rightarrow> cache \<Rightarrow> nat list \<Rightarrow> bool" where
  "level_inv cap c xs \<longleftrightarrow>
     length (c_m c) = cap \<and> length (dlnk c) = Suc cap \<and> 0 < cap \<and> cap < 65535 \<and>
     ring (lk (dlnk c) col_p) (lk (dlnk c) col_n) xs \<and>
     set xs = {1..c_last c} \<and> c_last c \<le> cap \<and> gomap_ok (hmap c) \<and>
     (\<forall>k i. mget (hmap c) k = Some i \<longleftrightarrow> i \<in> set xs \<and> nd_k (c_m c ! (i - 1)) = k)"

definition level_nodes :: "cache \<Rightarrow> nat list \<Rightarrow> node list" where
  "level_nodes c xs = map (\<lambda>i. c_m c ! (i - 1)) xs"

definition level_rep :: "nat \<Rightarrow> cache \<Rightarrow> node list \<Rightarrow> bool" where
  "level_rep cap c ns \<longleftrightarrow> (\<exists>xs. level_inv cap c xs \<and> ns = level_nodes c xs)"

text \<open>The operations on the recency list of nodes.\<close>

definition node_at :: "key \<Rightarrow> node list \<Rightarrow> node option" where
  "node_at k ns = find (\<lambda>nd. nd_k nd = k) ns"

definition without :: "key \<Rightarrow> node list \<Rightarrow> node list" where
  "without k ns = filter (\<lambda>nd. nd_k nd \<noteq> k) ns"

definition spec_put :: "nat \<Rightarrow> key \<Rightarrow> svalue option \<Rightarrow> int \<Rightarrow> node list \<Rightarrow> put_result \<times> node list" where
  "spec_put cap k v e ns =
     (let new = \<lparr>nd_k = k, nd_v = v, nd_expireAt = e\<rparr> in
      if node_at k ns \<noteq> None then ((0, [], None, False), new # without k ns)
      else if length ns = cap then
        ((1, nd_k (last ns), nd_v (last ns), nd_expireAt (last ns) > 0), new # butlast ns)
      else ((1, [], None, False), new # ns))"

definition spec_get_node :: "key \<Rightarrow> node list \<Rightarrow> node option \<times> node list" where
  "spec_get_node k ns =
     (case node_at k ns of None \<Rightarrow> (None, ns) | Some nd \<Rightarrow> (Some nd, nd # without k ns))"

definition spec_del :: "key \<Rightarrow> node list \<Rightarrow> (node \<times> int) option \<times> node list" where
  "spec_del k ns =
     (case node_at k ns of
        None \<Rightarrow> (None, ns)
      | Some nd \<Rightarrow>
          if nd_expireAt nd > 0
          then (Some (nd\<lparr>nd_expireAt := 0\<rparr>, nd_expireAt nd), without k ns @ [nd\<lparr>nd_expireAt := 0\<rparr>])
          else (None, ns))"

lemma node_at_Some:
  assumes "distinct (map nd_k ns)"
  shows "node_at k ns = Some nd \<longleftrightarrow> nd \<in> set ns \<and> nd_k nd = k"
  using assms by (induction ns) (auto simp: node_at_def)

lemma node_at_None: "node_at k ns = None \<longleftrightarrow> k \<notin> nd_k ` set ns"
  by (induction ns) (auto simp: node_at_def)

lemma without_absent: "k \<notin> nd_k ` set ns \<Longrightarrow> without k ns = ns"
  by (auto simp: without_def filter_id_conv)

text \<open>Consequences of the invariant.\<close>

lemma level_invD:
  assumes "level_inv cap c xs"
  shows "length (c_m c) = cap" "length (dlnk c) = Suc cap" "0 < cap" "cap < 65535"
    "ring (lk (dlnk c) col_p) (lk (dlnk c) col_n) xs" "set xs = {1..c_last c}" "c_last c \<le> cap"
    "gomap_ok (hmap c)" "distinct xs" "length xs = c_last c"
proof -
  show 1: "length (c_m c) = cap" "length (dlnk c) = Suc cap" "0 < cap" "cap < 65535"
    "ring (lk (dlnk c) col_p) (lk (dlnk c) col_n) xs" "set xs = {1..c_last c}" "c_last c \<le> cap"
    "gomap_ok (hmap c)"
    using assms by (auto simp: level_inv_def)
  show "distinct xs" using 1(5) by (simp add: ring_def)
  then show "length xs = c_last c" using 1(6) distinct_card [of xs] by simp
qed

lemma level_invI:
  assumes "length (c_m c) = cap" "length (dlnk c) = Suc cap" "0 < cap" "cap < 65535"
    "ring (lk (dlnk c) col_p) (lk (dlnk c) col_n) xs" "set xs = {1..c_last c}" "c_last c \<le> cap"
    "gomap_ok (hmap c)"
    "\<And>k i. mget (hmap c) k = Some i \<longleftrightarrow> i \<in> set xs \<and> nd_k (c_m c ! (i - 1)) = k"
  shows "level_inv cap c xs"
  unfolding level_inv_def using assms(1-8) by (intro conjI allI assms(9))

lemma level_hmap:
  assumes "level_inv cap c xs"
  shows "mget (hmap c) k = Some i \<longleftrightarrow> i \<in> set xs \<and> nd_k (c_m c ! (i - 1)) = k"
  using assms unfolding level_inv_def by blast

lemma level_bounds:
  assumes "level_inv cap c xs" and "i \<in> insert 0 (set xs)"
  shows "i < length (dlnk c)"
  using level_invD [OF assms(1)] assms(2) by auto

lemma u16_pred_Suc: "0 < i \<Longrightarrow> i \<le> 65535 \<Longrightarrow> u16_pred i = i - 1"
  by (cases i) (simp_all add: u16_pred_def)

lemma level_index:
  assumes "level_inv cap c xs" and "i \<in> set xs"
  shows "i < length (dlnk c)" "u16_pred i = i - 1" "i - 1 < length (c_m c)" "i \<noteq> 0"
  using level_invD [OF assms(1)] assms(2) by (auto simp: u16_pred_Suc)

lemma level_key_inj:
  assumes "level_inv cap c xs" and "i \<in> set xs" and "j \<in> set xs"
  shows "nd_k (c_m c ! (i - 1)) = nd_k (c_m c ! (j - 1)) \<longleftrightarrow> i = j"
  using level_hmap [OF assms(1)] assms(2,3) by (metis option.inject)

lemma level_nodes_keys:
  assumes "level_inv cap c xs"
  shows "distinct (map nd_k (level_nodes c xs))"
  using level_invD(9) [OF assms] level_key_inj [OF assms]
  by (auto simp: level_nodes_def distinct_map inj_on_def comp_def)

lemma level_node_at:
  assumes "level_inv cap c xs"
  shows "node_at k (level_nodes c xs) = map_option (\<lambda>i. c_m c ! (i - 1)) (mget (hmap c) k)"
proof (cases "mget (hmap c) k")
  case None
  then have "k \<notin> nd_k ` set (level_nodes c xs)"
    using level_hmap [OF assms, of k] by (auto simp: level_nodes_def)
  with None show ?thesis using node_at_None by (metis option.map_disc_iff)
next
  case (Some i)
  then have "i \<in> set xs \<and> nd_k (c_m c ! (i - 1)) = k" using level_hmap [OF assms] by blast
  then have "node_at k (level_nodes c xs) = Some (c_m c ! (i - 1))"
    using node_at_Some [OF level_nodes_keys [OF assms]] by (auto simp: level_nodes_def)
  with Some show ?thesis by simp
qed

lemma level_without:
  assumes "level_inv cap c xs" and "i \<in> set xs"
  shows "without (nd_k (c_m c ! (i - 1))) (level_nodes c xs) = level_nodes c (remove1 i xs)"
proof -
  have "remove1 i xs = filter (\<lambda>j. nd_k (c_m c ! (j - 1)) \<noteq> nd_k (c_m c ! (i - 1))) xs"
    using level_key_inj [OF assms(1) _ assms(2)] level_invD(9) [OF assms(1)]
    by (auto simp: remove1_filter intro!: filter_cong)
  then show ?thesis by (simp add: without_def level_nodes_def filter_map comp_def)
qed

text \<open>Rewriting the node at an index without changing its key.\<close>

lemma level_inv_write:
  assumes inv: "level_inv cap c xs" and i: "i \<in> set xs" and k: "nd_k nd = nd_k (c_m c ! (i - 1))"
  shows "level_inv cap (c\<lparr>c_m := (c_m c)[i - 1 := nd]\<rparr>) xs"
proof -
  have "nd_k ((c_m c)[i - 1 := nd] ! (j - 1)) = nd_k (c_m c ! (j - 1))" for j
    using k by (cases "i - 1 < length (c_m c)") (auto simp: nth_list_update list_update_beyond)
  with inv show ?thesis by (simp add: level_inv_def)
qed

lemma level_nodes_write:
  assumes inv: "level_inv cap c xs" and "i \<in> set xs"
  shows "level_nodes (c\<lparr>c_m := (c_m c)[i - 1 := nd]\<rparr>) (remove1 i xs) = level_nodes c (remove1 i xs)"
proof -
  have "(c_m c)[i - 1 := nd] ! (j - 1) = c_m c ! (j - 1)" if "j \<in> set (remove1 i xs)" for j
  proof (rule nth_list_update_neq)
    show "i - 1 \<noteq> j - 1"
      using that assms(2) level_invD(9) [OF inv] level_index(4) [OF inv, of j] level_index(4) [OF inv, of i]
      by auto
  qed
  then show ?thesis by (auto simp: level_nodes_def)
qed

text \<open>Moving a node to either end.\<close>

lemma level_front:
  assumes inv: "level_inv cap c xs" and i: "i \<in> set xs"
  shows "\<exists>c'. adjust c i col_p col_n = Some c' \<and> level_inv cap c' (move_front i xs) \<and> c_m c' = c_m c \<and> hmap c' = hmap c"
proof -
  obtain d' where d': "adjust c i col_p col_n = Some (c\<lparr>dlnk := d'\<rparr>)" "length d' = length (dlnk c)"
      "ring (lk d' col_p) (lk d' col_n) (move_front i xs)"
    using adjust_front [OF level_invD(5) [OF inv] i level_bounds [OF inv]]
    by (auto simp: col_p_def col_n_def)
  then have "level_inv cap (c\<lparr>dlnk := d'\<rparr>) (move_front i xs)"
    using inv by (auto simp: level_inv_def)
  with d'(1) show ?thesis by auto
qed

lemma level_back:
  assumes inv: "level_inv cap c xs" and i: "i \<in> set xs"
  shows "\<exists>c'. adjust c i col_n col_p = Some c' \<and> level_inv cap c' (move_back i xs) \<and> c_m c' = c_m c \<and> hmap c' = hmap c"
proof -
  obtain d' where d': "adjust c i col_n col_p = Some (c\<lparr>dlnk := d'\<rparr>)" "length d' = length (dlnk c)"
      "ring (lk d' col_p) (lk d' col_n) (move_back i xs)"
    using adjust_back [OF level_invD(5) [OF inv] i level_bounds [OF inv]]
    by (auto simp: col_p_def col_n_def)
  then have "level_inv cap (c\<lparr>dlnk := d'\<rparr>) (move_back i xs)"
    using inv by (auto simp: level_inv_def)
  with d'(1) show ?thesis by auto
qed

subsection \<open>The operations implement those on the recency list\<close>

lemma level_nodes_cong: "c_m c' = c_m c \<Longrightarrow> level_nodes c' xs = level_nodes c xs"
  by (simp add: level_nodes_def)

lemma level_nodes_front:
  "i \<in> set xs \<Longrightarrow> level_nodes c (move_front i xs) = c_m c ! (i - 1) # level_nodes c (remove1 i xs)"
  by (simp add: level_nodes_def move_front_def)

lemma level_nodes_back:
  "i \<in> set xs \<Longrightarrow> level_nodes c (move_back i xs) = level_nodes c (remove1 i xs) @ [c_m c ! (i - 1)]"
  by (simp add: level_nodes_def move_back_def)

lemma level_put_update:
  assumes inv: "level_inv cap c xs" and k: "mget (hmap c) k = Some i"
  shows "\<exists>c' xs'. put k v e c = Some ((0, [], None, False), c') \<and> level_inv cap c' xs'
    \<and> level_nodes c' xs' = \<lparr>nd_k = k, nd_v = v, nd_expireAt = e\<rparr> # without k (level_nodes c xs)"
proof -
  let ?nd = "\<lparr>nd_k = k, nd_v = v, nd_expireAt = e\<rparr>"
  have i: "i \<in> set xs" "nd_k (c_m c ! (i - 1)) = k" using k level_hmap [OF inv] by blast+
  note b = level_index [OF inv i(1)]
  let ?c = "c\<lparr>c_m := (c_m c)[i - 1 := ?nd]\<rparr>"
  have inv1: "level_inv cap ?c xs" using level_inv_write [OF inv i(1)] i(2) by simp
  obtain c' where c': "adjust ?c i col_p col_n = Some c'" "level_inv cap c' (move_front i xs)"
      "c_m c' = c_m ?c"
    using level_front [OF inv1 i(1)] by blast
  have "(c_m c ! (i - 1))\<lparr>nd_v := v, nd_expireAt := e\<rparr> = ?nd" using i(2) by simp
  then have "put k v e c = Some ((0, [], None, False), c')"
    using k b c'(1) by (simp add: put_def)
  moreover have "level_nodes c' (move_front i xs) = ?nd # without k (level_nodes c xs)"
    using level_nodes_cong [OF c'(3)] level_nodes_front [OF i(1), of ?c] b
      level_nodes_write [OF inv i(1)] level_without [OF inv i(1)] i(2) by simp
  ultimately show ?thesis using c'(2) by blast
qed

lemma level_put_full:
  assumes inv: "level_inv cap c xs" and k: "mget (hmap c) k = None" and full: "c_last c = cap"
  shows "\<exists>c' xs'. put k v e c =
      Some ((1, nd_k (last (level_nodes c xs)), nd_v (last (level_nodes c xs)),
             nd_expireAt (last (level_nodes c xs)) > 0), c')
    \<and> level_inv cap c' xs'
    \<and> level_nodes c' xs' = \<lparr>nd_k = k, nd_v = v, nd_expireAt = e\<rparr> # butlast (level_nodes c xs)"
proof -
  let ?nd = "\<lparr>nd_k = k, nd_v = v, nd_expireAt = e\<rparr>"
  note d = level_invD [OF inv]
  have "xs \<noteq> []" using d(3,10) full by auto
  define ti where "ti = last xs"
  have i: "ti \<in> set xs" using \<open>xs \<noteq> []\<close> by (simp add: ti_def)
  note b = level_index [OF inv i]
  have ti: "dget (dlnk c) 0 col_p = Some ti"
    using ring_last [OF d(5) \<open>xs \<noteq> []\<close>] d(2) by (simp add: ti_def col_p_def)
  have tail: "c_m c ! (ti - 1) = last (level_nodes c xs)"
    using \<open>xs \<noteq> []\<close> by (simp add: level_nodes_def last_map ti_def)
  let ?t = "c_m c ! (ti - 1)"
  let ?c = "c\<lparr>hmap := mput k ti (mdel (nd_k ?t) (hmap c)), c_m := (c_m c)[ti - 1 := ?nd]\<rparr>"
  have notk: "j \<in> set xs \<Longrightarrow> nd_k (c_m c ! (j - 1)) \<noteq> k" for j
    using k level_hmap [OF inv, of k j] by auto
  have wr: "j \<in> set xs \<Longrightarrow> (c_m c)[ti - 1 := ?nd] ! (j - 1) = (if j = ti then ?nd else c_m c ! (j - 1))" for j
    using b level_index [OF inv, of j] by (auto simp: nth_list_update eq_diff_iff)
  have "mget (hmap ?c) k' = Some j \<longleftrightarrow> j \<in> set xs \<and> nd_k (c_m ?c ! (j - 1)) = k'" for k' j
    using level_hmap [OF inv, of k' j] level_key_inj [OF inv _ i, of j] notk [of j] wr [of j] i by auto
  then have inv1: "level_inv cap ?c xs"
    using d unfolding level_inv_def by simp
  obtain c' where c': "adjust ?c ti col_p col_n = Some c'" "level_inv cap c' (move_front ti xs)"
      "c_m c' = c_m ?c"
    using level_front [OF inv1 i] by blast
  have "c_last c = u16 (length (c_m c))" using d(1,4) full by (simp add: u16_def)
  then have put: "put k v e c = Some ((1, nd_k ?t, nd_v ?t, nd_expireAt ?t > 0), c')"
    using k ti b c'(1) by (simp add: put_def Let_def)
  have "remove1 ti xs = butlast xs"
    using d(9) \<open>xs \<noteq> []\<close> remove1_append [of ti "butlast xs" "[ti]"] append_butlast_last_id [of xs]
    by (metis distinct_butlast not_distinct_conv_prefix remove1.simps(2) append_Nil2 ti_def)
  moreover have "level_nodes c' (move_front ti xs) = level_nodes ?c (move_front ti xs)"
    using c'(3) by (rule level_nodes_cong)
  moreover have "\<dots> = ?nd # level_nodes ?c (remove1 ti xs)"
    using level_nodes_front [OF i, of ?c] b by simp
  moreover have "level_nodes ?c (remove1 ti xs) = level_nodes c (remove1 ti xs)"
    using level_nodes_write [OF inv i] by (simp add: level_nodes_def)
  moreover have "level_nodes c (butlast xs) = butlast (level_nodes c xs)"
    by (simp add: level_nodes_def map_butlast)
  ultimately have nodes: "level_nodes c' (move_front ti xs) = ?nd # butlast (level_nodes c xs)"
    by simp
  with put c'(2) tail show ?thesis by metis
qed

lemma lk_write_pair:
  "i < length dl \<Longrightarrow> lk (dl[i := (a, b)]) col_p = (lk dl col_p)(i := a)"
  "i < length dl \<Longrightarrow> lk (dl[i := (a, b)]) col_n = (lk dl col_n)(i := b)"
  by (auto simp: lk_def col_p_def col_n_def nth_list_update fun_eq_iff)

lemma level_put_new:
  assumes inv: "level_inv cap c xs" and k: "mget (hmap c) k = None" and room: "c_last c < cap"
  shows "\<exists>c' xs'. put k v e c = Some ((1, [], None, False), c') \<and> level_inv cap c' xs'
    \<and> level_nodes c' xs' = \<lparr>nd_k = k, nd_v = v, nd_expireAt = e\<rparr> # level_nodes c xs"
proof -
  let ?nd = "\<lparr>nd_k = k, nd_v = v, nd_expireAt = e\<rparr>"
  note d = level_invD [OF inv]
  define l where "l = Suc (c_last c)"
  let ?P = "lk (dlnk c) col_p" and ?N = "lk (dlnk c) col_n"
  have cols: "col_p < 2" "col_n < 2" "col_p \<noteq> col_n" by (simp_all add: col_p_def col_n_def)
  have l: "u16 (c_last c + 1) = l" "u16_pred l = c_last c" "l < length (dlnk c)" "c_last c < length (c_m c)"
    "l \<noteq> 0" "l \<notin> set xs"
    using d room by (auto simp: l_def u16_def u16_pred_Suc)
  have empty: "hmap c = [] \<longleftrightarrow> xs = []"
  proof
    assume "hmap c = []"
    with level_hmap [OF inv] show "xs = []" by (cases xs) auto
  next
    assume "xs = []"
    with level_hmap [OF inv] have "mget (hmap c) k' = None" for k' by (cases "mget (hmap c) k'") auto
    then have "dom (mget (hmap c)) = {}" by (simp add: dom_def)
    then show "hmap c = []" by (simp add: mget_dom)
  qed
  have h: "?N 0 < length (dlnk c)" using ring_closed [OF d(5)] level_bounds [OF inv] by blast
  have b0: "0 < length (dlnk c)" using d(2) by simp
  let ?d1 = "lset (dlnk c) (?N 0) col_p l"
  let ?d3 = "lset (?d1[l := (0, ?N 0)]) 0 col_n l"
  have d1: "(if hmap c = [] then dset (dlnk c) 0 col_p l
      else do { h \<leftarrow> dget (dlnk c) 0 col_n; dset (dlnk c) h col_p l }) = Some ?d1"
    using empty ring_empty_iff [OF d(5)] h b0 cols by auto
  have h1: "dget ?d1 0 col_n = Some (?N 0)" using h b0 cols by simp
  let ?c' = "c\<lparr>c_last := l, c_m := (c_m c)[c_last c := ?nd], dlnk := ?d3, hmap := mput k l (hmap c)\<rparr>"
  have "c_last c \<noteq> u16 (length (c_m c))" using d(1,4) room by (simp add: u16_def)
  then have put: "put k v e c = Some ((1, [], None, False), ?c')"
    using k d1 h1 l b0 cols by (simp add: put_def Let_def)
  have "lk ?d3 col_p = ?P(?N 0 := l, l := 0)" "lk ?d3 col_n = ?N(l := ?N 0, 0 := l)"
    using l h b0 cols by (simp_all add: lk_write_pair)
  then have ring': "ring (lk ?d3 col_p) (lk ?d3 col_n) (l # xs)"
    using ring_push [OF d(5) l(5,6)] by simp
  have nd: "(c_m c)[c_last c := ?nd] ! (j - 1) = (if j = l then ?nd else c_m c ! (j - 1))"
    if "j \<in> insert l (set xs)" for j
    using that d(6) l(4) by (auto simp: l_def nth_list_update)
  have hm: "mget (hmap ?c') k' = Some j \<longleftrightarrow> j \<in> set (l # xs) \<and> nd_k (c_m ?c' ! (j - 1)) = k'" for k' j
  proof (cases "j = l")
    case True
    then show ?thesis using level_hmap [OF inv, of k' l] nd [of l] l(6) by auto
  next
    case False
    then show ?thesis
      using level_hmap [OF inv, of k' j] level_hmap [OF inv, of k j] k nd [of j]
      by (cases "j \<in> set xs") auto
  qed
  have "set (l # xs) = {1..l}" using d(6) by (auto simp: l_def)
  then have inv': "level_inv cap ?c' (l # xs)"
    using d ring' room by (intro level_invI [OF _ _ _ _ _ _ _ _ hm]) (simp_all add: l_def)
  have "level_nodes ?c' (l # xs) = ?nd # level_nodes c xs"
    using nd l(6) by (auto simp: level_nodes_def)
  with put inv' show ?thesis by blast
qed

lemma level_put:
  assumes "level_rep cap c ns"
  shows "\<exists>c'. put k v e c = Some (fst (spec_put cap k v e ns), c')
    \<and> level_rep cap c' (snd (spec_put cap k v e ns))"
proof -
  obtain xs where inv: "level_inv cap c xs" and ns: "ns = level_nodes c xs"
    using assms by (auto simp: level_rep_def)
  have len: "length ns = c_last c" using level_invD(10) [OF inv] by (simp add: ns level_nodes_def)
  show ?thesis
  proof (cases "mget (hmap c) k")
    case (Some i)
    then have "node_at k ns \<noteq> None" using level_node_at [OF inv, of k] by (simp add: ns)
    then show ?thesis
      using level_put_update [OF inv Some, of v e] unfolding level_rep_def ns
      by (simp add: spec_put_def) metis
  next
    case None
    then have "node_at k ns = None"
      using level_node_at [OF inv, of k] unfolding ns by (metis option.map_disc_iff)
    then show ?thesis
      using level_put_full [OF inv None, of v e] level_put_new [OF inv None, of v e]
        level_invD(7) [OF inv] len unfolding level_rep_def ns
      by (cases "c_last c = cap") (simp_all add: spec_put_def Let_def, metis+)
  qed
qed

lemma level_get_node:
  assumes "level_rep cap c ns"
  shows "\<exists>c'. get_node k c = Some (fst (spec_get_node k ns), c')
    \<and> level_rep cap c' (snd (spec_get_node k ns))"
proof -
  obtain xs where inv: "level_inv cap c xs" and ns: "ns = level_nodes c xs"
    using assms by (auto simp: level_rep_def)
  show ?thesis
  proof (cases "mget (hmap c) k")
    case None
    then have "node_at k ns = None"
      using level_node_at [OF inv, of k] unfolding ns by (metis option.map_disc_iff)
    with None show ?thesis using assms
      by (simp add: get_node_def spec_get_node_def cong: option.case_cong)
  next
    case (Some i)
    then have i: "i \<in> set xs" "nd_k (c_m c ! (i - 1)) = k" using level_hmap [OF inv] by blast+
    obtain c' where c': "adjust c i col_p col_n = Some c'" "level_inv cap c' (move_front i xs)"
        "c_m c' = c_m c"
      using level_front [OF inv i(1)] by blast
    have "get_node k c = Some (Some (c_m c ! (i - 1)), c')"
      using Some c' level_index [OF inv i(1)] by (simp add: get_node_def)
    moreover have "spec_get_node k ns = (Some (c_m c ! (i - 1)), level_nodes c' (move_front i xs))"
      using level_node_at [OF inv, of k] Some level_without [OF inv i(1)] i level_nodes_cong [OF c'(3)]
      by (simp add: spec_get_node_def ns level_nodes_front)
    ultimately show ?thesis using c'(2) unfolding level_rep_def by auto
  qed
qed

lemma level_del:
  assumes "level_rep cap c ns"
  shows "\<exists>c'. del k c = Some (fst (spec_del k ns), c') \<and> level_rep cap c' (snd (spec_del k ns))"
proof -
  obtain xs where inv: "level_inv cap c xs" and ns: "ns = level_nodes c xs"
    using assms by (auto simp: level_rep_def)
  show ?thesis
  proof (cases "mget (hmap c) k")
    case None
    then have "node_at k ns = None"
      using level_node_at [OF inv, of k] unfolding ns by (metis option.map_disc_iff)
    with None show ?thesis using assms by (simp add: del_def spec_del_def cong: option.case_cong)
  next
    case (Some i)
    then have i: "i \<in> set xs" "nd_k (c_m c ! (i - 1)) = k" using level_hmap [OF inv] by blast+
    note b = level_index [OF inv i(1)]
    let ?nd = "c_m c ! (i - 1)"
    have at: "node_at k ns = Some ?nd" using level_node_at [OF inv, of k] Some by (simp add: ns)
    show ?thesis
    proof (cases "nd_expireAt ?nd > 0")
      case False
      then show ?thesis using Some at b assms by (simp add: del_def spec_del_def)
    next
      case True
      let ?z = "?nd\<lparr>nd_expireAt := 0\<rparr>"
      let ?c = "c\<lparr>c_m := (c_m c)[i - 1 := ?z]\<rparr>"
      have inv1: "level_inv cap ?c xs" using level_inv_write [OF inv i(1)] by simp
      obtain c' where c': "adjust ?c i col_n col_p = Some c'" "level_inv cap c' (move_back i xs)"
          "c_m c' = c_m ?c"
        using level_back [OF inv1 i(1)] by blast
      have "del k c = Some (Some (?z, nd_expireAt ?nd), c')"
        using Some True b c' by (simp add: del_def Let_def)
      moreover have "level_nodes c' (move_back i xs) = level_nodes ?c (move_back i xs)"
        by (rule level_nodes_cong [OF c'(3)])
      moreover have "\<dots> = level_nodes ?c (remove1 i xs) @ [c_m ?c ! (i - 1)]"
        by (rule level_nodes_back [OF i(1)])
      moreover have "level_nodes ?c (remove1 i xs) = level_nodes c (remove1 i xs)"
        by (rule level_nodes_write [OF inv i(1)])
      moreover have "level_nodes c (remove1 i xs) = without k ns"
        using level_without [OF inv i(1)] i(2) ns by simp
      ultimately have "del k c = Some (fst (spec_del k ns), c')"
          "level_nodes c' (move_back i xs) = snd (spec_del k ns)"
        using at True b by (simp_all add: spec_del_def)
      with c'(2) show ?thesis unfolding level_rep_def by metis
    qed
  qed
qed

fun walk_list :: "'s walker \<Rightarrow> node list \<Rightarrow> 's \<Rightarrow> 's" where
  "walk_list w [] s = s"
| "walk_list w (nd # ns) s =
     (if nd_expireAt nd > 0 then
        (case w (nd_k nd) (nd_v nd) (nd_expireAt nd) s of (go, s') \<Rightarrow>
           if go then walk_list w ns s' else s')
      else walk_list w ns s)"

lemma walk_from_suffix:
  assumes inv: "level_inv cap c (as @ bs)" and "length bs < fuel"
  shows "walk_from fuel w (hd (bs @ [0])) c s = Some (walk_list w (level_nodes c bs) s)"
  using assms
proof (induction bs arbitrary: as fuel s)
  case Nil
  then show ?case by (cases fuel) (auto simp: level_nodes_def)
next
  case (Cons i bs)
  obtain fuel' where fuel: "fuel = Suc fuel'" "length bs < fuel'" using Cons.prems(2) by (cases fuel) auto
  have inv': "level_inv cap c ((as @ [i]) @ bs)" using Cons.prems(1) by simp
  note IH = Cons.IH [OF inv' fuel(2)]
  note b = level_index [OF Cons.prems(1), of i]
  have "path_ok (lk (dlnk c) col_p) (lk (dlnk c) col_n) ((0 # as @ [i]) @ (bs @ [0]))"
    using level_invD(5) [OF inv'] by (simp add: ring_def)
  then have "lk (dlnk c) col_n i = hd (bs @ [0])"
    using path_ok_join [of "0 # as @ [i]" "bs @ [0]"] by simp
  then have "dget (dlnk c) i col_n = Some (hd (bs @ [0]))"
    using b by (simp add: col_n_def)
  then show ?case
    using b IH by (auto simp: fuel level_nodes_def split: prod.split)
qed

text \<open>The fuel of \<open>walk\<close> is enough, and the walk is the one over the recency list.\<close>

lemma walk_enough_fuel:
  assumes "level_rep cap c ns"
  shows "walk w c s = Some (walk_list w ns s)"
proof -
  obtain xs where inv: "level_inv cap c xs" and ns: "ns = level_nodes c xs"
    using assms by (auto simp: level_rep_def)
  note d = level_invD [OF inv]
  have "lk (dlnk c) col_n 0 = hd (xs @ [0])"
    using d(5) path_ok_join [of "[0]" "xs @ [0]"] by (simp add: ring_def)
  then have "dget (dlnk c) 0 col_n = Some (hd (xs @ [0]))"
    using d(2) by (simp add: col_n_def)
  moreover have "length xs < length (dlnk c) + 1" using d(2,7,10) by simp
  ultimately show ?thesis
    using walk_from_suffix [of cap c "[]" xs "length (dlnk c) + 1" w s] inv by (simp add: walk_def ns)
qed

text \<open>A new level is well formed unless \<open>cap + 1\<close> wraps.\<close>

lemma level_Create:
  assumes "0 < unat cap" and "unat cap < 65535"
  shows "level_rep (unat cap) (Create cap) []"
proof -
  have "unat (cap + 1) = Suc (unat cap)"
    using assms(2) by (subst unat_add_lem [THEN iffD1]) auto
  then have "level_inv (unat cap) (Create cap) []"
    using assms by (auto simp: level_inv_def Create_def ring_Nil lk_def)
  then show ?thesis unfolding level_rep_def by (intro exI [of _ "[]"]) (simp add: level_nodes_def)
qed

lemma level_repD:
  assumes "level_rep cap c ns"
  shows "distinct (map nd_k ns)" "length ns \<le> cap" "0 < cap"
  using assms level_nodes_keys level_invD
  by (fastforce simp: level_rep_def level_nodes_def)+

end
