(* ===== verification/Lru2.thy ===== *)
theory Lru2
  imports Lru2_Level
begin

unbundle bit_operations_syntax

text \<open>
  \<open>store/lru2.go\<close>, the type \<open>lru2Store\<close>: buckets of two levels, the key hash, the bucket
  mask, the global clock and the operations of the interface \<open>Store\<close>.  Every operation
  below that works on one bucket is one section under that bucket's lock; the eviction
  callback is made after the lock is released, which the log records.
\<close>

subsection \<open>Clock\<close>

text \<open>
  The variable \<open>clock\<close> is what \<open>Now\<close> reads.  The goroutine of \<open>init\<close> stores the wall clock
  and then adds 100 ms nine times, once per 100 ms of sleep.
\<close>

definition max_int64 :: int where "max_int64 = 2 ^ 63 - 1"

definition millisecond :: int where "millisecond = 1000000"

datatype clock_event = Calibrate int | Tick100

primrec clock_step :: "clock_event \<Rightarrow> int \<Rightarrow> int" where
  "clock_step (Calibrate wall) clock = wall"
| "clock_step Tick100 clock = clock + 100 * millisecond"

definition clock_round :: "int \<Rightarrow> clock_event list" where
  "clock_round wall = Calibrate wall # replicate 9 Tick100"

subsection \<open>Hash and mask\<close>

definition hashBKRD :: "string \<Rightarrow> 32 word" where
  "hashBKRD s = foldl (\<lambda>h ch. h * 131 + of_nat (of_char ch)) 0 s"

definition maskOfNextPowOf2 :: "16 word \<Rightarrow> 16 word" where
  "maskOfNextPowOf2 cap =
     (if cap > 0 \<and> cap AND (cap - 1) = 0 then cap - 1
      else
        let cap = cap OR drop_bit 1 cap;
            cap = cap OR drop_bit 2 cap;
            cap = cap OR drop_bit 4 cap
        in cap OR drop_bit 8 cap)"

subsection \<open>State\<close>

record lru2Store =
  caches :: "(cache \<times> cache) list"
  s_mask :: "32 word"
  s_onEvicted :: bool
  s_closed :: bool
  s_log :: "callback list"

definition lru2_options :: "Options \<Rightarrow> Options" where
  "lru2_options opts =
     (let opts = (if BucketCount opts = 0 then opts\<lparr>BucketCount := 16\<rparr> else opts);
          opts = (if CapPerBucket opts = 0 then opts\<lparr>CapPerBucket := 1024\<rparr> else opts);
          opts = (if Level2Cap opts = 0 then opts\<lparr>Level2Cap := 1024\<rparr> else opts)
      in (if CleanupInterval opts \<le> 0 then opts\<lparr>CleanupInterval := minute\<rparr> else opts))"

text \<open>\<open>mask + 1\<close> is \<open>uint16\<close> arithmetic.\<close>

definition newLRU2Cache :: "Options \<Rightarrow> lru2Store" where
  "newLRU2Cache opts0 =
     (let opts = lru2_options opts0;
          mask = maskOfNextPowOf2 (BucketCount opts)
      in \<lparr>caches = replicate (unat (mask + 1)) (Create (CapPerBucket opts), Create (Level2Cap opts)),
          s_mask = ucast mask, s_onEvicted = OnEvicted opts, s_closed = False, s_log = []\<rparr>)"

subsection \<open>Operations\<close>

definition bucket_of :: "key \<Rightarrow> lru2Store \<Rightarrow> nat" where
  "bucket_of k s = unat (hashBKRD k AND s_mask s)"

text \<open>A callback, made after the bucket's lock is released.\<close>

definition notify :: "bool \<Rightarrow> key \<Rightarrow> svalue option \<Rightarrow> lru2Store \<Rightarrow> lru2Store" where
  "notify need k v s =
     (if need \<and> s_onEvicted s
      then s\<lparr>s_log := s_log s @ [Callback k v False]\<rparr>
      else s)"

text \<open>\<open>delete\<close>: both levels of one bucket; the value is L1's if there is one, else L2's.\<close>

definition lru2_delete :: "key \<Rightarrow> cache \<times> cache \<Rightarrow> ((bool \<times> svalue option) \<times> (cache \<times> cache)) option" where
  "lru2_delete k b =
     do { (n1, c1) \<leftarrow> del k (fst b);
          (n2, c2) \<leftarrow> del k (snd b);
          let deleted = n1 \<noteq> None \<or> n2 \<noteq> None;
          let evictedValue =
            (case n1 of
               Some (nd, _) \<Rightarrow> (case nd_v nd of Some v \<Rightarrow> Some v | None \<Rightarrow>
                 (case n2 of Some (nd2, _) \<Rightarrow> nd_v nd2 | None \<Rightarrow> None))
             | None \<Rightarrow> (case n2 of Some (nd2, _) \<Rightarrow> nd_v nd2 | None \<Rightarrow> None));
          Some ((deleted, evictedValue), (c1, c2)) }"

text \<open>\<open>_get\<close> on level 2; \<open>now\<close> is its own reading of the clock.\<close>

definition lru2_get_level :: "int \<Rightarrow> key \<Rightarrow> cache \<Rightarrow> (node option \<times> cache) option" where
  "lru2_get_level now k c =
     do { (r, c) \<leftarrow> get_node k c;
          (case r of
             None \<Rightarrow> Some (None, c)
           | Some nd \<Rightarrow>
               if nd_expireAt nd \<le> 0 \<or> now \<ge> nd_expireAt nd then Some (None, c) else Some (Some nd, c)) }"

text \<open>
  The section of \<open>Get\<close> under the bucket's lock: the answer, the callback to make after the
  lock is released (key, value), and the bucket.
\<close>

type_synonym pending = "(key \<times> svalue option) option"

definition lru2_get_bucket ::
    "clk \<Rightarrow> key \<Rightarrow> cache \<times> cache \<Rightarrow> ((svalue option \<times> bool) \<times> pending \<times> (cache \<times> cache)) option" where
  "lru2_get_bucket t k b =
     do { (n1, c1) \<leftarrow> del k (fst b);
          (case n1 of
             Some (nd, expireAt) \<Rightarrow>
               if expireAt > 0 \<and> fst t \<ge> expireAt then
                 do { ((deleted, v), b') \<leftarrow> lru2_delete k (c1, snd b);
                      Some ((None, False), if deleted \<and> v \<noteq> None then Some (k, v) else None, b') }
               else
                 do { ((_, ek, ev, evicted), c2) \<leftarrow> put k (nd_v nd) expireAt (snd b);
                      Some ((nd_v nd, True), if evicted then Some (ek, ev) else None, (c1, c2)) }
           | None \<Rightarrow>
               do { (n2, c2) \<leftarrow> lru2_get_level (snd t) k (snd b);
                    (case n2 of
                       Some nd \<Rightarrow>
                         if nd_expireAt nd > 0 \<and> fst t \<ge> nd_expireAt nd then
                           do { ((deleted, v), b') \<leftarrow> lru2_delete k (c1, c2);
                                Some ((None, False), if deleted \<and> v \<noteq> None then Some (k, v) else None, b') }
                         else Some ((nd_v nd, True), None, (c1, c2))
                     | None \<Rightarrow> Some ((None, False), None, (c1, c2))) }) }"

definition put_bucket :: "nat \<Rightarrow> cache \<times> cache \<Rightarrow> lru2Store \<Rightarrow> lru2Store" where
  "put_bucket i b s = s\<lparr>caches := (caches s)[i := b]\<rparr>"

definition lru2_Get :: "clk \<Rightarrow> key \<Rightarrow> lru2Store \<Rightarrow> ((svalue option \<times> bool) \<times> lru2Store) option" where
  "lru2_Get t k s =
     do { let idx = bucket_of k s;
          b \<leftarrow> rd (caches s) idx;
          (r, pend, b') \<leftarrow> lru2_get_bucket t k b;
          let s = put_bucket idx b' s;
          Some (r, (case pend of None \<Rightarrow> s | Some (ek, ev) \<Rightarrow> notify True ek ev s)) }"

definition expire_at :: "int \<Rightarrow> int \<Rightarrow> int" where
  "expire_at now expiration =
     (if expiration > 0 then
        (if expiration > 0 \<and> now > max_int64 - expiration then max_int64 else now + expiration)
      else max_int64)"

definition lru2_SetWithExpiration ::
    "clk \<Rightarrow> key \<Rightarrow> svalue option \<Rightarrow> int \<Rightarrow> lru2Store \<Rightarrow> lru2Store option" where
  "lru2_SetWithExpiration t k v expiration s =
     do { let expireAt = expire_at (fst t) expiration;
          let idx = bucket_of k s;
          b \<leftarrow> rd (caches s) idx;
          ((_, ek, ev, evicted), c1) \<leftarrow> put k v expireAt (fst b);
          Some (notify evicted ek ev (put_bucket idx (c1, snd b) s)) }"

definition lru2_Set :: "clk \<Rightarrow> key \<Rightarrow> svalue option \<Rightarrow> lru2Store \<Rightarrow> lru2Store option" where
  "lru2_Set t k v s = lru2_SetWithExpiration t k v 0 s"

definition lru2_Delete :: "key \<Rightarrow> lru2Store \<Rightarrow> (bool \<times> lru2Store) option" where
  "lru2_Delete k s =
     do { let idx = bucket_of k s;
          b \<leftarrow> rd (caches s) idx;
          ((deleted, v), b') \<leftarrow> lru2_delete k b;
          Some (deleted, notify (deleted \<and> v \<noteq> None) k v (put_bucket idx b' s)) }"

text \<open>The walkers of \<open>Clear\<close>, \<open>Len\<close> and \<open>cleanupLoop\<close>.\<close>

definition collect_walker :: "(key list) walker" where
  "collect_walker k v e keys = (True, if k \<in> set keys then keys else keys @ [k])"

definition count_walker :: "nat walker" where
  "count_walker k v e n = (True, n + 1)"

definition expired_walker :: "int \<Rightarrow> (key list) walker" where
  "expired_walker now k v e keys =
     (True, if e > 0 \<and> now \<ge> e then (if k \<in> set keys then keys else keys @ [k]) else keys)"

fun walk_buckets :: "'s walker \<Rightarrow> (cache \<times> cache) list \<Rightarrow> 's \<Rightarrow> 's option" where
  "walk_buckets w [] s = Some s"
| "walk_buckets w (b # bs) s =
     do { s \<leftarrow> walk w (fst b) s; s \<leftarrow> walk w (snd b) s; walk_buckets w bs s }"

fun lru2_delete_keys :: "key list \<Rightarrow> lru2Store \<Rightarrow> lru2Store option" where
  "lru2_delete_keys [] s = Some s"
| "lru2_delete_keys (k # ks) s = do { (_, s) \<leftarrow> lru2_Delete k s; lru2_delete_keys ks s }"

definition lru2_Clear :: "lru2Store \<Rightarrow> lru2Store option" where
  "lru2_Clear s = do { keys \<leftarrow> walk_buckets collect_walker (caches s) []; lru2_delete_keys keys s }"

definition lru2_Len :: "lru2Store \<Rightarrow> nat option" where
  "lru2_Len s = walk_buckets count_walker (caches s) 0"

text \<open>\<open>Close\<close> runs once: a second call finds \<open>closeOnce\<close> done.\<close>

definition lru2_Close :: "lru2Store \<Rightarrow> lru2Store" where
  "lru2_Close s = s\<lparr>s_closed := True\<rparr>"

text \<open>
  One bucket of one round of \<open>cleanupLoop\<close>: collect the expired keys of both levels, delete
  them under the lock, keep the deleted values in the map \<open>evicted\<close>.
\<close>

fun delete_expired :: "key list \<Rightarrow> cache \<times> cache \<Rightarrow> (key, svalue) gomap
    \<Rightarrow> ((key, svalue) gomap \<times> (cache \<times> cache)) option" where
  "delete_expired [] b ev = Some (ev, b)"
| "delete_expired (k # ks) b ev =
     do { ((deleted, v), b) \<leftarrow> lru2_delete k b;
          delete_expired ks b (case v of Some w \<Rightarrow> if deleted then mput k w ev else ev | None \<Rightarrow> ev) }"

definition cleanup_bucket :: "int \<Rightarrow> cache \<times> cache \<Rightarrow> ((key, svalue) gomap \<times> (cache \<times> cache)) option" where
  "cleanup_bucket now b =
     do { keys \<leftarrow> walk (expired_walker now) (fst b) [];
          keys \<leftarrow> walk (expired_walker now) (snd b) keys;
          delete_expired keys b [] }"

fun lru2_cleanup_from :: "int \<Rightarrow> nat list \<Rightarrow> lru2Store \<Rightarrow> lru2Store option" where
  "lru2_cleanup_from now [] s = Some s"
| "lru2_cleanup_from now (i # is) s =
     do { b \<leftarrow> rd (caches s) i;
          (ev, b') \<leftarrow> cleanup_bucket now b;
          lru2_cleanup_from now is
            (fold (\<lambda>(k, v). notify True k (Some v)) ev (put_bucket i b' s)) }"

definition lru2_cleanup :: "int \<Rightarrow> lru2Store \<Rightarrow> lru2Store option" where
  "lru2_cleanup now s = lru2_cleanup_from now [0..<length (caches s)] s"

text \<open>The interface \<open>Store\<close> on this engine.\<close>

fun lru2_step :: "store_op \<Rightarrow> lru2Store \<Rightarrow> (store_out \<times> lru2Store) option" where
  "lru2_step (OpGet t k) s =
     map_option (\<lambda>((v, ok), s'). (OVal v ok, s')) (lru2_Get t k s)"
| "lru2_step (OpSet t k v d) s = map_option (\<lambda>s'. (OUnit, s')) (lru2_SetWithExpiration t k v d s)"
| "lru2_step (OpDelete k) s = map_option (\<lambda>(b, s'). (OBool b, s')) (lru2_Delete k s)"
| "lru2_step OpClear s = map_option (\<lambda>s'. (OUnit, s')) (lru2_Clear s)"
| "lru2_step OpLen s = map_option (\<lambda>n. (OLen n, s)) (lru2_Len s)"
| "lru2_step (OpTick now) s = map_option (\<lambda>s'. (OUnit, s')) (lru2_cleanup now s)"

end
