(* ===== verification/Lru2_Mask.thy ===== *)
theory Lru2_Mask
  imports Lru2
begin

text \<open>
  The bucket count and the bucket of a key in \<open>store/lru2.go\<close>: \<open>maskOfNextPowOf2\<close> gives the
  next power of two less one, and \<open>hash & mask\<close> is the remainder modulo the bucket count.
\<close>

lemma nat_between_powers: "0 < n \<Longrightarrow> \<exists>m. 2 ^ m \<le> n \<and> n < 2 ^ Suc m" for n :: nat
proof (induction n rule: less_induct)
  case (less n)
  show ?case
  proof (cases "n = 1")
    case True
    then show ?thesis by (intro exI [of _ 0]) simp
  next
    case False
    with less obtain m where "2 ^ m \<le> n div 2 \<and> n div 2 < 2 ^ Suc m"
      by (metis One_nat_def Suc_lessI div_less_dividend div_greater_zero_iff lessI less_2_cases_iff linorder_not_less nat_neq_iff zero_less_one)
    then show ?thesis by (intro exI [of _ "Suc m"]) auto
  qed
qed

lemma bit_top:
  fixes n :: nat
  assumes "2 ^ m \<le> n" and "n < 2 ^ Suc m"
  shows "bit n m" and "\<And>j. m < j \<Longrightarrow> \<not> bit n j"
proof -
  have "n div 2 ^ m = 1"
    using assms by (intro div_nat_eqI) auto
  then show "bit n m" by (simp add: bit_iff_odd)
  fix j assume "m < j"
  then have "(2::nat) ^ Suc m \<le> 2 ^ j" by (intro power_increasing) auto
  with assms(2) have "n < 2 ^ j" by linarith
  then show "\<not> bit n j" by (simp add: bit_iff_odd)
qed

text \<open>The four shift-and-or steps copy the highest set bit into every lower position.\<close>

lemma bit_smear:
  fixes c :: "16 word"
  shows "bit (let c = c OR drop_bit 1 c; c = c OR drop_bit 2 c; c = c OR drop_bit 4 c
              in c OR drop_bit 8 c) i \<longleftrightarrow> (\<exists>j < 16. bit c (i + j))"
proof -
  have "bit (let c = c OR drop_bit 1 c; c = c OR drop_bit 2 c; c = c OR drop_bit 4 c
              in c OR drop_bit 8 c) i
    \<longleftrightarrow> bit c i \<or> bit c (i+1) \<or> bit c (i+2) \<or> bit c (i+3) \<or> bit c (i+4) \<or> bit c (i+5) \<or> bit c (i+6) \<or> bit c (i+7)
      \<or> bit c (i+8) \<or> bit c (i+9) \<or> bit c (i+10) \<or> bit c (i+11) \<or> bit c (i+12) \<or> bit c (i+13) \<or> bit c (i+14) \<or> bit c (i+15)"
    by (simp add: Let_def bit_or_iff bit_drop_bit_eq ac_simps numeral_3_eq_3)
  also have "\<dots> \<longleftrightarrow> (\<exists>j \<in> {0,1,2,3,4,5,6,7,8,9,10,11,12,13,14,15}. bit c (i + j))" by auto
  also have "{0,1,2,3,4,5,6,7,8,9,10,11,12,13,14,15} = {j. j < (16::nat)}"
    by (rule set_eqI, simp only: insert_iff empty_iff mem_Collect_eq, arith)
  finally show ?thesis by auto
qed

lemma unat_less_16: "unat (c :: 16 word) < 2 ^ 16"
  by (rule order.strict_trans2 [OF unsigned_less]) simp

lemma smear_mask:
  fixes c :: "16 word"
  assumes "2 ^ m \<le> unat c" and "unat c < 2 ^ Suc m"
  shows "(let c = c OR drop_bit 1 c; c = c OR drop_bit 2 c; c = c OR drop_bit 4 c
          in c OR drop_bit 8 c) = mask (Suc m)"
proof (rule bit_eqI)
  have m: "m < 16"
    using assms(1) unat_less_16 [of c] power_less_imp_less_exp [of "2::nat" m 16] by simp
  have b: "bit c j \<longleftrightarrow> bit (unat c) j" for j by (simp add: bit_unsigned_iff)
  fix i assume "possible_bit TYPE(16 word) i"
  then have i: "i < 16" by simp
  have "(\<exists>j < 16. bit c (i + j)) \<longleftrightarrow> i \<le> m"
  proof
    assume "\<exists>j < 16. bit c (i + j)"
    then show "i \<le> m" using bit_top(2) [OF assms] unfolding b by (metis le_add1 le_trans linorder_not_less)
  next
    assume "i \<le> m"
    then have "bit c (i + (m - i))" using bit_top(1) [OF assms] unfolding b by simp
    with m show "\<exists>j < 16. bit c (i + j)" by (intro exI [of _ "m - i"]) auto
  qed
  then show "bit (let c = c OR drop_bit 1 c; c = c OR drop_bit 2 c; c = c OR drop_bit 4 c
      in c OR drop_bit 8 c) i \<longleftrightarrow> bit (mask (Suc m) :: 16 word) i"
    unfolding bit_smear using i by (simp add: bit_mask_iff less_Suc_eq_le)
qed

lemma unat_take_bit_mod: "unat (take_bit n (w :: 'a::len word)) = unat w mod 2 ^ n"
  unfolding unsigned_take_bit_eq by (rule take_bit_eq_mod)

lemma unat_mask16:
  assumes "n \<le> 16"
  shows "unat (mask n :: 16 word) + 1 = 2 ^ n"
proof -
  have "unat (mask n :: 16 word) = mask n"
    using assms by (intro bit_eqI) (auto simp: bit_unsigned_iff bit_mask_iff)
  then show ?thesis by (simp add: mask_eq_exp_minus_1)
qed

lemma mask_power:
  assumes "cap \<noteq> 0"
  shows "\<exists>n \<le> 16. maskOfNextPowOf2 cap = mask n \<and> unat (maskOfNextPowOf2 cap) + 1 = 2 ^ n
     \<and> unat cap \<le> 2 ^ n \<and> (n = 0 \<or> 2 ^ (n - 1) < unat cap)"
proof -
  have pos: "0 < unat cap" using assms by (simp add: unat_gt_0)
  then obtain m where m: "2 ^ m \<le> unat cap" "unat cap < 2 ^ Suc m"
    using nat_between_powers by blast
  have m16: "m < 16"
    using m(1) unat_less_16 [of cap] power_less_imp_less_exp [of "2::nat" m 16] by simp
  have pred: "unat (cap - 1) = unat cap - 1" using assms by (simp add: unat_minus_one)
  have bits: "bit cap j \<longleftrightarrow> bit (unat cap) j" for j by (simp add: bit_unsigned_iff)
  have pow: "cap AND (cap - 1) = 0 \<longleftrightarrow> unat cap = 2 ^ m"
  proof
    assume z: "cap AND (cap - 1) = 0"
    show "unat cap = 2 ^ m"
    proof (rule ccontr)
      assume "unat cap \<noteq> 2 ^ m"
      with m pred have "2 ^ m \<le> unat (cap - 1)" "unat (cap - 1) < 2 ^ Suc m" by auto
      then have "bit (unat (cap - 1)) m" by (rule bit_top(1))
      then have "bit (cap - 1) m" by (simp add: bit_unsigned_iff)
      moreover have "bit cap m" using bit_top(1) [OF m] bits by simp
      ultimately have "bit (cap AND (cap - 1)) m" by (simp add: bit_and_iff)
      with z show False by simp
    qed
  next
    assume "unat cap = 2 ^ m"
    then have "unat (cap - 1) = unat (mask m :: 16 word)"
      using pred unat_mask16 [of m] m16 by simp
    then have "cap - 1 = mask m" by (simp add: word_unat_eq_iff)
    then have "cap AND (cap - 1) = take_bit m cap" by (simp add: take_bit_eq_mask)
    moreover have "unat (take_bit m cap) = 0"
      using \<open>unat cap = 2 ^ m\<close> by (simp only: unat_take_bit_mod mod_self)
    ultimately show "cap AND (cap - 1) = 0" by (simp add: unat_eq_0)
  qed
  show ?thesis
  proof (cases "unat cap = 2 ^ m")
    case True
    then have "maskOfNextPowOf2 cap = cap - 1"
      using pow assms by (simp add: maskOfNextPowOf2_def word_gt_0)
    moreover have "cap - 1 = mask m"
      using True pred unat_mask16 [of m] m16 by (simp add: word_unat_eq_iff)
    moreover have "m = 0 \<or> (2::nat) ^ (m - 1) < 2 ^ m" by (cases m) auto
    ultimately show ?thesis using True m16 unat_mask16 [of m] by (intro exI [of _ m]) auto
  next
    case False
    then have "maskOfNextPowOf2 cap = mask (Suc m)"
      using pow smear_mask [OF m] by (simp add: maskOfNextPowOf2_def Let_def)
    then show ?thesis
      using False m m16 unat_mask16 [of "Suc m"] by (intro exI [of _ "Suc m"]) auto
  qed
qed

lemma bucket_count:
  assumes "BucketCount opts \<noteq> 0" and "unat (BucketCount opts) \<le> 32768"
  shows "length (caches (newLRU2Cache opts)) = unat (maskOfNextPowOf2 (BucketCount opts)) + 1
    \<and> bucket_of k (newLRU2Cache opts) = unat (hashBKRD k) mod length (caches (newLRU2Cache opts))"
proof -
  let ?mask = "maskOfNextPowOf2 (BucketCount opts)"
  obtain n where n: "n \<le> 16" "?mask = mask n" "unat ?mask + 1 = 2 ^ n"
      "n = 0 \<or> 2 ^ (n - 1) < unat (BucketCount opts)"
    using mask_power [OF assms(1)] by blast
  have "n \<noteq> 16" using n(4) assms(2) by auto
  with n(1) have "n < 16" by simp
  then have "(2::nat) ^ n < 2 ^ 16" by (intro power_strict_increasing) auto
  then have "unat (?mask + 1) = unat ?mask + 1"
    using n(3) by (subst unat_add_lem [THEN iffD1]) auto
  moreover have opts: "BucketCount (lru2_options opts) = BucketCount opts"
    using assms(1) by (simp add: lru2_options_def Let_def)
  ultimately have len: "length (caches (newLRU2Cache opts)) = unat ?mask + 1"
    by (simp add: newLRU2Cache_def Let_def)
  have "ucast (mask n :: 16 word) = (mask n :: 32 word)"
    using n(1) by (intro bit_eqI) (auto simp: bit_unsigned_iff bit_mask_iff)
  then have "s_mask (newLRU2Cache opts) = mask n"
    by (simp add: newLRU2Cache_def Let_def opts n(2))
  then have "bucket_of k (newLRU2Cache opts) = unat (take_bit n (hashBKRD k))"
    by (simp add: bucket_of_def take_bit_eq_mask)
  also have "\<dots> = unat (hashBKRD k) mod 2 ^ n"
    by (rule unat_take_bit_mod)
  finally show ?thesis using len n(3) by simp
qed

text \<open>
  For every non-zero bucket count, \<open>maskOfNextPowOf2\<close> plus one is the least power of two
  that is at least the count.
\<close>

theorem mask_next_power:
  assumes "cap \<noteq> 0"
  shows "\<exists>n \<le> 16. maskOfNextPowOf2 cap = mask n \<and> unat (maskOfNextPowOf2 cap) + 1 = 2 ^ n
     \<and> unat cap \<le> 2 ^ n \<and> (n = 0 \<or> 2 ^ (n - 1) < unat cap)"
  by (rule mask_power [OF assms])

theorem mask_next_power_witness:
  "\<exists>n. maskOfNextPowOf2 10 = mask n \<and> (10::nat) \<le> 2 ^ n \<and> (n = 0 \<or> 2 ^ (n - 1) < (10::nat))"
  using mask_next_power [of 10] by auto

text \<open>
  With the mask of any non-zero bucket count, masking the hash is the remainder modulo the
  number of buckets, so every key has a bucket.
\<close>

theorem bucket_is_remainder:
  assumes "BucketCount opts \<noteq> 0" and "unat (BucketCount opts) \<le> 32768"
  shows "length (caches (newLRU2Cache opts)) = unat (maskOfNextPowOf2 (BucketCount opts)) + 1
    \<and> bucket_of k (newLRU2Cache opts) = unat (hashBKRD k) mod length (caches (newLRU2Cache opts))"
  by (rule bucket_count [OF assms])

theorem bucket_is_remainder_witness:
  "bucket_of ''k'' (newLRU2Cache (NewOptions\<lparr>BucketCount := 10\<rparr>)) = 107 mod 16"
proof -
  let ?o = "NewOptions\<lparr>BucketCount := 10\<rparr>"
  have "maskOfNextPowOf2 10 = 15" by (simp add: maskOfNextPowOf2_def)
  moreover have "unat (hashBKRD ''k'') = 107" by (simp add: hashBKRD_def)
  ultimately show ?thesis
    using bucket_is_remainder [of ?o "''k''"] by (simp add: NewOptions_def)
qed

end
