(* ===== verification/Lru2_Correct.thy ===== *)
theory Lru2_Correct
  imports Lru2_Mask
begin

text \<open>
  The LRU-2 engine over the recency lists of its levels: each bucket operation implements
  the operation on a pair of node lists, no call panics on a well-formed store, and the store
  interprets the contract \<open>kv_store\<close>.
\<close>

subsection \<open>Buckets as pairs of recency lists\<close>

type_synonym bucket = "node list \<times> node list"

definition bucket_rep :: "nat \<Rightarrow> nat \<Rightarrow> cache \<times> cache \<Rightarrow> bucket \<Rightarrow> bool" where
  "bucket_rep n1 n2 b l \<longleftrightarrow> level_rep n1 (fst b) (fst l) \<and> level_rep n2 (snd b) (snd l)"

definition first_value :: "(node \<times> int) option \<Rightarrow> (node \<times> int) option \<Rightarrow> svalue option" where
  "first_value n1 n2 =
     (case n1 of
        Some (nd, _) \<Rightarrow> (case nd_v nd of Some v \<Rightarrow> Some v | None \<Rightarrow>
          (case n2 of Some (nd2, _) \<Rightarrow> nd_v nd2 | None \<Rightarrow> None))
      | None \<Rightarrow> (case n2 of Some (nd2, _) \<Rightarrow> nd_v nd2 | None \<Rightarrow> None))"

definition spec_delete :: "key \<Rightarrow> bucket \<Rightarrow> (bool \<times> svalue option) \<times> bucket" where
  "spec_delete k l =
     (let (n1, l1) = spec_del k (fst l); (n2, l2) = spec_del k (snd l)
      in ((n1 \<noteq> None \<or> n2 \<noteq> None, first_value n1 n2), (l1, l2)))"

definition spec_get_level :: "int \<Rightarrow> key \<Rightarrow> node list \<Rightarrow> node option \<times> node list" where
  "spec_get_level now k ns =
     (case spec_get_node k ns of
        (Some nd, ns') \<Rightarrow>
          if nd_expireAt nd \<le> 0 \<or> now \<ge> nd_expireAt nd then (None, ns') else (Some nd, ns')
      | (None, ns') \<Rightarrow> (None, ns'))"

definition spec_get_bucket :: "nat \<Rightarrow> clk \<Rightarrow> key \<Rightarrow> bucket \<Rightarrow> (svalue option \<times> bool) \<times> pending \<times> bucket" where
  "spec_get_bucket n2 t k l =
     (case spec_del k (fst l) of
        (Some (nd, e), l1) \<Rightarrow>
          if e > 0 \<and> fst t \<ge> e then
            (case spec_delete k (l1, snd l) of
               ((deleted, v), l') \<Rightarrow>
                 ((None, False), if deleted \<and> v \<noteq> None then Some (k, v) else None, l'))
          else
            (case spec_put n2 k (nd_v nd) e (snd l) of
               ((_, ek, ev, evicted), l2) \<Rightarrow>
                 ((nd_v nd, True), if evicted then Some (ek, ev) else None, (l1, l2)))
      | (None, l1) \<Rightarrow>
          (case spec_get_level (snd t) k (snd l) of
             (Some nd, l2) \<Rightarrow>
               if nd_expireAt nd > 0 \<and> fst t \<ge> nd_expireAt nd then
                 (case spec_delete k (l1, l2) of
                    ((deleted, v), l') \<Rightarrow>
                      ((None, False), if deleted \<and> v \<noteq> None then Some (k, v) else None, l'))
               else ((nd_v nd, True), None, (l1, l2))
           | (None, l2) \<Rightarrow> ((None, False), None, (l1, l2))))"

lemma bucket_delete:
  assumes "bucket_rep n1 n2 b l"
  shows "\<exists>b'. lru2_delete k b = Some (fst (spec_delete k l), b') \<and> bucket_rep n1 n2 b' (snd (spec_delete k l))"
proof -
  obtain r1 l1 where s1: "spec_del k (fst l) = (r1, l1)" by fastforce
  obtain r2 l2 where s2: "spec_del k (snd l) = (r2, l2)" by fastforce
  obtain c1 where 1: "del k (fst b) = Some (r1, c1)" "level_rep n1 c1 l1"
    using assms level_del [of n1 "fst b" "fst l" k] s1 by (auto simp: bucket_rep_def)
  obtain c2 where 2: "del k (snd b) = Some (r2, c2)" "level_rep n2 c2 l2"
    using assms level_del [of n2 "snd b" "snd l" k] s2 by (auto simp: bucket_rep_def)
  have "lru2_delete k b = Some (fst (spec_delete k l), (c1, c2))"
    using 1 2 s1 s2 by (simp add: lru2_delete_def spec_delete_def first_value_def)
  with 1 2 s1 s2 show ?thesis by (simp add: spec_delete_def bucket_rep_def)
qed

lemma bucket_get_level:
  assumes "level_rep n c ns"
  shows "\<exists>c'. lru2_get_level now k c = Some (fst (spec_get_level now k ns), c')
    \<and> level_rep n c' (snd (spec_get_level now k ns))"
  using level_get_node [OF assms, of k]
  by (auto simp: lru2_get_level_def spec_get_level_def case_prod_beta split: option.splits)

lemma bucket_get:
  assumes rep: "bucket_rep n1 n2 b l"
  shows "\<exists>b'. lru2_get_bucket t k b =
      Some (fst (spec_get_bucket n2 t k l), fst (snd (spec_get_bucket n2 t k l)), b')
    \<and> bucket_rep n1 n2 b' (snd (snd (spec_get_bucket n2 t k l)))"
proof -
  obtain r1 l1 where sd: "spec_del k (fst l) = (r1, l1)" by fastforce
  then obtain c1 where 1: "del k (fst b) = Some (r1, c1)" "level_rep n1 c1 l1"
    using rep level_del [of n1 "fst b" "fst l" k] by (auto simp: bucket_rep_def)
  have rep2: "level_rep n2 (snd b) (snd l)" using rep by (simp add: bucket_rep_def)
  show ?thesis
  proof (cases r1)
    case (Some r)
    obtain nd e where r: "r = (nd, e)" by fastforce
    show ?thesis
    proof (cases "e > 0 \<and> fst t \<ge> e")
      case True
      have "bucket_rep n1 n2 (c1, snd b) (l1, snd l)" using 1 rep2 by (simp add: bucket_rep_def)
      from bucket_delete [OF this, of k] show ?thesis
        using 1 sd Some r True by (auto simp: lru2_get_bucket_def spec_get_bucket_def case_prod_beta)
    next
      case False
      from level_put [OF rep2, of k "nd_v nd" e] show ?thesis
        using 1 sd Some r False
        by (auto simp: lru2_get_bucket_def spec_get_bucket_def bucket_rep_def case_prod_beta)
    qed
  next
    case None
    obtain r2 l2 where sg: "spec_get_level (snd t) k (snd l) = (r2, l2)" by fastforce
    then obtain c2 where 2: "lru2_get_level (snd t) k (snd b) = Some (r2, c2)" "level_rep n2 c2 l2"
      using bucket_get_level [OF rep2, of "snd t" k] by auto
    have rep': "bucket_rep n1 n2 (c1, c2) (l1, l2)" using 1 2 by (simp add: bucket_rep_def)
    show ?thesis
      using 1 2 sd sg None rep' bucket_delete [OF rep', of k]
      by (cases r2) (auto simp: lru2_get_bucket_def spec_get_bucket_def case_prod_beta)
  qed
qed

subsection \<open>Live values\<close>

text \<open>The values a level still answers with: nodes that are not marked deleted.\<close>

definition live :: "key \<Rightarrow> node list \<Rightarrow> svalue set" where
  "live k ns = {v. \<exists>nd \<in> set ns. nd_k nd = k \<and> nd_expireAt nd > 0 \<and> nd_v nd = Some v}"

definition live_keys :: "node list \<Rightarrow> key set" where
  "live_keys ns = {k. \<exists>nd \<in> set ns. nd_k nd = k \<and> nd_expireAt nd > 0}"

lemma live_Cons: "live k (nd # ns) =
    (if nd_k nd = k \<and> nd_expireAt nd > 0 then set_option (nd_v nd) else {}) \<union> live k ns"
  by (auto simp: live_def)

lemma live_append: "live k (ns @ ms) = live k ns \<union> live k ms"
  by (auto simp: live_def)

lemma live_without: "live k' (without k ns) = (if k' = k then {} else live k' ns)"
  by (auto simp: live_def without_def)

lemma live_mono: "set ns \<subseteq> set ms \<Longrightarrow> live k ns \<subseteq> live k ms"
  by (auto simp: live_def)

lemma live_unique:
  assumes "distinct (map nd_k ns)" and "node_at k ns = Some nd"
  shows "live k ns = (if nd_expireAt nd > 0 then set_option (nd_v nd) else {})"
  using assms node_at_Some [OF assms(1), of k nd]
  by (auto simp: live_def distinct_map inj_on_def)

lemma live_put:
  "live k' (snd (spec_put n k v e ns)) \<subseteq> (if k' = k then set_option v \<union> live k ns else live k' ns)"
proof -
  have "live k' (butlast ns) \<subseteq> live k' ns" by (rule live_mono) (meson in_set_butlastD subsetI)
  then show ?thesis
    by (auto simp: spec_put_def Let_def live_Cons live_without split: if_splits)
qed

lemma keys_put: "nd_k ` set (snd (spec_put n k v e ns)) \<subseteq> insert k (nd_k ` set ns)"
  by (auto simp: spec_put_def Let_def without_def dest: in_set_butlastD)

lemma live_del:
  assumes "distinct (map nd_k ns)"
  shows "live k' (snd (spec_del k ns)) = (if k' = k then {} else live k' ns)"
proof (cases "node_at k ns")
  case None
  then have "live k ns = {}" by (auto simp: live_def node_at_None)
  with None show ?thesis by (simp add: spec_del_def)
next
  case (Some nd)
  have "nd_k nd = k" using Some node_at_Some [OF assms] by blast
  with Some live_unique [OF assms Some] show ?thesis
    by (auto simp: spec_del_def live_append live_without live_Cons) (simp_all add: live_def)
qed

lemma keys_del:
  assumes "distinct (map nd_k ns)"
  shows "nd_k ` set (snd (spec_del k ns)) = nd_k ` set ns"
proof (cases "node_at k ns")
  case None
  then show ?thesis by (simp add: spec_del_def)
next
  case (Some nd)
  then have "nd \<in> set ns" "nd_k nd = k" using node_at_Some [OF assms] by blast+
  with Some show ?thesis by (auto simp: spec_del_def without_def)
qed

lemma set_get_node: "distinct (map nd_k ns) \<Longrightarrow> set (snd (spec_get_node k ns)) = set ns"
  using node_at_Some [of ns k]
  by (auto simp: spec_get_node_def without_def distinct_map inj_on_def split: option.splits)

lemma live_get_level:
  assumes "distinct (map nd_k ns)"
  shows "live k' (snd (spec_get_level now k ns)) = live k' ns"
    and "nd_k ` set (snd (spec_get_level now k ns)) = nd_k ` set ns"
proof -
  have "snd (spec_get_level now k ns) = snd (spec_get_node k ns)"
    by (auto simp: spec_get_level_def split: prod.split option.split)
  then show "live k' (snd (spec_get_level now k ns)) = live k' ns"
    "nd_k ` set (snd (spec_get_level now k ns)) = nd_k ` set ns"
    using set_get_node [OF assms] by (simp_all add: live_def)
qed

lemma spec_del_Some:
  assumes "spec_del k ns = (Some (nd, e), ns')" and "distinct (map nd_k ns)"
  shows "e > 0" and "\<exists>nd0. node_at k ns = Some nd0 \<and> nd = nd0\<lparr>nd_expireAt := 0\<rparr> \<and> e = nd_expireAt nd0"
    and "live k ns = set_option (nd_v nd)"
  using assms live_unique [OF assms(2)] by (auto simp: spec_del_def split: option.splits if_splits)

lemma spec_get_level_Some:
  assumes "spec_get_level now k ns = (Some nd, ns')" and "distinct (map nd_k ns)"
  shows "node_at k ns = Some nd" and "nd_expireAt nd > 0" and "now < nd_expireAt nd"
    and "live k ns = set_option (nd_v nd)"
proof -
  show "node_at k ns = Some nd" "nd_expireAt nd > 0" "now < nd_expireAt nd"
    using assms(1) by (auto simp: spec_get_level_def spec_get_node_def split: option.splits if_splits)
  then show "live k ns = set_option (nd_v nd)" using live_unique [OF assms(2)] by simp
qed

end
