(* ===== verification/Lru2_Refine.thy ===== *)
theory Lru2_Refine
  imports Lru2_Correct
begin

text \<open>
  The store of \<open>store/lru2.go\<close> as a list of buckets of recency lists: the operations of the
  abstract store, what they do to the live values, and the refinement of \<open>lru2_step\<close>.
\<close>

subsection \<open>The abstract store\<close>

definition is_live :: "node \<Rightarrow> bool" where
  "is_live nd \<longleftrightarrow> nd_expireAt nd > 0"

definition bucket_nodes :: "bucket \<Rightarrow> node list" where
  "bucket_nodes l = fst l @ snd l"

definition add_key :: "key \<Rightarrow> key list \<Rightarrow> key list" where
  "add_key k ks = (if k \<in> set ks then ks else ks @ [k])"

definition live_key_list :: "bucket list \<Rightarrow> key list" where
  "live_key_list bs = fold add_key (map nd_k (filter is_live (concat (map bucket_nodes bs)))) []"

definition expired_key_list :: "int \<Rightarrow> bucket \<Rightarrow> key list" where
  "expired_key_list now l =
     fold add_key (map nd_k (filter (\<lambda>nd. is_live nd \<and> now \<ge> nd_expireAt nd) (bucket_nodes l))) []"

definition spec2_get :: "nat \<Rightarrow> (key \<Rightarrow> nat) \<Rightarrow> clk \<Rightarrow> key \<Rightarrow> bucket list \<Rightarrow> (svalue option \<times> bool) \<times> bucket list" where
  "spec2_get n2 home t k bs =
     (case spec_get_bucket n2 t k (bs ! home k) of (r, _, l') \<Rightarrow> (r, bs[home k := l']))"

definition spec2_set :: "nat \<Rightarrow> (key \<Rightarrow> nat) \<Rightarrow> clk \<Rightarrow> key \<Rightarrow> svalue option \<Rightarrow> int \<Rightarrow> bucket list \<Rightarrow> bucket list" where
  "spec2_set n1 home t k v d bs =
     (let l = bs ! home k
      in bs[home k := (snd (spec_put n1 k v (expire_at (fst t) d) (fst l)), snd l)])"

definition spec2_delete :: "(key \<Rightarrow> nat) \<Rightarrow> key \<Rightarrow> bucket list \<Rightarrow> bool \<times> bucket list" where
  "spec2_delete home k bs =
     (case spec_delete k (bs ! home k) of ((deleted, _), l') \<Rightarrow> (deleted, bs[home k := l']))"

definition spec2_delete_keys :: "(key \<Rightarrow> nat) \<Rightarrow> key list \<Rightarrow> bucket list \<Rightarrow> bucket list" where
  "spec2_delete_keys home = fold (\<lambda>k bs. snd (spec2_delete home k bs))"

definition spec2_expire :: "int \<Rightarrow> bucket \<Rightarrow> bucket" where
  "spec2_expire now l = fold (\<lambda>k l. snd (spec_delete k l)) (expired_key_list now l) l"

fun spec2_step :: "nat \<Rightarrow> nat \<Rightarrow> (key \<Rightarrow> nat) \<Rightarrow> store_op \<Rightarrow> bucket list \<Rightarrow> store_out \<times> bucket list" where
  "spec2_step n1 n2 home (OpGet t k) bs =
     (case spec2_get n2 home t k bs of ((v, ok), bs') \<Rightarrow> (OVal v ok, bs'))"
| "spec2_step n1 n2 home (OpSet t k v d) bs = (OUnit, spec2_set n1 home t k v d bs)"
| "spec2_step n1 n2 home (OpDelete k) bs = (case spec2_delete home k bs of (b, bs') \<Rightarrow> (OBool b, bs'))"
| "spec2_step n1 n2 home OpClear bs = (OUnit, spec2_delete_keys home (live_key_list bs) bs)"
| "spec2_step n1 n2 home OpLen bs =
     (OLen (length (filter is_live (concat (map bucket_nodes bs)))), bs)"
| "spec2_step n1 n2 home (OpTick now) bs = (OUnit, map (spec2_expire now) bs)"

fun spec2_run :: "nat \<Rightarrow> nat \<Rightarrow> (key \<Rightarrow> nat) \<Rightarrow> store_op list \<Rightarrow> bucket list \<Rightarrow> store_out list \<times> bucket list" where
  "spec2_run n1 n2 home [] bs = ([], bs)"
| "spec2_run n1 n2 home (x # xs) bs =
     (case spec2_step n1 n2 home x bs of (out, bs1) \<Rightarrow>
       (case spec2_run n1 n2 home xs bs1 of (outs, bs2) \<Rightarrow> (out # outs, bs2)))"

subsection \<open>Live values and keys of a bucket\<close>

definition live2 :: "key \<Rightarrow> bucket \<Rightarrow> svalue set" where
  "live2 k l = live k (fst l) \<union> live k (snd l)"

definition bucket_keys :: "bucket \<Rightarrow> key set" where
  "bucket_keys l = nd_k ` set (bucket_nodes l)"

definition bucket_wf :: "bucket \<Rightarrow> bool" where
  "bucket_wf l \<longleftrightarrow> distinct (map nd_k (fst l)) \<and> distinct (map nd_k (snd l))"

lemma bucket_wfI: "bucket_rep n1 n2 b l \<Longrightarrow> bucket_wf l"
  by (auto simp: bucket_rep_def bucket_wf_def dest: level_repD(1))

lemma bucket_keys_eq: "bucket_keys l = nd_k ` set (fst l) \<union> nd_k ` set (snd l)"
  by (auto simp: bucket_keys_def bucket_nodes_def)

lemma spec_delete_snd: "snd (spec_delete k l) = (snd (spec_del k (fst l)), snd (spec_del k (snd l)))"
  by (simp add: spec_delete_def case_prod_beta Let_def)

lemma live2_delete:
  assumes "bucket_wf l"
  shows "live2 k' (snd (spec_delete k l)) = (if k' = k then {} else live2 k' l)"
    and "bucket_keys (snd (spec_delete k l)) = bucket_keys l"
  using assms by (auto simp: live2_def spec_delete_snd live_del bucket_wf_def bucket_keys_eq keys_del)

lemma live2_set:
  "live2 k' (snd (spec_put n1 k v e (fst l)), snd l) \<subseteq> (if k' = k then set_option v \<union> live2 k l else live2 k' l)"
  using live_put [of k' n1 k v e "fst l"] by (auto simp: live2_def split: if_splits)

lemma keys2_set: "bucket_keys (snd (spec_put n1 k v e (fst l)), snd l) \<subseteq> insert k (bucket_keys l)"
  using keys_put [of n1 k v e "fst l"] by (auto simp: bucket_keys_eq)

lemma distinct_without:
  assumes "distinct (map nd_k ns)"
  shows "distinct (map nd_k (without k ns))" and "k \<notin> nd_k ` set (without k ns)"
  using assms by (auto simp: without_def distinct_map_filter)

lemma distinct_del:
  assumes "distinct (map nd_k ns)"
  shows "distinct (map nd_k (snd (spec_del k ns)))"
proof (cases "node_at k ns")
  case None
  then show ?thesis using assms by (simp add: spec_del_def)
next
  case (Some nd)
  then have "nd_k nd = k" using node_at_Some [OF assms] by blast
  with Some show ?thesis using assms distinct_without [OF assms, of k] by (simp add: spec_del_def)
qed

lemma distinct_get_level:
  assumes "distinct (map nd_k ns)"
  shows "distinct (map nd_k (snd (spec_get_level now k ns)))"
proof -
  have eq: "snd (spec_get_level now k ns) = snd (spec_get_node k ns)"
    by (auto simp: spec_get_level_def split: prod.split option.split)
  show ?thesis
  proof (cases "node_at k ns")
    case None
    then show ?thesis using assms eq by (simp add: spec_get_node_def)
  next
    case (Some nd)
    then have "nd_k nd = k" using node_at_Some [OF assms] by blast
    with Some show ?thesis using assms eq distinct_without [OF assms, of k] by (simp add: spec_get_node_def)
  qed
qed

lemma spec_del_key: "distinct (map nd_k ns) \<Longrightarrow> spec_del k ns = (Some (nd, e), ns') \<Longrightarrow> k \<in> nd_k ` set ns"
  using node_at_None [of k ns] by (auto simp: spec_del_def split: option.splits)

lemma live2_get:
  assumes wf: "bucket_wf l"
  shows "live2 k' (snd (snd (spec_get_bucket n2 t k l))) \<subseteq> live2 k' l
    \<and> bucket_keys (snd (snd (spec_get_bucket n2 t k l))) \<subseteq> bucket_keys l
    \<and> (fst (fst (spec_get_bucket n2 t k l)) = Some v \<longrightarrow> v \<in> live2 k l)"
proof -
  obtain r1 l1 where sd: "spec_del k (fst l) = (r1, l1)" by fastforce
  have d1: "distinct (map nd_k (fst l))" and d2: "distinct (map nd_k (snd l))"
    using wf by (auto simp: bucket_wf_def)
  have l1: "live x l1 = (if x = k then {} else live x (fst l))" "nd_k ` set l1 = nd_k ` set (fst l)"
      "distinct (map nd_k l1)" for x
    using live_del [OF d1, of x k] keys_del [OF d1, of k] distinct_del [OF d1, of k] sd by simp_all
  show ?thesis
  proof (cases r1)
    case (Some r)
    obtain nd e where r: "r = (nd, e)" by fastforce
    note del = spec_del_Some [OF sd [unfolded Some r] d1]
    have wf1: "bucket_wf (l1, snd l)" using l1(3) d2 by (simp add: bucket_wf_def)
    show ?thesis
    proof (cases "e > 0 \<and> fst t \<ge> e")
      case True
      then show ?thesis
        using sd Some r l1 live2_delete [OF wf1]
        by (auto simp: spec_get_bucket_def case_prod_beta live2_def bucket_keys_eq)
    next
      case False
      have "k \<in> nd_k ` set (fst l)" using spec_del_key [OF d1] sd Some r by blast
      then show ?thesis
        using sd Some r False l1 del(3) live_put [of k' n2 k "nd_v nd" e "snd l"]
          keys_put [of n2 k "nd_v nd" e "snd l"]
        by (auto simp: spec_get_bucket_def case_prod_beta live2_def bucket_keys_eq split: if_splits)
    qed
  next
    case None
    have eq: "l1 = fst l" using sd None by (auto simp: spec_del_def split: option.splits if_splits)
    obtain r2 l2 where sg: "spec_get_level (snd t) k (snd l) = (r2, l2)" by fastforce
    have l2: "live x l2 = live x (snd l)" "nd_k ` set l2 = nd_k ` set (snd l)" for x
      using live_get_level(1) [OF d2, of x "snd t" k] live_get_level(2) [OF d2, of "snd t" k] sg
      by simp_all
    have wfb: "bucket_wf (l1, l2)"
      using l1(3) distinct_get_level [OF d2, of "snd t" k] sg by (simp add: bucket_wf_def)
    show ?thesis
    proof (cases r2)
      case None
      then show ?thesis using sd sg \<open>r1 = None\<close> l2 eq
        by (auto simp: spec_get_bucket_def live2_def bucket_keys_eq)
    next
      case (Some nd)
      note g = spec_get_level_Some [OF sg [unfolded Some] d2]
      have same: "live2 k' (l1, l2) = live2 k' l" "bucket_keys (l1, l2) = bucket_keys l"
        using l2 eq by (simp_all add: live2_def bucket_keys_eq)
      have del: "live2 k' (snd (spec_delete k (l1, l2))) \<subseteq> live2 k' l"
          "bucket_keys (snd (spec_delete k (l1, l2))) = bucket_keys l"
        using live2_delete(1) [OF wfb, of k' k] live2_delete(2) [OF wfb, of k] same by simp_all
      have "nd_v nd = Some v \<longrightarrow> v \<in> live2 k l" using g(4) by (auto simp: live2_def)
      then show ?thesis using sd sg \<open>r1 = None\<close> Some del same
        by (simp add: spec_get_bucket_def case_prod_beta)
    qed
  qed
qed

subsection \<open>Representation of the store\<close>

definition home_ok :: "(key \<Rightarrow> nat) \<Rightarrow> bucket list \<Rightarrow> bool" where
  "home_ok home bs \<longleftrightarrow> (\<forall>i < length bs. \<forall>k \<in> bucket_keys (bs ! i). home k = i)"

definition lru2_rep :: "nat \<Rightarrow> nat \<Rightarrow> lru2Store \<Rightarrow> bucket list \<Rightarrow> bool" where
  "lru2_rep n1 n2 s bs \<longleftrightarrow>
     list_all2 (bucket_rep n1 n2) (caches s) bs \<and> unat (s_mask s) < length (caches s)
     \<and> home_ok (\<lambda>k. bucket_of k s) bs"

lemma bucket_of_less: "lru2_rep n1 n2 s bs \<Longrightarrow> bucket_of k s < length (caches s)"
proof -
  assume "lru2_rep n1 n2 s bs"
  then have "unat (s_mask s) < length (caches s)" by (simp add: lru2_rep_def)
  moreover have "unat (hashBKRD k AND s_mask s) \<le> unat (s_mask s)"
    using word_and_le1 [of "hashBKRD k" "s_mask s"] by (simp add: word_le_nat_alt)
  ultimately show ?thesis by (simp add: bucket_of_def)
qed

lemma lru2_rep_bucket:
  assumes "lru2_rep n1 n2 s bs" and "i < length (caches s)"
  shows "bucket_rep n1 n2 (caches s ! i) (bs ! i)" and "length bs = length (caches s)"
  using assms by (auto simp: lru2_rep_def list_all2_conv_all_nth)

lemma bucket_of_cong: "s_mask s' = s_mask s \<Longrightarrow> bucket_of k s' = bucket_of k s"
  by (simp add: bucket_of_def)

lemma put_bucket_simps [simp]:
  "s_mask (put_bucket i b s) = s_mask s" "caches (put_bucket i b s) = (caches s)[i := b]"
  "s_onEvicted (put_bucket i b s) = s_onEvicted s"
  by (simp_all add: put_bucket_def)

lemma notify_simps [simp]:
  "s_mask (notify need k v s) = s_mask s" "caches (notify need k v s) = caches s"
  "s_onEvicted (notify need k v s) = s_onEvicted s"
  by (simp_all add: notify_def)

lemma bucket_of_simps [simp]:
  "bucket_of k (put_bucket i b s) = bucket_of k s" "bucket_of k (notify need k' v s) = bucket_of k s"
  by (simp_all add: bucket_of_def)

lemma lru2_rep_notify [simp]: "lru2_rep n1 n2 (notify need k v s) bs \<longleftrightarrow> lru2_rep n1 n2 s bs"
  by (simp add: lru2_rep_def)

lemma lru2_rep_put:
  assumes rep: "lru2_rep n1 n2 s bs" and b: "bucket_rep n1 n2 b l"
    and keys: "\<And>k. k \<in> bucket_keys l \<Longrightarrow> bucket_of k s = i"
  shows "lru2_rep n1 n2 (put_bucket i b s) (bs[i := l])"
proof -
  have "home_ok (\<lambda>k. bucket_of k s) (bs[i := l])"
    unfolding home_ok_def
  proof (intro allI impI ballI)
    fix j k assume j: "j < length (bs[i := l])" "k \<in> bucket_keys (bs[i := l] ! j)"
    then show "bucket_of k s = j"
      using rep keys [of k] by (cases "j = i") (auto simp: lru2_rep_def home_ok_def)
  qed
  then show ?thesis
    using rep b by (auto simp: lru2_rep_def intro: list_all2_update_cong)
qed

lemma home_keys:
  "lru2_rep n1 n2 s bs \<Longrightarrow> i < length (caches s) \<Longrightarrow> k \<in> bucket_keys (bs ! i) \<Longrightarrow> bucket_of k s = i"
  by (auto simp: lru2_rep_def home_ok_def dest: list_all2_lengthD)

lemma lru2_rep_put_key:
  assumes rep: "lru2_rep n1 n2 s bs" and b: "bucket_rep n1 n2 b l"
    and keys: "bucket_keys l \<subseteq> insert k (bucket_keys (bs ! bucket_of k s))"
  shows "lru2_rep n1 n2 (put_bucket (bucket_of k s) b s) (bs[bucket_of k s := l])"
  using home_keys [OF rep bucket_of_less [OF rep]] keys by (intro lru2_rep_put [OF rep b]) blast

subsection \<open>Each operation refines the abstract one\<close>

lemma refine_get:
  assumes rep: "lru2_rep n1 n2 s bs"
  shows "\<exists>s'. lru2_Get t k s = Some (fst (spec2_get n2 (\<lambda>k. bucket_of k s) t k bs), s')
    \<and> lru2_rep n1 n2 s' (snd (spec2_get n2 (\<lambda>k. bucket_of k s) t k bs)) \<and> s_mask s' = s_mask s"
proof -
  let ?i = "bucket_of k s"
  note i = bucket_of_less [OF rep, of k]
  note b = lru2_rep_bucket [OF rep i]
  obtain r pend l' where g: "spec_get_bucket n2 t k (bs ! ?i) = (r, pend, l')" using prod_cases3 by blast
  then obtain b' where b': "lru2_get_bucket t k (caches s ! ?i) = Some (r, pend, b')" "bucket_rep n1 n2 b' l'"
    using bucket_get [OF b(1), of t k] by auto
  have "bucket_keys l' \<subseteq> insert k (bucket_keys (bs ! ?i))"
    using live2_get [OF bucket_wfI [OF b(1)], of k n2 t k] g by auto
  from lru2_rep_put_key [OF rep b'(2) this] show ?thesis
    using b' i g by (auto simp: lru2_Get_def spec2_get_def Let_def split: option.split)
qed

lemma refine_set:
  assumes rep: "lru2_rep n1 n2 s bs"
  shows "\<exists>s'. lru2_SetWithExpiration t k v d s = Some s'
    \<and> lru2_rep n1 n2 s' (spec2_set n1 (\<lambda>k. bucket_of k s) t k v d bs) \<and> s_mask s' = s_mask s"
proof -
  let ?i = "bucket_of k s" and ?e = "expire_at (fst t) d"
  note i = bucket_of_less [OF rep, of k]
  note b = lru2_rep_bucket [OF rep i]
  have l: "level_rep n1 (fst (caches s ! ?i)) (fst (bs ! ?i))" "level_rep n2 (snd (caches s ! ?i)) (snd (bs ! ?i))"
    using b(1) by (auto simp: bucket_rep_def)
  obtain c' where c': "put k v ?e (fst (caches s ! ?i)) = Some (fst (spec_put n1 k v ?e (fst (bs ! ?i))), c')"
      "level_rep n1 c' (snd (spec_put n1 k v ?e (fst (bs ! ?i))))"
    using level_put [OF l(1), of k v ?e] by blast
  let ?l' = "(snd (spec_put n1 k v ?e (fst (bs ! ?i))), snd (bs ! ?i))"
  have "bucket_rep n1 n2 (c', snd (caches s ! ?i)) ?l'" using c'(2) l(2) by (simp add: bucket_rep_def)
  from lru2_rep_put_key [OF rep this keys2_set] show ?thesis
    using c'(1) i by (cases "fst (spec_put n1 k v ?e (fst (bs ! ?i)))")
      (auto simp: lru2_SetWithExpiration_def spec2_set_def Let_def)
qed

lemma refine_delete:
  assumes rep: "lru2_rep n1 n2 s bs"
  shows "\<exists>s'. lru2_Delete k s = Some (fst (spec2_delete (\<lambda>k. bucket_of k s) k bs), s')
    \<and> lru2_rep n1 n2 s' (snd (spec2_delete (\<lambda>k. bucket_of k s) k bs)) \<and> s_mask s' = s_mask s"
proof -
  let ?i = "bucket_of k s"
  note i = bucket_of_less [OF rep, of k]
  note b = lru2_rep_bucket [OF rep i]
  obtain deleted v l' where g: "spec_delete k (bs ! ?i) = ((deleted, v), l')" by (metis prod.exhaust)
  then obtain b' where b': "lru2_delete k (caches s ! ?i) = Some ((deleted, v), b')" "bucket_rep n1 n2 b' l'"
    using bucket_delete [OF b(1), of k] by auto
  have "bucket_keys l' \<subseteq> insert k (bucket_keys (bs ! ?i))"
    using live2_delete(2) [OF bucket_wfI [OF b(1)], of k] g by auto
  from lru2_rep_put_key [OF rep b'(2) this] show ?thesis
    using b' i g by (auto simp: lru2_Delete_def spec2_delete_def Let_def)
qed

lemma refine_delete_keys:
  assumes "lru2_rep n1 n2 s bs"
  shows "\<exists>s'. lru2_delete_keys ks s = Some s'
    \<and> lru2_rep n1 n2 s' (spec2_delete_keys (\<lambda>k. bucket_of k s) ks bs) \<and> s_mask s' = s_mask s"
  using assms
proof (induction ks arbitrary: s bs)
  case Nil
  then show ?case by (simp add: spec2_delete_keys_def)
next
  case (Cons k ks)
  obtain s1 where s1: "lru2_Delete k s = Some (fst (spec2_delete (\<lambda>k. bucket_of k s) k bs), s1)"
      "lru2_rep n1 n2 s1 (snd (spec2_delete (\<lambda>k. bucket_of k s) k bs))" "s_mask s1 = s_mask s"
    using refine_delete [OF Cons.prems, of k] by blast
  have "(\<lambda>k. bucket_of k s1) = (\<lambda>k. bucket_of k s)" using s1(3) by (simp add: bucket_of_def)
  with Cons.IH [OF s1(2)] s1 show ?case by (simp add: spec2_delete_keys_def)
qed

end
