(* ===== verification/Lru2_Store.thy ===== *)
theory Lru2_Store
  imports Lru2_Refine
begin

text \<open>
  The walks of \<open>store/lru2.go\<close> (\<open>Clear\<close>, \<open>Len\<close> and the rounds of \<open>cleanupLoop\<close>), the
  refinement of every call of the interface, the invariant and the interpretation of the
  contract \<open>kv_store\<close>.
\<close>

subsection \<open>Walks\<close>

lemma walk_collect:
  "walk_list collect_walker ns ks = fold add_key (map nd_k (filter is_live ns)) ks"
  by (induction ns arbitrary: ks) (auto simp: collect_walker_def add_key_def is_live_def)

lemma walk_count: "walk_list count_walker ns n = n + length (filter is_live ns)"
  by (induction ns arbitrary: n) (auto simp: count_walker_def is_live_def)

lemma walk_expired:
  "walk_list (expired_walker now) ns ks =
     fold add_key (map nd_k (filter (\<lambda>nd. is_live nd \<and> now \<ge> nd_expireAt nd) ns)) ks"
  by (induction ns arbitrary: ks) (auto simp: expired_walker_def add_key_def is_live_def)

lemma walk_bucket:
  assumes "bucket_rep n1 n2 b l"
  shows "walk w (fst b) s = Some (walk_list w (fst l) s)" "walk w (snd b) s = Some (walk_list w (snd l) s)"
  using assms walk_enough_fuel by (auto simp: bucket_rep_def)

lemma refine_len:
  assumes "list_all2 (bucket_rep n1 n2) bs ls"
  shows "walk_buckets count_walker bs n =
    Some (n + length (filter is_live (concat (map bucket_nodes ls))))"
  using assms
  by (induction bs ls arbitrary: n rule: list_all2_induct)
    (simp_all add: walk_bucket walk_count bucket_nodes_def)

lemma refine_collect:
  assumes "list_all2 (bucket_rep n1 n2) bs ls"
  shows "walk_buckets collect_walker bs ks =
    Some (fold add_key (map nd_k (filter is_live (concat (map bucket_nodes ls)))) ks)"
  using assms
  by (induction bs ls arbitrary: ks rule: list_all2_induct)
    (simp_all add: walk_bucket walk_collect bucket_nodes_def)

lemma refine_delete_expired:
  assumes "bucket_rep n1 n2 b l"
  shows "\<exists>ev' b'. delete_expired ks b ev = Some (ev', b')
    \<and> bucket_rep n1 n2 b' (fold (\<lambda>k l. snd (spec_delete k l)) ks l)"
  using assms
proof (induction ks arbitrary: b l ev)
  case (Cons k ks)
  obtain deleted v l' where g: "spec_delete k l = ((deleted, v), l')" by (metis prod.exhaust)
  then obtain b' where b': "lru2_delete k b = Some ((deleted, v), b')" "bucket_rep n1 n2 b' l'"
    using bucket_delete [OF Cons.prems, of k] by auto
  show ?case using Cons.IH [OF b'(2)] b'(1) g by simp
qed simp

lemma refine_cleanup_bucket:
  assumes "bucket_rep n1 n2 b l"
  shows "\<exists>ev b'. cleanup_bucket now b = Some (ev, b') \<and> bucket_rep n1 n2 b' (spec2_expire now l)"
  using refine_delete_expired [OF assms, of "expired_key_list now l" "[]"]
  by (simp add: cleanup_bucket_def walk_bucket [OF assms] walk_expired spec2_expire_def
      expired_key_list_def bucket_nodes_def)

lemma fold_notify_simps:
  "s_mask (fold (\<lambda>(k, v). notify True k (Some v)) ev s) = s_mask s"
  "caches (fold (\<lambda>(k, v). notify True k (Some v)) ev s) = caches s"
  by (induction ev arbitrary: s) auto

lemma keys_fold_delete:
  assumes "bucket_wf l"
  shows "bucket_keys (fold (\<lambda>k l. snd (spec_delete k l)) ks l) = bucket_keys l
    \<and> bucket_wf (fold (\<lambda>k l. snd (spec_delete k l)) ks l)
    \<and> live2 k' (fold (\<lambda>k l. snd (spec_delete k l)) ks l) = (if k' \<in> set ks then {} else live2 k' l)"
  using assms
proof (induction ks arbitrary: l)
  case (Cons k ks)
  have "bucket_wf (snd (spec_delete k l))"
    using Cons.prems by (simp add: bucket_wf_def spec_delete_snd distinct_del)
  from Cons.IH [OF this] live2_delete(2) [OF Cons.prems, of k] live2_delete(1) [OF Cons.prems, of k' k]
  show ?case by (cases "k' = k") simp_all
qed simp

lemma refine_cleanup_from:
  assumes "lru2_rep n1 n2 s bs" and "set is \<subseteq> {..<length (caches s)}" and "distinct is"
  shows "\<exists>s'. lru2_cleanup_from now is s = Some s' \<and> s_mask s' = s_mask s
    \<and> lru2_rep n1 n2 s' (map (\<lambda>i. if i \<in> set is then spec2_expire now (bs ! i) else bs ! i) [0..<length bs])"
  using assms
proof (induction "is" arbitrary: s bs)
  case Nil
  then show ?case by (simp add: map_nth)
next
  case (Cons i "is")
  have i: "i < length (caches s)" using Cons.prems(2) by simp
  note b = lru2_rep_bucket [OF Cons.prems(1) i]
  obtain ev b' where b': "cleanup_bucket now (caches s ! i) = Some (ev, b')"
      "bucket_rep n1 n2 b' (spec2_expire now (bs ! i))"
    using refine_cleanup_bucket [OF b(1)] by blast
  let ?s = "fold (\<lambda>(k, v). notify True k (Some v)) ev (put_bucket i b' s)"
  let ?bs = "bs[i := spec2_expire now (bs ! i)]"
  have "bucket_keys (spec2_expire now (bs ! i)) = bucket_keys (bs ! i)"
    using keys_fold_delete [OF bucket_wfI [OF b(1)]] by (simp add: spec2_expire_def)
  then have "lru2_rep n1 n2 (put_bucket i b' s) ?bs"
    using lru2_rep_put [OF Cons.prems(1) b'(2)] home_keys [OF Cons.prems(1) i] by simp
  then have rep: "lru2_rep n1 n2 ?s ?bs"
    by (simp add: lru2_rep_def fold_notify_simps bucket_of_def)
  have other: "j \<in> set is \<Longrightarrow> ?bs ! j = bs ! j" for j
    using Cons.prems(3) by (metis distinct.simps(2) nth_list_update_neq)
  have "map (\<lambda>j. if j \<in> set is then spec2_expire now (?bs ! j) else ?bs ! j) [0..<length ?bs]
      = map (\<lambda>j. if j \<in> set (i # is) then spec2_expire now (bs ! j) else bs ! j) [0..<length bs]"
    using Cons.prems(3) other by (intro map_cong refl) (auto simp: nth_list_update)
  with Cons.IH [OF rep] Cons.prems i b' show ?case
    by (simp add: fold_notify_simps del: map_eq_conv)
qed

lemma refine_cleanup:
  assumes "lru2_rep n1 n2 s bs"
  shows "\<exists>s'. lru2_cleanup now s = Some s' \<and> s_mask s' = s_mask s \<and> lru2_rep n1 n2 s' (map (spec2_expire now) bs)"
proof -
  have "length bs = length (caches s)" using assms by (auto simp: lru2_rep_def dest: list_all2_lengthD)
  then have "map (\<lambda>i. if i \<in> set [0..<length (caches s)] then spec2_expire now (bs ! i) else bs ! i) [0..<length bs]
      = map (spec2_expire now) bs"
    by (intro nth_equalityI) auto
  moreover have "set [0..<length (caches s)] \<subseteq> {..<length (caches s)}" "distinct [0..<length (caches s)]"
    by auto
  ultimately show ?thesis
    using refine_cleanup_from [OF assms, of "[0..<length (caches s)]" now]
    unfolding lru2_cleanup_def by metis
qed

text \<open>Every call of the interface returns and does what the abstract store does.\<close>

lemma refine_step:
  assumes rep: "lru2_rep n1 n2 s bs"
  shows "\<exists>s'. lru2_step x s = Some (fst (spec2_step n1 n2 (\<lambda>k. bucket_of k s) x bs), s')
    \<and> lru2_rep n1 n2 s' (snd (spec2_step n1 n2 (\<lambda>k. bucket_of k s) x bs)) \<and> s_mask s' = s_mask s"
proof (cases x)
  case (OpGet t k)
  then show ?thesis using refine_get [OF rep, of t k]
    by (cases "spec2_get n2 (\<lambda>k. bucket_of k s) t k bs") (auto split: prod.splits)
next
  case (OpSet t k v d)
  then show ?thesis using refine_set [OF rep, of t k v d] by auto
next
  case (OpDelete k)
  then show ?thesis using refine_delete [OF rep, of k]
    by (cases "spec2_delete (\<lambda>k. bucket_of k s) k bs") auto
next
  case OpClear
  have "list_all2 (bucket_rep n1 n2) (caches s) bs" using rep by (simp add: lru2_rep_def)
  from refine_collect [OF this, of "[]"] refine_delete_keys [OF rep, of "live_key_list bs"] OpClear
  show ?thesis by (auto simp: lru2_Clear_def live_key_list_def)
next
  case OpLen
  have "list_all2 (bucket_rep n1 n2) (caches s) bs" using rep by (simp add: lru2_rep_def)
  from refine_len [OF this, of 0] OpLen rep show ?thesis by (auto simp: lru2_Len_def)
next
  case (OpTick now)
  then show ?thesis using refine_cleanup [OF rep, of now] by auto
qed

lemma refine_run:
  assumes "lru2_rep n1 n2 s bs"
  shows "\<exists>s'. run_ops lru2_step xs s = Some (fst (spec2_run n1 n2 (\<lambda>k. bucket_of k s) xs bs), s')
    \<and> lru2_rep n1 n2 s' (snd (spec2_run n1 n2 (\<lambda>k. bucket_of k s) xs bs))"
  using assms
proof (induction xs arbitrary: s bs)
  case (Cons x xs)
  obtain out bs1 where st: "spec2_step n1 n2 (\<lambda>k. bucket_of k s) x bs = (out, bs1)" by fastforce
  then obtain s1 where s1: "lru2_step x s = Some (out, s1)" "lru2_rep n1 n2 s1 bs1" "s_mask s1 = s_mask s"
    using refine_step [OF Cons.prems, of x] by (metis fst_conv snd_conv)
  have "(\<lambda>k. bucket_of k s1) = (\<lambda>k. bucket_of k s)" using s1(3) by (simp add: bucket_of_def)
  then obtain s2 where "run_ops lru2_step xs s1 = Some (fst (spec2_run n1 n2 (\<lambda>k. bucket_of k s) xs bs1), s2)"
      "lru2_rep n1 n2 s2 (snd (spec2_run n1 n2 (\<lambda>k. bucket_of k s) xs bs1))"
    using Cons.IH [OF s1(2)] by metis
  then show ?case using s1(1) st by (simp add: case_prod_beta)
qed simp

subsection \<open>What a store retains\<close>

text \<open>
  The values a store still answers with under a key: those of the unmarked nodes of the key
  in the two levels of its bucket.
\<close>

definition level_live :: "key \<Rightarrow> cache \<Rightarrow> svalue set" where
  "level_live k c =
     (case mget (hmap c) k of
        Some i \<Rightarrow> if nd_expireAt (c_m c ! (i - 1)) > 0 then set_option (nd_v (c_m c ! (i - 1))) else {}
      | None \<Rightarrow> {})"

definition lru2_held :: "lru2Store \<Rightarrow> key \<Rightarrow> svalue set" where
  "lru2_held s k =
     (let b = caches s ! bucket_of k s in level_live k (fst b) \<union> level_live k (snd b))"

definition lru2_inv :: "lru2Store \<Rightarrow> bool" where
  "lru2_inv s \<longleftrightarrow> (\<exists>n1 n2 bs. lru2_rep n1 n2 s bs)"

lemma level_live_rep:
  assumes "level_rep n c ns"
  shows "level_live k c = live k ns"
proof -
  obtain xs where inv: "level_inv n c xs" and ns: "ns = level_nodes c xs"
    using assms by (auto simp: level_rep_def)
  have at: "map_option (\<lambda>i. c_m c ! (i - 1)) (mget (hmap c) k) = node_at k ns"
    using level_node_at [OF inv, of k] by (simp add: ns)
  show ?thesis
  proof (cases "mget (hmap c) k")
    case None
    then have "node_at k ns = None" using at by (metis option.map_disc_iff)
    then have "live k ns = {}" by (auto simp: live_def node_at_None)
    with None show ?thesis by (simp add: level_live_def cong: option.case_cong)
  next
    case (Some i)
    then have "node_at k ns = Some (c_m c ! (i - 1))" using at by simp
    with live_unique [OF level_repD(1) [OF assms] this] Some show ?thesis by (simp add: level_live_def)
  qed
qed

lemma held_rep:
  assumes "lru2_rep n1 n2 s bs"
  shows "lru2_held s k = live2 k (bs ! bucket_of k s)"
  using lru2_rep_bucket(1) [OF assms bucket_of_less [OF assms, of k]]
  by (auto simp: lru2_held_def live2_def bucket_rep_def level_live_rep)

definition buckets_wf :: "(key \<Rightarrow> nat) \<Rightarrow> bucket list \<Rightarrow> bool" where
  "buckets_wf home bs \<longleftrightarrow> (\<forall>l \<in> set bs. bucket_wf l) \<and> (\<forall>k. home k < length bs)"

lemma buckets_wf_nth: "buckets_wf home bs \<Longrightarrow> bucket_wf (bs ! home k)"
  by (simp add: buckets_wf_def)

lemma lru2_rep_wf: "lru2_rep n1 n2 s bs \<Longrightarrow> buckets_wf (\<lambda>k. bucket_of k s) bs"
  using bucket_of_less [of n1 n2 s bs] lru2_rep_bucket [of n1 n2 s bs]
  by (auto simp: buckets_wf_def in_set_conv_nth dest!: bucket_wfI) (metis bucket_wfI)+

lemma set_fold_add_key: "set (fold add_key xs ks) = set xs \<union> set ks"
  by (induction xs arbitrary: ks) (auto simp: add_key_def)

lemma live_key_list_complete:
  assumes "home k < length bs" and "k \<notin> set (live_key_list bs)"
  shows "live2 k (bs ! home k) = {}"
proof -
  have "bs ! home k \<in> set bs" using assms(1) by simp
  then show ?thesis
    using assms(2) by (auto simp: live_key_list_def set_fold_add_key live2_def live_def is_live_def bucket_nodes_def)
qed

lemma wf_spec2_delete:
  "buckets_wf home bs \<Longrightarrow> buckets_wf home (snd (spec2_delete home k bs))"
  using buckets_wf_nth [of home bs k]
  by (auto simp: buckets_wf_def spec2_delete_def bucket_wf_def distinct_del spec_delete_snd case_prod_beta
      dest!: set_update_subset_insert [THEN subsetD])

lemma live_spec2_delete:
  assumes "buckets_wf home bs"
  shows "live2 k' (snd (spec2_delete home k bs) ! home k') = (if k' = k then {} else live2 k' (bs ! home k'))"
  using assms live2_delete(1) [OF buckets_wf_nth [OF assms, of k], of k' k]
  by (cases "home k' = home k") (auto simp: spec2_delete_def case_prod_beta buckets_wf_def)

lemma live_spec2_delete_keys:
  assumes "buckets_wf home bs"
  shows "live2 k' (spec2_delete_keys home ks bs ! home k') = (if k' \<in> set ks then {} else live2 k' (bs ! home k'))"
  using assms
proof (induction ks arbitrary: bs)
  case (Cons k ks)
  from Cons.IH [OF wf_spec2_delete [OF Cons.prems]] live_spec2_delete [OF Cons.prems, of k' k]
  show ?case by (cases "k' = k") (simp_all add: spec2_delete_keys_def)
qed (simp add: spec2_delete_keys_def)

lemma live_spec2_step:
  assumes wf: "buckets_wf home bs"
  shows "live2 k' (snd (spec2_step n1 n2 home x bs) ! home k') \<subseteq> keeps x k' (live2 k' (bs ! home k'))"
proof -
  have less: "home k < length bs" for k using wf by (simp add: buckets_wf_def)
  show ?thesis
  proof (cases x)
    case (OpGet t k)
    then show ?thesis
      using live2_get [OF buckets_wf_nth [OF wf, of k], of k' n2 t k] less
      by (cases "home k' = home k") (auto simp: spec2_get_def case_prod_beta)
  next
    case (OpSet t k v d)
    let ?l' = "(snd (spec_put n1 k v (expire_at (fst t) d) (fst (bs ! home k))), snd (bs ! home k))"
    have "snd (spec2_step n1 n2 home x bs) ! home k' = (if home k' = home k then ?l' else bs ! home k')"
      using less by (simp add: OpSet spec2_set_def Let_def)
    moreover have "keeps x k' H = (if k' = k then set_option v \<union> H else H)" for H
      by (cases v) (auto simp: OpSet)
    ultimately show ?thesis
      using live2_set [of k' n1 k v "expire_at (fst t) d" "bs ! home k"]
      by (cases "k' = k"; cases "home k' = home k") simp_all
  next
    case (OpDelete k)
    then show ?thesis using live_spec2_delete [OF wf, of k' k] by (auto simp: case_prod_beta)
  next
    case OpClear
    then show ?thesis
      using live_spec2_delete_keys [OF wf, of k' "live_key_list bs"] live_key_list_complete [of home k' bs, OF less]
      by simp
  next
    case OpLen
    then show ?thesis by simp
  next
    case (OpTick now)
    then show ?thesis
      using keys_fold_delete [OF buckets_wf_nth [OF wf, of k'], of "expired_key_list now (bs ! home k')" k'] less
      by (auto simp: spec2_expire_def)
  qed
qed

lemma get_spec2_step:
  assumes wf: "buckets_wf home bs" and "fst (spec2_step n1 n2 home (OpGet t k) bs) = OVal (Some v) ok"
  shows "v \<in> live2 k (bs ! home k)"
  using assms(2) live2_get [OF buckets_wf_nth [OF wf, of k], of k n2 t k v]
  by (auto simp: spec2_get_def case_prod_beta)

interpretation lru2: kv_store lru2_step lru2_inv lru2_held
proof
  fix s x assume "lru2_inv s"
  then obtain n1 n2 bs where rep: "lru2_rep n1 n2 s bs" by (auto simp: lru2_inv_def)
  show "\<exists>out s'. lru2_step x s = Some (out, s') \<and> lru2_inv s'"
    using refine_step [OF rep, of x] unfolding lru2_inv_def by blast
next
  fix s x out s' k assume "lru2_inv s" and st: "lru2_step x s = Some (out, s')"
  then obtain n1 n2 bs where rep: "lru2_rep n1 n2 s bs" by (auto simp: lru2_inv_def)
  let ?bs = "snd (spec2_step n1 n2 (\<lambda>k. bucket_of k s) x bs)"
  obtain s1 where s1: "lru2_step x s = Some (fst (spec2_step n1 n2 (\<lambda>k. bucket_of k s) x bs), s1)"
      "lru2_rep n1 n2 s1 ?bs" "s_mask s1 = s_mask s"
    using refine_step [OF rep, of x] by blast
  have "s' = s1" using s1(1) st by simp
  with s1 have rep': "lru2_rep n1 n2 s' ?bs" and "s_mask s' = s_mask s" by simp_all
  then have "bucket_of k s' = bucket_of k s" by (simp add: bucket_of_def)
  then show "lru2_held s' k \<subseteq> keeps x k (lru2_held s k)"
    using live_spec2_step [OF lru2_rep_wf [OF rep], of k n1 n2 x] held_rep [OF rep, of k] held_rep [OF rep', of k]
    by simp
next
  fix s t k v ok s' assume "lru2_inv s" and st: "lru2_step (OpGet t k) s = Some (OVal (Some v) ok, s')"
  then obtain n1 n2 bs where rep: "lru2_rep n1 n2 s bs" by (auto simp: lru2_inv_def)
  have "fst (spec2_step n1 n2 (\<lambda>k. bucket_of k s) (OpGet t k) bs) = OVal (Some v) ok"
    using refine_step [OF rep, of "OpGet t k"] st by (metis option.inject prod.inject)
  from get_spec2_step [OF lru2_rep_wf [OF rep] this] held_rep [OF rep, of k]
  show "v \<in> lru2_held s k" by simp
qed

subsection \<open>A new store\<close>

lemma lru2_options_nonzero:
  "BucketCount (lru2_options opts) \<noteq> 0" "CapPerBucket (lru2_options opts) \<noteq> 0" "Level2Cap (lru2_options opts) \<noteq> 0"
  by (auto simp: lru2_options_def Let_def)

text \<open>The options for which a new store is well formed.\<close>

definition lru2_options_ok :: "Options \<Rightarrow> bool" where
  "lru2_options_ok opts \<longleftrightarrow> unat (BucketCount opts) \<le> 32768
     \<and> unat (CapPerBucket opts) < 65535 \<and> unat (Level2Cap opts) < 65535"

lemma lru2_options_ok_defaults: "lru2_options_ok opts \<Longrightarrow> lru2_options_ok (lru2_options opts)"
  by (auto simp: lru2_options_ok_def lru2_options_def Let_def)

lemma lru2_options_idem: "lru2_options (lru2_options opts) = lru2_options opts"
  by (auto simp: lru2_options_def Let_def minute_def)

lemma newLRU2Cache_defaults: "newLRU2Cache (lru2_options opts) = newLRU2Cache opts"
  by (simp add: newLRU2Cache_def lru2_options_idem)

text \<open>The number of buckets: the next power of two.\<close>

definition bucket_total :: "Options \<Rightarrow> nat" where
  "bucket_total opts = unat (maskOfNextPowOf2 (BucketCount (lru2_options opts))) + 1"

lemma new_rep:
  assumes "lru2_options_ok opts"
  shows "\<exists>bs. lru2_rep (unat (CapPerBucket (lru2_options opts))) (unat (Level2Cap (lru2_options opts)))
      (newLRU2Cache opts) bs \<and> bs = replicate (bucket_total opts) ([], [])
    \<and> (\<forall>k. bucket_of k (newLRU2Cache opts) = unat (hashBKRD k) mod bucket_total opts)"
proof -
  let ?o = "lru2_options opts" and ?s = "newLRU2Cache opts"
  note ok = lru2_options_ok_defaults [OF assms]
  have len: "length (caches ?s) = unat (maskOfNextPowOf2 (BucketCount ?o)) + 1"
    using bucket_count [of ?o] lru2_options_nonzero(1) ok
    by (simp add: newLRU2Cache_defaults lru2_options_ok_def)
  have home: "bucket_of k ?s = unat (hashBKRD k) mod bucket_total opts" for k
    using bucket_count [of ?o k] lru2_options_nonzero(1) ok len
    by (simp add: newLRU2Cache_defaults lru2_options_ok_def bucket_total_def)
  let ?bs = "replicate (length (caches ?s)) ([], []) :: bucket list"
  have "level_rep (unat (CapPerBucket ?o)) (Create (CapPerBucket ?o)) []"
      "level_rep (unat (Level2Cap ?o)) (Create (Level2Cap ?o)) []"
    using ok lru2_options_nonzero [of opts] unat_gt_0 by (auto intro!: level_Create simp: lru2_options_ok_def)
  then have "list_all2 (bucket_rep (unat (CapPerBucket ?o)) (unat (Level2Cap ?o))) (caches ?s) ?bs"
    by (auto simp: list_all2_conv_all_nth newLRU2Cache_def Let_def bucket_rep_def)
  moreover have "unat (s_mask ?s) < length (caches ?s)"
    unfolding len by (simp add: newLRU2Cache_def Let_def unsigned_ucast_eq less_Suc_eq_le)
  moreover have "home_ok (\<lambda>k. bucket_of k ?s) ?bs"
    by (simp add: home_ok_def bucket_keys_def bucket_nodes_def)
  ultimately show ?thesis using home len
    by (intro exI [of _ ?bs]) (simp add: lru2_rep_def bucket_total_def)
qed

lemma new_inv: "lru2_options_ok opts \<Longrightarrow> lru2_inv (newLRU2Cache opts)"
  using new_rep unfolding lru2_inv_def by blast

lemma new_held:
  assumes "lru2_options_ok opts"
  shows "lru2_held (newLRU2Cache opts) k = {}"
proof -
  obtain n1 n2 bs where rep: "lru2_rep n1 n2 (newLRU2Cache opts) bs" and bs: "\<forall>l \<in> set bs. l = ([], [])"
    using new_rep [OF assms] by auto
  have "bucket_of k (newLRU2Cache opts) < length bs"
    using bucket_of_less [OF rep, of k] lru2_rep_bucket(2) [OF rep bucket_of_less [OF rep, of k]] by simp
  then have "bs ! bucket_of k (newLRU2Cache opts) = ([], [])" using bs nth_mem by blast
  then show ?thesis using held_rep [OF rep, of k] by (simp add: live2_def live_def)
qed

end
