(* ===== verification/Lru2_Props.thy ===== *)
theory Lru2_Props
  imports Lru2_Store
begin

text \<open>
  The properties of the LRU-2 engine of \<open>store/lru2.go\<close>.  \<open>tiny\<close> is a configuration with
  one bucket, small enough to evaluate whole runs of the engine.
\<close>

definition tiny :: Options where
  "tiny = NewOptions\<lparr>BucketCount := 1, CapPerBucket := 1, Level2Cap := 2\<rparr>"

lemma tiny_options:
  "lru2_options_ok tiny" "unat (CapPerBucket (lru2_options tiny)) = 1" "unat (Level2Cap (lru2_options tiny)) = 2"
  "bucket_total tiny = 1"
  by (simp_all add: tiny_def NewOptions_def lru2_options_ok_def lru2_options_def Let_def bucket_total_def
      maskOfNextPowOf2_def)

lemmas spec2_simps = spec2_get_def spec2_set_def spec2_delete_def spec_get_bucket_def spec_delete_def
  spec_del_def spec_put_def spec_get_level_def spec_get_node_def node_at_def without_def first_value_def
  expire_at_def max_int64_def is_live_def bucket_nodes_def

lemma new_run:
  assumes "lru2_options_ok opts"
  shows "map_option fst (run_ops lru2_step xs (newLRU2Cache opts)) =
    Some (fst (spec2_run (unat (CapPerBucket (lru2_options opts))) (unat (Level2Cap (lru2_options opts)))
      (\<lambda>k. unat (hashBKRD k) mod bucket_total opts) xs (replicate (bucket_total opts) ([], []))))"
proof -
  obtain bs where rep: "lru2_rep (unat (CapPerBucket (lru2_options opts))) (unat (Level2Cap (lru2_options opts)))
      (newLRU2Cache opts) bs"
    and bs: "bs = replicate (bucket_total opts) ([], [])"
    and home: "\<forall>k. bucket_of k (newLRU2Cache opts) = unat (hashBKRD k) mod bucket_total opts"
    using new_rep [OF assms] by blast
  have "(\<lambda>k. bucket_of k (newLRU2Cache opts)) = (\<lambda>k. unat (hashBKRD k) mod bucket_total opts)"
    using home by blast
  with refine_run [OF rep, of xs] bs show ?thesis by (metis fst_conv option.simps(9))
qed

lemma tiny_run:
  "map_option fst (run_ops lru2_step xs (newLRU2Cache tiny)) = Some (fst (spec2_run 1 2 (\<lambda>k. 0) xs [([], [])]))"
  using new_run [OF tiny_options(1), of xs] by (simp add: tiny_options)

subsection \<open>The level and the abstract store\<close>

text \<open>
  C6. On a well-formed level the index ring never runs out of bounds, and \<open>put\<close>, \<open>get\<close>,
  \<open>del\<close> and \<open>walk\<close> are the operations on the list of nodes from most to least recent; each
  keeps the level well formed.
\<close>

theorem level_implements_list:
  assumes "level_rep cap c ns"
  shows "(\<exists>c'. put k v e c = Some (fst (spec_put cap k v e ns), c') \<and> level_rep cap c' (snd (spec_put cap k v e ns)))
    \<and> (\<exists>c'. get_node k c = Some (fst (spec_get_node k ns), c') \<and> level_rep cap c' (snd (spec_get_node k ns)))
    \<and> (\<exists>c'. del k c = Some (fst (spec_del k ns), c') \<and> level_rep cap c' (snd (spec_del k ns)))
    \<and> walk w c s = Some (walk_list w ns s)"
  by (intro conjI level_put level_get_node level_del walk_enough_fuel [OF assms] assms)

theorem level_implements_list_witness:
  "\<exists>c'. put ''k'' (Some (Opaque 1)) 5 (Create 2) = Some ((1, [], None, False), c')
     \<and> level_rep 2 c' [\<lparr>nd_k = ''k'', nd_v = Some (Opaque 1), nd_expireAt = 5\<rparr>]"
proof -
  have "level_rep 2 (Create 2) []" using level_Create [of 2] by simp
  from level_implements_list [OF this, of "''k''" "Some (Opaque 1)" 5 count_walker 0, THEN conjunct1]
  show ?thesis by (simp add: spec_put_def node_at_def)
qed

text \<open>
  C1. Refinement of the whole engine: on a new store, any sequence of calls and cleanup
  rounds returns (no index is out of range) and answers exactly as the abstract store of
  recency lists does, with the bucket of a key the remainder of its hash.
\<close>

theorem lru2_implements_spec:
  assumes "lru2_options_ok opts"
  shows "map_option fst (run_ops lru2_step xs (newLRU2Cache opts)) =
    Some (fst (spec2_run (unat (CapPerBucket (lru2_options opts))) (unat (Level2Cap (lru2_options opts)))
      (\<lambda>k. unat (hashBKRD k) mod bucket_total opts) xs (replicate (bucket_total opts) ([], []))))"
  by (rule new_run [OF assms])

theorem lru2_implements_spec_witness:
  "map_option fst (run_ops lru2_step [OpSet (0, 0) ''k'' (Some (Opaque 7)) 10, OpGet (9, 9) ''k'', OpGet (10, 10) ''k'']
     (newLRU2Cache tiny)) = Some [OUnit, OVal (Some (Opaque 7)) True, OVal None False]"
  using lru2_implements_spec [OF tiny_options(1),
    of "[OpSet (0, 0) ''k'' (Some (Opaque 7)) 10, OpGet (9, 9) ''k'', OpGet (10, 10) ''k'']"]
  by (simp add: tiny_options spec2_simps)

subsection \<open>What a read may answer\<close>

text \<open>
  C22. After any run of a new store, a read that hits answers with a value that some set of the
  run stored under that key, with no delete of the key and no clear after it.
\<close>

theorem lru2_get_written:
  assumes "lru2_options_ok opts" and "run_ops lru2_step xs (newLRU2Cache opts) = Some (outs, s1)"
    and "lru2_step (OpGet t k) s1 = Some (OVal (Some v) ok, s2)"
  shows "v \<in> fold (\<lambda>x. keeps x k) xs {}"
  using lru2.run_get [OF new_inv [OF assms(1)] assms(2,3)] new_held [OF assms(1)] by simp

theorem lru2_get_written_witness:
  "Opaque 7 \<in> fold (\<lambda>x. keeps x ''k'') [OpSet (0, 0) ''k'' (Some (Opaque 7)) 10] {}"
proof -
  let ?xs = "[OpSet (0, 0) ''k'' (Some (Opaque 7)) 10]"
  obtain s1 where s1: "run_ops lru2_step ?xs (newLRU2Cache tiny) = Some ([OUnit], s1)"
    using tiny_run [of ?xs] by (auto simp: spec2_simps)
  have "map_option fst (run_ops lru2_step (?xs @ [OpGet (1, 1) ''k'']) (newLRU2Cache tiny))
      = Some [OUnit, OVal (Some (Opaque 7)) True]"
    unfolding tiny_run by (simp add: spec2_simps)
  then obtain s2 where "lru2_step (OpGet (1, 1) ''k'') s1 = Some (OVal (Some (Opaque 7)) True, s2)"
    using s1 by (auto split: option.splits prod.splits)
  from lru2_get_written [OF tiny_options(1) s1 this] show ?thesis .
qed

text \<open>
  A deleted key stays deleted: after \<open>Delete\<close>, however the store is used, no read of the
  key finds a value until the key is set again.
\<close>

theorem lru2_delete_is_final:
  assumes "lru2_options_ok opts"
    and "run_ops lru2_step (xs @ OpDelete k # ys) (newLRU2Cache opts) = Some (outs, s1)"
    and "\<forall>y \<in> set ys. \<forall>t v d. y \<noteq> OpSet t k v d"
    and "lru2_step (OpGet t k) s1 = Some (OVal v ok, s2)"
  shows "v = None"
proof (cases v)
  case (Some w)
  have "fold (\<lambda>x. keeps x k) ys H = {}" if "H = {}" for H
    using assms(3) that
  proof (induction ys arbitrary: H)
    case (Cons y ys)
    then show ?case by (cases "(y, k, H)" rule: keeps.cases) auto
  qed simp
  then have "w \<in> {}"
    using lru2.run_get [OF new_inv [OF assms(1)] assms(2) assms(4) [unfolded Some]] by simp
  then show ?thesis by simp
qed simp

theorem lru2_delete_is_final_witness:
  "\<exists>v ok s1 s2. run_ops lru2_step [OpSet (0, 0) ''k'' (Some (Opaque 7)) 0, OpDelete ''k''] (newLRU2Cache tiny)
       = Some ([OUnit, OBool True], s1)
     \<and> lru2_step (OpGet (1, 1) ''k'') s1 = Some (OVal v ok, s2) \<and> v = None"
proof -
  let ?xs = "[OpSet (0, 0) ''k'' (Some (Opaque 7)) 0, OpDelete ''k'']"
  obtain s1 where s1: "run_ops lru2_step ?xs (newLRU2Cache tiny) = Some ([OUnit, OBool True], s1)"
    using tiny_run [of ?xs] by (auto simp: spec2_simps)
  have "map_option fst (run_ops lru2_step (?xs @ [OpGet (1, 1) ''k'']) (newLRU2Cache tiny))
      = Some [OUnit, OBool True, OVal None False]"
    unfolding tiny_run by (simp add: spec2_simps)
  then obtain s2 where g: "lru2_step (OpGet (1, 1) ''k'') s1 = Some (OVal None False, s2)"
    using s1 by (auto split: option.splits prod.splits)
  have "None = (None :: svalue option)"
    using lru2_delete_is_final [of tiny "[OpSet (0, 0) ''k'' (Some (Opaque 7)) 0]" "''k''" "[]", OF tiny_options(1) _ _ g]
      s1 by simp
  with s1 g show ?thesis by blast
qed

subsection \<open>Two levels\<close>

text \<open>The node a level has under a key, marked or not.\<close>

definition level_node :: "key \<Rightarrow> cache \<Rightarrow> node option" where
  "level_node k c = map_option (\<lambda>i. c_m c ! (i - 1)) (mget (hmap c) k)"

lemma level_node_rep:
  assumes "level_rep n c ns"
  shows "level_node k c = node_at k ns"
  using assms level_node_at by (auto simp: level_rep_def level_node_def)

lemma node_at_snoc: "k \<notin> nd_k ` set ns \<Longrightarrow> nd_k nd = k \<Longrightarrow> node_at k (ns @ [nd]) = Some nd"
  by (induction ns) (auto simp: node_at_def)

lemma level_nodes_bucket:
  assumes "bucket_rep n1 n2 b l"
  shows "level_node k (fst b) = node_at k (fst l)" "level_node k (snd b) = node_at k (snd l)"
  using assms level_node_rep unfolding bucket_rep_def by blast+

lemma hit_bucket:
  assumes wf: "bucket_wf l" and hit: "fst (spec_get_bucket n2 t k l) = (v, True)"
  shows "\<exists>nd. (node_at k (fst l) = Some nd \<or> node_at k (snd l) = Some nd) \<and> nd_v nd = v
    \<and> 0 < nd_expireAt nd \<and> fst t < nd_expireAt nd"
proof -
  obtain r1 l1 where sd: "spec_del k (fst l) = (r1, l1)" by fastforce
  obtain r2 l2 where sg: "spec_get_level (snd t) k (snd l) = (r2, l2)" by fastforce
  show ?thesis
  proof (cases r1)
    case (Some r)
    obtain nd e where r: "r = (nd, e)" by fastforce
    with sd Some have "spec_del k (fst l) = (Some (nd, e), l1)" by simp
    then have "e > 0" "\<exists>nd0. node_at k (fst l) = Some nd0 \<and> nd = nd0\<lparr>nd_expireAt := 0\<rparr> \<and> e = nd_expireAt nd0"
      using spec_del_Some(1,2) wf unfolding bucket_wf_def by blast+
    then show ?thesis using hit sd Some r
      by (auto simp: spec_get_bucket_def case_prod_beta split: if_splits)
  next
    case None
    then obtain nd where nd: "r2 = Some nd" using hit sd sg
      by (auto simp: spec_get_bucket_def split: option.splits)
    then have "node_at k (snd l) = Some nd" "nd_expireAt nd > 0"
      using spec_get_level_Some(1,2) wf sg unfolding bucket_wf_def by blast+
    then show ?thesis using hit sd sg None nd
      by (auto simp: spec_get_bucket_def case_prod_beta split: if_splits)
  qed
qed

text \<open>
  C25. No expired entry is served: a hit is the value of a node of the key in one of the two
  levels whose deadline is after the clock reading of the call.
\<close>

theorem lru2_hit_is_fresh:
  assumes "lru2_inv s" and "lru2_Get t k s = Some ((v, True), s')"
  shows "\<exists>nd. (level_node k (fst (caches s ! bucket_of k s)) = Some nd \<or>
             level_node k (snd (caches s ! bucket_of k s)) = Some nd)
     \<and> nd_v nd = v \<and> 0 < nd_expireAt nd \<and> fst t < nd_expireAt nd"
proof -
  obtain n1 n2 bs where rep: "lru2_rep n1 n2 s bs" using assms(1) by (auto simp: lru2_inv_def)
  note b = lru2_rep_bucket(1) [OF rep bucket_of_less [OF rep, of k]]
  have "fst (spec2_get n2 (\<lambda>k. bucket_of k s) t k bs) = (v, True)"
    using refine_get [OF rep, of t k] assms(2) by auto
  then have "fst (spec_get_bucket n2 t k (bs ! bucket_of k s)) = (v, True)"
    by (simp add: spec2_get_def case_prod_beta)
  from hit_bucket [OF bucket_wfI [OF b] this] show ?thesis
    by (simp add: level_nodes_bucket [OF b])
qed

theorem lru2_hit_is_fresh_witness:
  "\<exists>s s'. lru2_Get (9, 9) ''k'' s = Some ((Some (Opaque 7), True), s') \<and>
     (\<exists>nd :: node. nd_v nd = Some (Opaque 7) \<and> 9 < nd_expireAt nd)"
proof -
  let ?xs = "[OpSet (0, 0) ''k'' (Some (Opaque 7)) 10]"
  obtain s where s: "run_ops lru2_step ?xs (newLRU2Cache tiny) = Some ([OUnit], s)"
    using tiny_run [of ?xs] by (auto simp: spec2_simps)
  have "map_option fst (run_ops lru2_step (?xs @ [OpGet (9, 9) ''k'']) (newLRU2Cache tiny))
      = Some [OUnit, OVal (Some (Opaque 7)) True]"
    unfolding tiny_run by (simp add: spec2_simps)
  then obtain s' where g: "lru2_Get (9, 9) ''k'' s = Some ((Some (Opaque 7), True), s')"
    using s by (auto split: option.splits prod.splits)
  have "lru2_inv s" using lru2.run_inv [OF new_inv [OF tiny_options(1)] s] .
  from lru2_hit_is_fresh [OF this g] obtain nd :: node where "nd_v nd = Some (Opaque 7)" "9 < nd_expireAt nd"
    unfolding fst_conv by blast
  with g show ?thesis by blast
qed

text \<open>
  Promotion: a read of a key that is live in level 1 answers with its value, marks its
  node in level 1 and puts the value with the same deadline in level 2.
\<close>

theorem lru2_get_promotes:
  assumes "lru2_inv s" and "level_node k (fst (caches s ! bucket_of k s)) = Some nd"
    and "0 < nd_expireAt nd" and "fst t < nd_expireAt nd"
  shows "\<exists>s'. lru2_Get t k s = Some ((nd_v nd, True), s')
    \<and> level_node k (fst (caches s' ! bucket_of k s')) = Some (nd\<lparr>nd_expireAt := 0\<rparr>)
    \<and> level_node k (snd (caches s' ! bucket_of k s')) = Some nd"
proof -
  obtain n1 n2 bs where rep: "lru2_rep n1 n2 s bs" using assms(1) by (auto simp: lru2_inv_def)
  let ?i = "bucket_of k s"
  note less = bucket_of_less [OF rep, of k]
  note b = lru2_rep_bucket [OF rep less]
  have d: "distinct (map nd_k (fst (bs ! ?i)))" using bucket_wfI [OF b(1)] by (simp add: bucket_wf_def)
  have at: "node_at k (fst (bs ! ?i)) = Some nd"
    using assms(2) by (simp add: level_nodes_bucket [OF b(1)])
  have k: "nd_k nd = k" using at node_at_Some [OF d] by blast
  have sd: "spec_del k (fst (bs ! ?i)) =
      (Some (nd\<lparr>nd_expireAt := 0\<rparr>, nd_expireAt nd), without k (fst (bs ! ?i)) @ [nd\<lparr>nd_expireAt := 0\<rparr>])"
    using at assms(3) by (simp add: spec_del_def)
  obtain r l2 where sp: "spec_put n2 k (nd_v nd) (nd_expireAt nd) (snd (bs ! ?i)) = (r, l2)" by fastforce
  let ?bs = "bs[?i := (without k (fst (bs ! ?i)) @ [nd\<lparr>nd_expireAt := 0\<rparr>], l2)]"
  have "spec2_get n2 (\<lambda>k. bucket_of k s) t k bs = ((nd_v nd, True), ?bs)"
    using sd sp assms(4) by (simp add: spec2_get_def spec_get_bucket_def case_prod_beta)
  then obtain s' where s': "lru2_Get t k s = Some ((nd_v nd, True), s')" "lru2_rep n1 n2 s' ?bs" "s_mask s' = s_mask s"
    using refine_get [OF rep, of t k] by auto
  have i': "bucket_of k s' = ?i" using s'(3) by (simp add: bucket_of_def)
  have b': "bucket_rep n1 n2 (caches s' ! ?i) (?bs ! ?i)"
    using lru2_rep_bucket(1) [OF s'(2) bucket_of_less [OF s'(2), of k]] i' by simp
  have "?bs ! ?i = (without k (fst (bs ! ?i)) @ [nd\<lparr>nd_expireAt := 0\<rparr>], l2)" using less b(2) by simp
  moreover have "node_at k (without k (fst (bs ! ?i)) @ [nd\<lparr>nd_expireAt := 0\<rparr>]) = Some (nd\<lparr>nd_expireAt := 0\<rparr>)"
    using k distinct_without(2) [OF d, of k] by (intro node_at_snoc) simp_all
  moreover have "node_at k l2 = Some \<lparr>nd_k = k, nd_v = nd_v nd, nd_expireAt = nd_expireAt nd\<rparr>"
    using sp by (auto simp: spec_put_def Let_def node_at_def split: if_splits)
  ultimately have "level_node k (fst (caches s' ! bucket_of k s')) = Some (nd\<lparr>nd_expireAt := 0\<rparr>)"
      "level_node k (snd (caches s' ! bucket_of k s')) = Some nd"
    using k i' by (simp_all add: level_nodes_bucket [OF b'])
  with s'(1) show ?thesis by blast
qed

text \<open>
  Overwriting a key that was promoted leaves its old value in level 2: when the new value
  is later evicted from level 1, a read answers with the old value again, as a hit.
\<close>

theorem lru2_stale_after_eviction:
  "map_option fst (run_ops lru2_step
     [OpSet (0, 0) ''k'' (Some (Opaque 1)) 0, OpGet (0, 0) ''k'', OpSet (0, 0) ''k'' (Some (Opaque 2)) 0,
      OpSet (0, 0) ''a'' (Some (Opaque 3)) 0, OpGet (0, 0) ''k''] (newLRU2Cache tiny))
   = Some [OUnit, OVal (Some (Opaque 1)) True, OUnit, OUnit, OVal (Some (Opaque 1)) True]"
  unfolding tiny_run by (simp add: spec2_simps)

text \<open>
  \<open>Len\<close> counts a key twice when it is written again after a promotion: one node in each
  level.
\<close>

theorem lru2_len_counts_twice:
  "map_option fst (run_ops lru2_step
     [OpSet (0, 0) ''k'' (Some (Opaque 1)) 0, OpGet (0, 0) ''k'', OpSet (0, 0) ''k'' (Some (Opaque 2)) 0, OpLen]
     (newLRU2Cache tiny))
   = Some [OUnit, OVal (Some (Opaque 1)) True, OUnit, OLen 2]"
  unfolding tiny_run by (simp add: spec2_simps)

theorem lru2_get_promotes_witness:
  "\<exists>s nd s'. level_node ''k'' (fst (caches s ! bucket_of ''k'' s)) = Some nd
     \<and> lru2_Get (9, 9) ''k'' s = Some ((Some (Opaque 7), True), s')
     \<and> level_node ''k'' (snd (caches s' ! bucket_of ''k'' s')) = Some nd"
proof -
  let ?nd = "\<lparr>nd_k = ''k'', nd_v = Some (Opaque 7), nd_expireAt = 10\<rparr>"
  have rep: "lru2_rep 1 2 (newLRU2Cache tiny) [([], [])]"
    and home: "(\<lambda>k. bucket_of k (newLRU2Cache tiny)) = (\<lambda>k. 0)"
    using new_rep [OF tiny_options(1)] by (simp_all add: tiny_options)
  obtain s where s: "lru2_rep 1 2 s [([?nd], [])]"
    using refine_run [OF rep, of "[OpSet (0, 0) ''k'' (Some (Opaque 7)) 10]"]
    unfolding home by (simp add: spec2_simps) blast
  have i: "bucket_of ''k'' s = 0"
    using bucket_of_less [OF s, of "''k''"] lru2_rep_bucket(2) [OF s bucket_of_less [OF s, of "''k''"]] by simp
  have "level_node ''k'' (fst (caches s ! bucket_of ''k'' s)) = Some ?nd"
    using level_nodes_bucket(1) [OF lru2_rep_bucket(1) [OF s bucket_of_less [OF s, of "''k''"]], of "''k''"]
    by (simp add: i node_at_def)
  moreover have "lru2_inv s" using s unfolding lru2_inv_def by blast
  ultimately show ?thesis
    using lru2_get_promotes [of s "''k''" ?nd "(9, 9)"] by simp blast
qed

definition live_keys2 :: "bucket \<Rightarrow> key set" where
  "live_keys2 l = live_keys (fst l) \<union> live_keys (snd l)"

lemma live_keys_del:
  assumes "distinct (map nd_k ns)"
  shows "live_keys (snd (spec_del k ns)) = live_keys ns - {k}"
proof (cases "node_at k ns")
  case None
  then have "snd (spec_del k ns) = ns" "k \<notin> live_keys ns"
    by (auto simp: spec_del_def live_keys_def node_at_None [symmetric])
      (use node_at_None [of k ns] None in auto)
  then show ?thesis by simp
next
  case (Some nd)
  then have nd: "nd_k nd = k" "\<And>nd'. nd' \<in> set ns \<Longrightarrow> nd_k nd' = k \<Longrightarrow> nd' = nd"
    using node_at_Some [OF assms] assms by (auto simp: distinct_map inj_on_def)
  show ?thesis
    using Some nd by (auto simp: spec_del_def live_keys_def without_def)
qed

lemma live_keys2_delete:
  assumes "buckets_wf home bs"
  shows "k' \<in> live_keys2 (snd (spec2_delete home k bs) ! home k') \<longleftrightarrow> k' \<noteq> k \<and> k' \<in> live_keys2 (bs ! home k')"
proof -
  have "live_keys2 (snd (spec_delete k (bs ! home k))) = live_keys2 (bs ! home k) - {k}"
    using buckets_wf_nth [OF assms, of k] live_keys_del
    by (auto simp: live_keys2_def spec_delete_snd bucket_wf_def)
  then show ?thesis
    using assms by (cases "home k' = home k") (auto simp: spec2_delete_def case_prod_beta buckets_wf_def)
qed

lemma live_keys2_delete_keys:
  assumes "buckets_wf home bs"
  shows "k' \<in> live_keys2 (spec2_delete_keys home ks bs ! home k') \<longleftrightarrow> k' \<notin> set ks \<and> k' \<in> live_keys2 (bs ! home k')"
  using assms
proof (induction ks arbitrary: bs)
  case (Cons k ks)
  from Cons.IH [OF wf_spec2_delete [OF Cons.prems]] live_keys2_delete [OF Cons.prems, of k' k]
  show ?case by (auto simp: spec2_delete_keys_def)
qed (simp add: spec2_delete_keys_def)

lemma live_keys2_listed:
  assumes "l \<in> set bs"
  shows "live_keys2 l \<subseteq> set (live_key_list bs)"
proof
  fix k assume "k \<in> live_keys2 l"
  then obtain nd where "nd \<in> set (bucket_nodes l)" "nd_k nd = k" "is_live nd"
    by (auto simp: live_keys2_def live_keys_def bucket_nodes_def is_live_def)
  then have "nd \<in> set (filter is_live (concat (map bucket_nodes bs)))" "nd_k nd = k"
    using assms by auto
  then show "k \<in> set (live_key_list bs)"
    by (auto simp: live_key_list_def set_fold_add_key)
qed

lemma clear_no_live:
  assumes rep: "lru2_rep n1 n2 s bs"
  shows "filter is_live (concat (map bucket_nodes
      (spec2_delete_keys (\<lambda>k. bucket_of k s) (live_key_list bs) bs))) = []"
proof (rule ccontr)
  let ?bs = "spec2_delete_keys (\<lambda>k. bucket_of k s) (live_key_list bs) bs"
  assume "filter is_live (concat (map bucket_nodes ?bs)) \<noteq> []"
  then obtain l nd where l: "l \<in> set ?bs" "nd \<in> set (bucket_nodes l)" "is_live nd"
    by (auto simp: filter_empty_conv)
  then obtain j where "j < length ?bs" "?bs ! j = l" by (auto simp: in_set_conv_nth)
  with l have j: "j < length ?bs" "nd \<in> set (bucket_nodes (?bs ! j))" "is_live nd" by simp_all
  obtain s' where s': "lru2_rep n1 n2 s' ?bs" "s_mask s' = s_mask s"
    using refine_delete_keys [OF rep] by blast
  have "nd_k nd \<in> bucket_keys (?bs ! j)" using j(2) by (simp add: bucket_keys_def)
  then have "bucket_of (nd_k nd) s = j"
    using home_keys [OF s'(1), of j] j(1) lru2_rep_bucket(2) [OF s'(1) bucket_of_less [OF s'(1)]] s'(2)
    by (simp add: bucket_of_def)
  then have "nd_k nd \<in> live_keys2 (?bs ! bucket_of (nd_k nd) s)"
    using j by (auto simp: live_keys2_def live_keys_def bucket_nodes_def is_live_def)
  then have no: "nd_k nd \<notin> set (live_key_list bs)" and old: "nd_k nd \<in> live_keys2 (bs ! bucket_of (nd_k nd) s)"
    using live_keys2_delete_keys [OF lru2_rep_wf [OF rep]] by blast+
  have "bucket_of (nd_k nd) s < length bs"
    using bucket_of_less [OF rep] lru2_rep_bucket(2) [OF rep bucket_of_less [OF rep]] by metis
  then have "bs ! bucket_of (nd_k nd) s \<in> set bs" by simp
  then have "nd_k nd \<in> set (live_key_list bs)"
    using old live_keys2_listed by blast
  with no show False by simp
qed

text \<open>
  \<open>Clear\<close> empties the store: every key is deleted and \<open>Len\<close> is 0 afterwards.
\<close>

theorem lru2_clear_empties:
  assumes "lru2_inv s"
  shows "\<exists>s'. lru2_Clear s = Some s' \<and> lru2_Len s' = Some 0"
proof -
  obtain n1 n2 bs where rep: "lru2_rep n1 n2 s bs" using assms by (auto simp: lru2_inv_def)
  obtain s' where s': "lru2_Clear s = Some s'"
      "lru2_rep n1 n2 s' (spec2_delete_keys (\<lambda>k. bucket_of k s) (live_key_list bs) bs)"
    using refine_step [OF rep, of OpClear] by auto
  have "list_all2 (bucket_rep n1 n2) (caches s') (spec2_delete_keys (\<lambda>k. bucket_of k s) (live_key_list bs) bs)"
    using s'(2) by (simp add: lru2_rep_def)
  from refine_len [OF this, of 0] show ?thesis
    using s'(1) clear_no_live [OF rep] by (simp add: lru2_Len_def)
qed

theorem lru2_clear_empties_witness:
  "\<exists>s'. lru2_Clear (newLRU2Cache tiny) = Some s' \<and> lru2_Len s' = Some 0"
  using lru2_clear_empties [OF new_inv [OF tiny_options(1)]] .

text \<open>
  The deadline of an entry: for a clock reading in the range of \<open>int64\<close> the sum saturates
  instead of wrapping, so it is after now and within range, and it is now plus the duration
  whenever that fits.
\<close>

theorem expire_at_saturates:
  assumes "0 \<le> now" and "now < max_int64"
  shows "now < expire_at now d \<and> expire_at now d \<le> max_int64
    \<and> (0 < d \<and> now + d \<le> max_int64 \<longrightarrow> expire_at now d = now + d)
    \<and> (d \<le> 0 \<longrightarrow> expire_at now d = max_int64)"
  using assms by (auto simp: expire_at_def)

theorem expire_at_saturates_witness:
  "(5::int) < expire_at 5 (2 ^ 63 - 2) \<and> expire_at 5 (2 ^ 63 - 2) = max_int64"
proof -
  have "5 < expire_at 5 (2 ^ 63 - 2)"
    using expire_at_saturates [of 5 "2 ^ 63 - 2"] by (simp add: max_int64_def)
  then show ?thesis by (simp add: expire_at_def max_int64_def)
qed

text \<open>
  A level capacity of 65535 makes \<open>cap + 1\<close> wrap to 0: the index table is empty and the
  first \<open>Set\<close> panics.
\<close>

theorem lru2_full_capacity_panics:
  "lru2_Set t k v (newLRU2Cache (NewOptions\<lparr>CapPerBucket := 65535\<rparr>)) = None"
proof -
  let ?o = "NewOptions\<lparr>CapPerBucket := 65535\<rparr>" and ?s = "newLRU2Cache (NewOptions\<lparr>CapPerBucket := 65535\<rparr>)"
  have o: "BucketCount ?o = 16" "lru2_options ?o = ?o"
    by (simp_all add: NewOptions_def lru2_options_def Let_def minute_def)
  have "length (caches ?s) = 16" "bucket_of k ?s < 16"
    using bucket_count [of ?o k] by (simp_all add: o maskOfNextPowOf2_def)
  then have b: "rd (caches ?s) (bucket_of k ?s) = Some (Create 65535, Create 256)"
    by (simp add: newLRU2Cache_def o Let_def) (simp add: NewOptions_def)
  have "put k v e (Create 65535) = None" for e
    by (simp add: put_def Create_def u16_def dset_def rd_def)
  then show ?thesis
    unfolding lru2_Set_def lru2_SetWithExpiration_def Let_def b by simp
qed

text \<open>
  A bucket count above 32768 makes \<open>mask + 1\<close> wrap to 0: the store has no bucket and
  every \<open>Get\<close> panics.
\<close>

theorem lru2_many_buckets_panics:
  assumes "BucketCount opts = 32769"
  shows "caches (newLRU2Cache opts) = [] \<and> lru2_Get t k (newLRU2Cache opts) = None"
proof -
  have "BucketCount (lru2_options opts) = 32769" using assms by (simp add: lru2_options_def Let_def)
  moreover have "maskOfNextPowOf2 32769 + 1 = 0" by (simp add: maskOfNextPowOf2_def Let_def)
  ultimately have "caches (newLRU2Cache opts) = []" by (simp add: newLRU2Cache_def Let_def)
  then show ?thesis by (simp add: lru2_Get_def)
qed

theorem lru2_many_buckets_panics_witness:
  "lru2_Get (0, 0) ''k'' (newLRU2Cache (NewOptions\<lparr>BucketCount := 32769\<rparr>)) = None"
  using lru2_many_buckets_panics [of "NewOptions\<lparr>BucketCount := 32769\<rparr>"] by simp

text \<open>
  A read of a deleted key moves its marked node to the front of level 2, so that the next
  promotion evicts a live entry although a marked node was there to be reused.
\<close>

theorem lru2_read_revives_tombstone:
  "map_option fst (run_ops lru2_step
     [OpSet (0, 0) ''a'' (Some (Opaque 1)) 0, OpGet (0, 0) ''a'',
      OpSet (0, 0) ''b'' (Some (Opaque 2)) 0, OpGet (0, 0) ''b'', OpDelete ''b'', OpGet (0, 0) ''b'',
      OpSet (0, 0) ''c'' (Some (Opaque 3)) 0, OpGet (0, 0) ''c'', OpGet (0, 0) ''a'']
     (newLRU2Cache tiny))
   = Some [OUnit, OVal (Some (Opaque 1)) True, OUnit, OVal (Some (Opaque 2)) True, OBool True, OVal None False,
      OUnit, OVal (Some (Opaque 3)) True, OVal None False]"
  unfolding tiny_run by (simp add: spec2_simps)

end
