(* ===== verification/Store_Factory.thy ===== *)
theory Store_Factory
  imports Lru Lru2_Store
begin

text \<open>
  \<open>NewStore\<close> of \<open>store/store.go\<close>: a value of the interface \<open>Store\<close> is one of the two
  engines, and a call is dispatched to it.  The contract \<open>kv_store\<close> holds of the interface
  because it holds of both engines.
\<close>

datatype Store = StLru lruCache | StLru2 lru2Store

definition NewStore :: "cache_type \<Rightarrow> Options \<Rightarrow> Store" where
  "NewStore ct opts =
     (case ct of
        LRU2 \<Rightarrow> StLru2 (newLRU2Cache opts)
      | LRU \<Rightarrow> StLru (newLRUCache opts)
      | OtherType _ \<Rightarrow> StLru (newLRUCache opts))"

fun store_step :: "store_op \<Rightarrow> Store \<Rightarrow> (store_out \<times> Store) option" where
  "store_step x (StLru s) = map_option (\<lambda>(out, s'). (out, StLru s')) (lru_step x s)"
| "store_step x (StLru2 s) = map_option (\<lambda>(out, s'). (out, StLru2 s')) (lru2_step x s)"

fun store_Close :: "Store \<Rightarrow> Store option" where
  "store_Close (StLru s) = map_option StLru (lru_Close s)"
| "store_Close (StLru2 s) = Some (StLru2 (lru2_Close s))"

fun store_inv :: "Store \<Rightarrow> bool" where
  "store_inv (StLru s) = lru_inv s"
| "store_inv (StLru2 s) = lru2_inv s"

fun store_held :: "Store \<Rightarrow> key \<Rightarrow> svalue set" where
  "store_held (StLru s) k = lru_held s k"
| "store_held (StLru2 s) k = lru2_held s k"

fun store_closed :: "Store \<Rightarrow> bool" where
  "store_closed (StLru s) = closeCh_closed s"
| "store_closed (StLru2 s) = s_closed s"

interpretation store: kv_store store_step store_inv store_held
proof
  fix s x assume "store_inv s"
  then show "\<exists>out s'. store_step x s = Some (out, s') \<and> store_inv s'"
    using lru.step_total [of _ x] lru2.step_total [of _ x] by (cases s) fastforce+
next
  fix s x out s' k assume inv: "store_inv s" and st: "store_step x s = Some (out, s')"
  show "store_held s' k \<subseteq> keeps x k (store_held s k)"
  proof (cases s)
    case (StLru c)
    then obtain c' where "lru_step x c = Some (out, c')" "s' = StLru c'" "lru_inv c"
      using st inv by auto
    then show ?thesis using lru.held_step [of c x out c' k] StLru by simp
  next
    case (StLru2 c)
    then obtain c' where "lru2_step x c = Some (out, c')" "s' = StLru2 c'" "lru2_inv c"
      using st inv by auto
    then show ?thesis using lru2.held_step [of c x out c' k] StLru2 by simp
  qed
next
  fix s t k v ok s' assume "store_inv s" "store_step (OpGet t k) s = Some (OVal (Some v) ok, s')"
  then show "v \<in> store_held s k"
    using lru.get_held [of _ t k v ok] lru2.get_held [of _ t k v ok]
    by (cases s) (auto simp del: lru_step.simps lru2_step.simps)
qed

subsection \<open>A call never closes the engine\<close>

lemma removeElement_open [simp]: "closeCh_closed (removeElement e c) = closeCh_closed c"
  by (simp add: removeElement_def Let_def)

lemma evict_expired_open [simp]: "closeCh_closed (evict_expired now es c) = closeCh_closed c"
  by (induction now es c rule: evict_expired.induct) (auto split: option.split)

lemma evict_memory_open [simp]: "closeCh_closed (evict_memory c) = closeCh_closed c"
proof (induction c rule: evict_memory.induct)
  case (1 c)
  then show ?case by (subst evict_memory.simps) simp
qed

lemma lru_Delete_open [simp]: "closeCh_closed (snd (lru_Delete k c)) = closeCh_closed c"
  by (simp add: lru_Delete_def split: option.split)

lemma lru_step_open: "lru_step x c = Some (out, c') \<Longrightarrow> closeCh_closed c' = closeCh_closed c"
proof (cases x)
  case (OpGet t k)
  have "closeCh_closed (snd (lru_Get (fst t) k c)) = closeCh_closed c"
    by (auto simp: lru_Get_def lru_get_touch_def split: get_read.split option.split)
  then show "lru_step x c = Some (out, c') \<Longrightarrow> ?thesis"
    using OpGet by (auto simp: Let_def case_prod_beta)
next
  case (OpSet t k v d)
  have "closeCh_closed (lru_SetWithExpiration t k v d c) = closeCh_closed c"
    by (auto simp: lru_SetWithExpiration_def Let_def lru_evict_def split: option.split)
  then show "lru_step x c = Some (out, c') \<Longrightarrow> ?thesis" using OpSet by auto
next
  case (OpDelete k)
  then show "lru_step x c = Some (out, c') \<Longrightarrow> ?thesis"
    using lru_Delete_open [of k c] by (auto simp: case_prod_beta)
qed (auto simp: lru_Clear_def lru_cleanup_def lru_evict_def)

lemma notify_open [simp]: "s_closed (notify n k v s) = s_closed s"
  by (simp add: notify_def)

lemma put_bucket_open [simp]: "s_closed (put_bucket i b s) = s_closed s"
  by (simp add: put_bucket_def)

lemma lru2_Delete_open: "lru2_Delete k s = Some (b, s') \<Longrightarrow> s_closed s' = s_closed s"
  by (auto simp: lru2_Delete_def Let_def split: Option.bind_splits prod.splits)

lemma fold_notify_open [simp]: "s_closed (fold (\<lambda>(k, v). notify True k (Some v)) ev s) = s_closed s"
proof (induction ev arbitrary: s)
  case (Cons p ev)
  show ?case by (cases p) (simp add: Cons.IH)
qed simp

lemma lru2_delete_keys_open: "lru2_delete_keys ks s = Some s' \<Longrightarrow> s_closed s' = s_closed s"
  by (induction ks arbitrary: s) (auto split: Option.bind_splits dest: lru2_Delete_open)

lemma lru2_cleanup_open: "lru2_cleanup_from now is s = Some s' \<Longrightarrow> s_closed s' = s_closed s"
proof (induction "is" arbitrary: s)
  case (Cons i "is")
  from Cons.prems obtain b ev b' where
    "lru2_cleanup_from now is (fold (\<lambda>(k, v). notify True k (Some v)) ev (put_bucket i b' s)) = Some s'"
    by (auto split: Option.bind_splits)
  from Cons.IH [OF this] show ?case by simp
qed simp

lemma lru2_step_open: "lru2_step x s = Some (out, s') \<Longrightarrow> s_closed s' = s_closed s"
proof (cases x)
  case (OpGet t k)
  then show "lru2_step x s = Some (out, s') \<Longrightarrow> ?thesis"
    by (auto simp: lru2_Get_def Let_def split: Option.bind_splits option.splits)
next
  case (OpSet t k v d)
  then show "lru2_step x s = Some (out, s') \<Longrightarrow> ?thesis"
    by (auto simp: lru2_SetWithExpiration_def Let_def split: Option.bind_splits)
next
  case (OpDelete k)
  then show "lru2_step x s = Some (out, s') \<Longrightarrow> ?thesis"
    using lru2_Delete_open by auto
next
  case OpClear
  then show "lru2_step x s = Some (out, s') \<Longrightarrow> ?thesis"
    using lru2_delete_keys_open by (auto simp: lru2_Clear_def split: Option.bind_splits)
next
  case (OpTick now)
  then show "lru2_step x s = Some (out, s') \<Longrightarrow> ?thesis"
    using lru2_cleanup_open by (auto simp: lru2_cleanup_def)
qed auto

lemma store_step_open: "store_step x s = Some (out, s') \<Longrightarrow> store_closed s' = store_closed s"
  using lru_step_open lru2_step_open by (cases s) auto

lemma store_Close_total: "\<not> store_closed s \<Longrightarrow> \<exists>s'. store_Close s = Some s' \<and> store_closed s'"
  by (cases s) (auto simp: lru_Close_def lru2_Close_def)

text \<open>A new store of well-formed options.\<close>

definition store_options_ok :: "cache_type \<Rightarrow> Options \<Rightarrow> bool" where
  "store_options_ok ct opts \<longleftrightarrow> (ct = LRU2 \<longrightarrow> lru2_options_ok opts)"

lemma new_store:
  assumes "store_options_ok ct opts"
  shows "store_inv (NewStore ct opts)" "store_held (NewStore ct opts) k = {}" "\<not> store_closed (NewStore ct opts)"
proof -
  have "lru_held (newLRUCache opts) k = {}"
    by (simp add: lru_held_def lru_view_def newLRUCache_def)
  moreover have "\<not> closeCh_closed (newLRUCache opts)" "\<not> s_closed (newLRU2Cache opts)"
    by (simp_all add: newLRUCache_def newLRU2Cache_def Let_def)
  ultimately show "store_inv (NewStore ct opts)" "store_held (NewStore ct opts) k = {}" "\<not> store_closed (NewStore ct opts)"
    using assms lru_inv_new [of opts] new_inv [of opts] new_held [of opts k]
    by (auto simp: NewStore_def store_options_ok_def split: cache_type.split)
qed

end
