(* ===== verification/Cache_Layer.thy ===== *)
theory Cache_Layer
  imports Store_Factory
begin

text \<open>
  \<open>cache.go\<close>: the struct \<open>Cache\<close> around a \<open>store.Store\<close>.  A call is a sequence of
  sections, each one atomic load, one compare-and-swap or one section under \<open>mu\<close>; a
  thread is a call and the section it is at.  The same sections, run to the end, are the
  sequential calls, and, interleaved, the concurrent executions.  \<open>None\<close> is a panic: a
  call on the nil interface \<open>c.store\<close>, or a panic of the store.  The logging is left out.
\<close>

subsection \<open>State\<close>

record CacheOptions =
  co_CacheType :: cache_type
  co_MaxBytes :: int
  co_BucketCount :: "16 word"
  co_CapPerBucket :: "16 word"
  co_Level2Cap :: "16 word"
  co_CleanupTime :: int
  co_OnEvicted :: bool

definition DefaultCacheOptions :: CacheOptions where
  "DefaultCacheOptions = \<lparr>co_CacheType = LRU2, co_MaxBytes = 8 * 1024 * 1024, co_BucketCount = 16,
     co_CapPerBucket = 512, co_Level2Cap = 256, co_CleanupTime = minute, co_OnEvicted = False\<rparr>"

record Cache =
  c_store :: "Store option"
  c_opts :: CacheOptions
  c_hits :: int
  c_misses :: int
  c_initialized :: bool
  c_closed :: bool

definition NewCache :: "CacheOptions \<Rightarrow> Cache" where
  "NewCache opts = \<lparr>c_store = None, c_opts = opts, c_hits = 0, c_misses = 0,
     c_initialized = False, c_closed = False\<rparr>"

definition store_options :: "CacheOptions \<Rightarrow> Options" where
  "store_options opts = \<lparr>MaxBytes = co_MaxBytes opts, BucketCount = co_BucketCount opts,
     CapPerBucket = co_CapPerBucket opts, Level2Cap = co_Level2Cap opts,
     CleanupInterval = co_CleanupTime opts, OnEvicted = co_OnEvicted opts\<rparr>"

subsection \<open>Sections of the calls\<close>

text \<open>
  The calls; the clock readings of the store come with the call, and for
  \<open>AddWithExpiration\<close> also the reading of \<open>time.Until\<close>.
\<close>

datatype call =
    CGet clk key
  | CAdd clk key byteview
  | CAddExp clk int key byteview int
  | CDelete key
  | CLen
  | CClear
  | CClose

datatype result = RGet byteview bool | RUnit | RBool bool | RLen nat

datatype pc =
    Load_closed
  | Load_init
  | Ensure_closed
  | Ensure_init
  | Ensure_lock
  | Check_time
  | Locked
  | Return result

type_synonym section_result = "(pc \<times> Cache) option"

text \<open>A call on the interface value \<open>c.store\<close>: a nil interface panics.\<close>

definition on_store :: "store_op \<Rightarrow> Cache \<Rightarrow> (store_out \<times> Cache) option" where
  "on_store x c =
     do { st \<leftarrow> c_store c;
          (out, st') \<leftarrow> store_step x st;
          Some (out, c\<lparr>c_store := Some st'\<rparr>) }"

text \<open>\<open>ensureInitialized\<close>; \<open>next\<close> is where the caller goes on.\<close>

fun ensureInitialized :: "pc \<Rightarrow> pc \<Rightarrow> Cache \<Rightarrow> section_result" where
  "ensureInitialized next Ensure_closed c = Some (if c_closed c then next else Ensure_init, c)"
| "ensureInitialized next Ensure_init c = Some (if c_initialized c then next else Ensure_lock, c)"
| "ensureInitialized next Ensure_lock c =
     (if c_closed c then Some (next, c)
      else if \<not> c_initialized c then
        Some (next, c\<lparr>c_store := Some (NewStore (co_CacheType (c_opts c)) (store_options (c_opts c))),
                      c_initialized := True\<rparr>)
      else Some (next, c))"
| "ensureInitialized next pc c = Some (pc, c)"

abbreviation empty_view :: byteview where "empty_view \<equiv> ByteView []"

fun Cache_Get :: "clk \<Rightarrow> key \<Rightarrow> pc \<Rightarrow> Cache \<Rightarrow> section_result" where
  "Cache_Get t k Load_closed c =
     Some (if c_closed c then Return (RGet empty_view False) else Load_init, c)"
| "Cache_Get t k Load_init c =
     (if \<not> c_initialized c
      then Some (Return (RGet empty_view False), c\<lparr>c_misses := c_misses c + 1\<rparr>)
      else Some (Locked, c))"
| "Cache_Get t k Locked c =
     (if c_closed c then Some (Return (RGet empty_view False), c)
      else
        do { (out, c) \<leftarrow> on_store (OpGet t k) c;
             (case out of
                OVal val found \<Rightarrow>
                  if \<not> found then Some (Return (RGet empty_view False), c\<lparr>c_misses := c_misses c + 1\<rparr>)
                  else
                    let c = c\<lparr>c_hits := c_hits c + 1\<rparr> in
                    (case val of
                       Some (BV bv) \<Rightarrow> Some (Return (RGet bv True), c)
                     | _ \<Rightarrow> Some (Return (RGet empty_view False), c\<lparr>c_misses := c_misses c + 1\<rparr>))
              | _ \<Rightarrow> None) })"
| "Cache_Get t k pc c = Some (pc, c)"

fun Cache_Add :: "clk \<Rightarrow> key \<Rightarrow> byteview \<Rightarrow> pc \<Rightarrow> Cache \<Rightarrow> section_result" where
  "Cache_Add t k v Load_closed c = Some (if c_closed c then Return RUnit else Ensure_closed, c)"
| "Cache_Add t k v Locked c =
     (if c_closed c then Some (Return RUnit, c)
      else do { (_, c) \<leftarrow> on_store (OpSet t k (Some (BV v)) 0) c; Some (Return RUnit, c) })"
| "Cache_Add t k v (Return r) c = Some (Return r, c)"
| "Cache_Add t k v pc c = ensureInitialized Locked pc c"

fun Cache_AddWithExpiration :: "clk \<Rightarrow> int \<Rightarrow> key \<Rightarrow> byteview \<Rightarrow> int \<Rightarrow> pc \<Rightarrow> Cache \<Rightarrow> section_result" where
  "Cache_AddWithExpiration t now k v expirationTime Load_closed c =
     Some (if c_closed c then Return RUnit else Ensure_closed, c)"
| "Cache_AddWithExpiration t now k v expirationTime Check_time c =
     Some (if expirationTime - now \<le> 0 then Return RUnit else Locked, c)"
| "Cache_AddWithExpiration t now k v expirationTime Locked c =
     (if c_closed c then Some (Return RUnit, c)
      else do { (_, c) \<leftarrow> on_store (OpSet t k (Some (BV v)) (expirationTime - now)) c;
                Some (Return RUnit, c) })"
| "Cache_AddWithExpiration t now k v expirationTime (Return r) c = Some (Return r, c)"
| "Cache_AddWithExpiration t now k v expirationTime pc c = ensureInitialized Check_time pc c"

fun Cache_Delete :: "key \<Rightarrow> pc \<Rightarrow> Cache \<Rightarrow> section_result" where
  "Cache_Delete k Load_closed c = Some (if c_closed c then Return (RBool False) else Load_init, c)"
| "Cache_Delete k Load_init c = Some (if \<not> c_initialized c then Return (RBool False) else Locked, c)"
| "Cache_Delete k Locked c =
     (if c_closed c then Some (Return (RBool False), c)
      else do { (out, c) \<leftarrow> on_store (OpDelete k) c;
                (case out of OBool b \<Rightarrow> Some (Return (RBool b), c) | _ \<Rightarrow> None) })"
| "Cache_Delete k pc c = Some (pc, c)"

fun Cache_Len :: "pc \<Rightarrow> Cache \<Rightarrow> section_result" where
  "Cache_Len Load_closed c = Some (if c_closed c then Return (RLen 0) else Load_init, c)"
| "Cache_Len Load_init c = Some (if \<not> c_initialized c then Return (RLen 0) else Locked, c)"
| "Cache_Len Locked c =
     (if c_closed c then Some (Return (RLen 0), c)
      else do { (out, c) \<leftarrow> on_store OpLen c;
                (case out of OLen n \<Rightarrow> Some (Return (RLen n), c) | _ \<Rightarrow> None) })"
| "Cache_Len pc c = Some (pc, c)"

fun Cache_Clear :: "pc \<Rightarrow> Cache \<Rightarrow> section_result" where
  "Cache_Clear Load_closed c = Some (if c_closed c then Return RUnit else Load_init, c)"
| "Cache_Clear Load_init c = Some (if \<not> c_initialized c then Return RUnit else Locked, c)"
| "Cache_Clear Locked c =
     (if c_closed c then Some (Return RUnit, c)
      else do { (_, c) \<leftarrow> on_store OpClear c; Some (Return RUnit, c\<lparr>c_hits := 0, c_misses := 0\<rparr>) })"
| "Cache_Clear pc c = Some (pc, c)"

text \<open>\<open>Close\<close>: the first section is the compare-and-swap.\<close>

fun Cache_Close :: "pc \<Rightarrow> Cache \<Rightarrow> section_result" where
  "Cache_Close Load_closed c =
     (if c_closed c then Some (Return RUnit, c) else Some (Locked, c\<lparr>c_closed := True\<rparr>))"
| "Cache_Close Locked c =
     (case c_store c of
        None \<Rightarrow> Some (Return RUnit, c\<lparr>c_initialized := False\<rparr>)
      | Some st \<Rightarrow>
          do { _ \<leftarrow> store_Close st;
               Some (Return RUnit, c\<lparr>c_store := None, c_initialized := False\<rparr>) })"
| "Cache_Close pc c = Some (pc, c)"

fun cache_section :: "call \<Rightarrow> pc \<Rightarrow> Cache \<Rightarrow> section_result" where
  "cache_section (CGet t k) pc c = Cache_Get t k pc c"
| "cache_section (CAdd t k v) pc c = Cache_Add t k v pc c"
| "cache_section (CAddExp t now k v e) pc c = Cache_AddWithExpiration t now k v e pc c"
| "cache_section (CDelete k) pc c = Cache_Delete k pc c"
| "cache_section CLen pc c = Cache_Len pc c"
| "cache_section CClear pc c = Cache_Clear pc c"
| "cache_section CClose pc c = Cache_Close pc c"

text \<open>
  A call that runs alone: its sections in order.  No call has more than seven, so the fuel is
  enough (\<open>cache_call_total\<close>).
\<close>

fun run_sections :: "nat \<Rightarrow> call \<Rightarrow> pc \<Rightarrow> Cache \<Rightarrow> (result \<times> Cache) option" where
  "run_sections 0 x pc c = None"
| "run_sections (Suc n) x pc c =
     (case pc of
        Return r \<Rightarrow> Some (r, c)
      | _ \<Rightarrow> do { (pc', c') \<leftarrow> cache_section x pc c; run_sections n x pc' c' })"

definition cache_call :: "call \<Rightarrow> Cache \<Rightarrow> (result \<times> Cache) option" where
  "cache_call x c = run_sections 8 x Load_closed c"

text \<open>\<open>Stats\<close>: the counters, and the size and the hit rate of an initialized cache.\<close>

record CacheStats =
  cs_initialized :: bool
  cs_closed :: bool
  cs_hits :: int
  cs_misses :: int
  cs_size :: "nat option"
  cs_hit_rate :: "(int \<times> int) option"

text \<open>
  The hit rate is the quotient of its two components, and \<open>0.0\<close> is \<open>(0, 1)\<close>.
\<close>

definition Cache_Stats :: "Cache \<Rightarrow> CacheStats option" where
  "Cache_Stats c =
     (if c_initialized c then
        do { (r, _) \<leftarrow> cache_call CLen c;
             let total = c_hits c + c_misses c;
             Some \<lparr>cs_initialized = True, cs_closed = c_closed c, cs_hits = c_hits c, cs_misses = c_misses c,
                   cs_size = (case r of RLen n \<Rightarrow> Some n | _ \<Rightarrow> None),
                   cs_hit_rate = Some (if total > 0 then (c_hits c, total) else (0, 1))\<rparr> }
      else Some \<lparr>cs_initialized = False, cs_closed = c_closed c, cs_hits = c_hits c, cs_misses = c_misses c,
                 cs_size = None, cs_hit_rate = None\<rparr>)"

end
