(* ===== verification/Cache_Correct.thy ===== *)
theory Cache_Correct
  imports Cache_Layer
begin

text \<open>
  \<open>cache.go\<close>: the concurrent executions of the calls of a \<open>Cache\<close>, the invariant that keeps
  \<open>c.store\<close> non-nil where it is used, and what sequential calls answer.  The sections under
  the read lock are taken as atomic: each makes one call on the store, which synchronises
  itself.
\<close>

subsection \<open>Invariant\<close>

definition store_ok :: "Store \<Rightarrow> bool" where
  "store_ok st \<longleftrightarrow> store_inv st \<and> \<not> store_closed st \<and> (\<forall>k. store_held st k \<subseteq> range BV)"

definition cache_inv :: "Cache \<Rightarrow> bool" where
  "cache_inv c \<longleftrightarrow>
     (\<forall>st. c_store c = Some st \<longrightarrow> store_ok st) \<and> (c_initialized c \<longleftrightarrow> c_store c \<noteq> None)
     \<and> store_options_ok (co_CacheType (c_opts c)) (store_options (c_opts c))"

text \<open>What a thread knows at a section.\<close>

definition thread_ok :: "call \<Rightarrow> pc \<Rightarrow> Cache \<Rightarrow> bool" where
  "thread_ok x pc c \<longleftrightarrow>
     (x = CClose \<and> pc = Locked \<longrightarrow> c_closed c)
     \<and> (x \<noteq> CClose \<and> (pc = Locked \<or> pc = Check_time) \<longrightarrow> c_closed c \<or> c_store c \<noteq> None)"

text \<open>What every section leaves true for the other threads.\<close>

definition cache_mono :: "Cache \<Rightarrow> Cache \<Rightarrow> bool" where
  "cache_mono c c' \<longleftrightarrow>
     (c_closed c \<longrightarrow> c_closed c') \<and> (c_store c \<noteq> None \<longrightarrow> c_closed c' \<or> c_store c' \<noteq> None)"

lemma thread_ok_mono: "thread_ok x pc c \<Longrightarrow> cache_mono c c' \<Longrightarrow> thread_ok x pc c'"
  by (auto simp: thread_ok_def cache_mono_def)

lemma store_ok_step:
  assumes "store_ok st" and "\<And>t k v d. x = OpSet t k (Some v) d \<Longrightarrow> v \<in> range BV"
  shows "\<exists>out st'. store_step x st = Some (out, st') \<and> store_ok st'"
proof -
  obtain out st' where st': "store_step x st = Some (out, st')" "store_inv st'"
    using store.step_total [of st x] assms(1) by (auto simp: store_ok_def)
  moreover have "store_held st' k \<subseteq> range BV" for k
    using store.held_range [OF _ st'(1), of "range BV" k] assms by (auto simp: store_ok_def)
  ultimately show ?thesis
    using store_step_open [OF st'(1)] assms(1) by (auto simp: store_ok_def)
qed

lemma on_store_ok:
  assumes inv: "cache_inv c" and "c_store c \<noteq> None"
    and "\<And>t k v d. x = OpSet t k (Some v) d \<Longrightarrow> v \<in> range BV"
  shows "\<exists>out st'. on_store x c = Some (out, c\<lparr>c_store := Some st'\<rparr>) \<and> store_ok st'
    \<and> (\<exists>st. c_store c = Some st \<and> store_step x st = Some (out, st'))"
proof -
  obtain st where st: "c_store c = Some st" using assms(2) by blast
  with inv have ok: "store_ok st" by (simp add: cache_inv_def)
  have "\<exists>out st'. store_step x st = Some (out, st') \<and> store_ok st'"
    by (rule store_ok_step [OF ok]) (rule assms(3))
  then obtain out st' where "store_step x st = Some (out, st')" "store_ok st'" by blast
  with st show ?thesis by (simp add: on_store_def)
qed

lemma cache_inv_store:
  "cache_inv c \<Longrightarrow> c_store c \<noteq> None \<Longrightarrow> store_ok st' \<Longrightarrow> cache_inv (c\<lparr>c_store := Some st'\<rparr>)"
  by (simp add: cache_inv_def)

lemma cache_inv_counts [simp]:
  "cache_inv (c\<lparr>c_hits := h\<rparr>) = cache_inv c" "cache_inv (c\<lparr>c_misses := m\<rparr>) = cache_inv c"
  "cache_inv (c\<lparr>c_closed := b\<rparr>) = cache_inv c"
  by (simp_all add: cache_inv_def)

lemma store_out_shape:
  assumes "store_step x st = Some (out, st')"
  shows "\<And>t k. x = OpGet t k \<Longrightarrow> \<exists>v ok. out = OVal v ok" "\<And>k. x = OpDelete k \<Longrightarrow> \<exists>b. out = OBool b"
    "x = OpLen \<Longrightarrow> \<exists>n. out = OLen n"
  using assms by (cases st; auto simp: Let_def split: prod.splits)+

lemma new_store_ok:
  "store_options_ok ct opts \<Longrightarrow> store_ok (NewStore ct opts)"
  using new_store [of ct opts] by (simp add: store_ok_def)

text \<open>The sections of one call.\<close>

definition section_ok :: "call \<Rightarrow> pc \<Rightarrow> Cache \<Rightarrow> bool" where
  "section_ok x pc c \<longleftrightarrow>
     (\<exists>pc' c'. cache_section x pc c = Some (pc', c') \<and> cache_inv c' \<and> thread_ok x pc' c' \<and> cache_mono c c')"

lemma section_okI:
  "cache_section x pc c = Some (pc', c') \<Longrightarrow> cache_inv c' \<Longrightarrow> thread_ok x pc' c' \<Longrightarrow> cache_mono c c' \<Longrightarrow> section_ok x pc c"
  by (auto simp: section_ok_def)

lemmas section_defs = thread_ok_def cache_mono_def

lemma ensure_ok:
  assumes "cache_inv c" and "next = Locked \<or> next = Check_time"
    and "pc \<in> {Ensure_closed, Ensure_init, Ensure_lock}" and "x \<noteq> CClose"
  shows "\<exists>pc' c'. ensureInitialized next pc c = Some (pc', c') \<and> cache_inv c' \<and> thread_ok x pc' c' \<and> cache_mono c c'"
  using assms new_store_ok by (auto simp: section_defs cache_inv_def)

lemma get_ok:
  assumes inv: "cache_inv c" and th: "thread_ok (CGet t k) Locked c"
  shows "section_ok (CGet t k) Locked c"
proof (cases "c_closed c")
  case True
  then show ?thesis using inv by (intro section_okI) (auto simp: section_defs)
next
  case False
  then have "c_store c \<noteq> None" using th by (simp add: thread_ok_def)
  from on_store_ok [OF inv this, of "OpGet t k"] obtain out st st' where
      st: "on_store (OpGet t k) c = Some (out, c\<lparr>c_store := Some st'\<rparr>)" "store_ok st'" "store_step (OpGet t k) st = Some (out, st')"
    by auto
  obtain v ok where "out = OVal v ok" using store_out_shape(1) [OF st(3)] by blast
  with st(1) cache_inv_store [OF inv \<open>c_store c \<noteq> None\<close> st(2)] False show ?thesis
    by (cases ok) (auto simp: section_ok_def section_defs Let_def split: option.split svalue.split)
qed

lemma store_section_ok:
  assumes inv: "cache_inv c" and st: "c_closed c \<or> c_store c \<noteq> None" and x: "x \<noteq> CGet t k" "x \<noteq> CClose"
    and x': "\<And>t k. x \<noteq> CGet t k"
  shows "section_ok x Locked c"
proof (cases "c_closed c")
  case True
  then show ?thesis using inv x x' by (cases x) (auto simp: section_ok_def section_defs)
next
  case False
  with st have ne: "c_store c \<noteq> None" by simp
  note run = on_store_ok [OF inv ne] and keep = cache_inv_store [OF inv ne]
  show ?thesis
  proof (cases x)
    case (CAdd t k v)
    then show ?thesis using run [of "OpSet t k (Some (BV v)) 0"] keep False
      by (auto simp: section_ok_def section_defs)
  next
    case (CAddExp t now k v e)
    then show ?thesis using run [of "OpSet t k (Some (BV v)) (e - now)"] keep False
      by (auto simp: section_ok_def section_defs)
  next
    case (CDelete k)
    from run [of "OpDelete k"] obtain out st st' where
      st: "on_store (OpDelete k) c = Some (out, c\<lparr>c_store := Some st'\<rparr>)" "store_ok st'" "store_step (OpDelete k) st = Some (out, st')"
      by auto
    obtain b where "out = OBool b" using store_out_shape(2) [OF st(3)] by blast
    with CDelete st keep False show ?thesis by (auto simp: section_ok_def section_defs)
  next
    case CLen
    from run [of OpLen] obtain out st st' where
      st: "on_store OpLen c = Some (out, c\<lparr>c_store := Some st'\<rparr>)" "store_ok st'" "store_step OpLen st = Some (out, st')"
      by auto
    obtain n where "out = OLen n" using store_out_shape(3) [OF st(3)] by blast
    with CLen st keep False show ?thesis by (auto simp: section_ok_def section_defs)
  next
    case CClear
    then show ?thesis using run [of OpClear] keep False
      by (auto simp: section_ok_def section_defs)
  qed (use x x' in auto)
qed

lemma close_ok:
  assumes inv: "cache_inv c" and th: "thread_ok CClose Locked c"
  shows "section_ok CClose Locked c"
proof (cases "c_store c")
  case None
  then show ?thesis using inv th by (auto simp: section_ok_def section_defs cache_inv_def)
next
  case (Some st)
  then have "\<not> store_closed st" using inv by (simp add: cache_inv_def store_ok_def)
  from store_Close_total [OF this] Some inv th show ?thesis
    by (auto simp: section_ok_def section_defs cache_inv_def)
qed

lemma cache_section_ok:
  assumes inv: "cache_inv c" and th: "thread_ok x pc c"
  shows "section_ok x pc c"
proof (cases "pc = Locked")
  case True
  show ?thesis
  proof (cases x)
    case (CGet t k) then show ?thesis using get_ok [OF inv] th True by simp
  next
    case CClose then show ?thesis using close_ok [OF inv] th True by simp
  qed (use store_section_ok [OF inv] th True in \<open>auto simp: thread_ok_def\<close>)
next
  case False
  show ?thesis
  proof (cases "pc \<in> {Ensure_closed, Ensure_init, Ensure_lock} \<and> (\<exists>t k v. x = CAdd t k v)
      \<or> pc \<in> {Ensure_closed, Ensure_init, Ensure_lock} \<and> (\<exists>t n k v e. x = CAddExp t n k v e)")
    case True
    then show ?thesis
      using ensure_ok [OF inv, of Locked pc x] ensure_ok [OF inv, of Check_time pc x]
      by (auto simp: section_ok_def)
  next
    case other: False
    with False inv th show ?thesis
      by (cases x; cases pc) (auto simp: section_ok_def section_defs cache_inv_def)
  qed
qed

subsection \<open>Concurrent executions\<close>

text \<open>
  Threads start a call, run one section, or return; a round of the store's cleanup goroutine
  may come at any moment.
\<close>

type_synonym threads = "nat \<Rightarrow> (call \<times> pc) option"

inductive cache_step :: "Cache \<times> threads \<Rightarrow> Cache \<times> threads \<Rightarrow> bool" where
  call_start: "ts i = None \<Longrightarrow> cache_step (c, ts) (c, ts(i \<mapsto> (x, Load_closed)))"
| call_section: "ts i = Some (x, pc) \<Longrightarrow> (\<And>r. pc \<noteq> Return r) \<Longrightarrow> cache_section x pc c = Some (pc', c')
    \<Longrightarrow> cache_step (c, ts) (c', ts(i \<mapsto> (x, pc')))"
| call_return: "ts i = Some (x, Return r) \<Longrightarrow> cache_step (c, ts) (c, ts(i := None))"
| store_cleanup: "c_store c = Some st \<Longrightarrow> store_step (OpTick now) st = Some (out, st')
    \<Longrightarrow> cache_step (c, ts) (c\<lparr>c_store := Some st'\<rparr>, ts)"

inductive_cases cache_stepE: "cache_step (c, ts) (c', ts')"

definition cache_start :: "CacheOptions \<Rightarrow> Cache \<times> threads" where
  "cache_start opts = (NewCache opts, \<lambda>_. None)"

definition conf_ok :: "Cache \<times> threads \<Rightarrow> bool" where
  "conf_ok q \<longleftrightarrow> cache_inv (fst q) \<and> (\<forall>i x pc. snd q i = Some (x, pc) \<longrightarrow> thread_ok x pc (fst q))"

lemma conf_ok_start:
  "store_options_ok (co_CacheType opts) (store_options opts) \<Longrightarrow> conf_ok (cache_start opts)"
  by (simp add: conf_ok_def cache_start_def cache_inv_def NewCache_def)

lemma cleanup_ok:
  assumes "cache_inv c" and "c_store c = Some st" and "store_step (OpTick now) st = Some (out, st')"
  shows "cache_inv (c\<lparr>c_store := Some st'\<rparr>) \<and> cache_mono c (c\<lparr>c_store := Some st'\<rparr>)"
proof -
  have "store_ok st" using assms by (simp add: cache_inv_def)
  from store_ok_step [OF this, of "OpTick now"] assms(3) have "store_ok st'" by auto
  with assms show ?thesis by (simp add: cache_inv_def cache_mono_def)
qed

lemma conf_ok_step:
  assumes "cache_step q q'" and "conf_ok q"
  shows "conf_ok q' \<and> cache_mono (fst q) (fst q')"
  using assms
proof (induction rule: cache_step.induct)
  case (call_start ts i c x)
  then show ?case by (auto simp: conf_ok_def cache_mono_def thread_ok_def)
next
  case (call_section ts i x pc c pc' c')
  from call_section.prems have inv: "cache_inv c" and th: "\<And>j y p. ts j = Some (y, p) \<Longrightarrow> thread_ok y p c"
    by (auto simp: conf_ok_def)
  from cache_section_ok [OF inv th [OF call_section.hyps(1)]] call_section.hyps(3)
  have *: "cache_inv c'" "thread_ok x pc' c'" "cache_mono c c'" by (auto simp: section_ok_def)
  then show ?case using th by (auto simp: conf_ok_def intro: thread_ok_mono)
next
  case (call_return ts i x r c)
  then show ?case by (auto simp: conf_ok_def cache_mono_def)
next
  case (store_cleanup c st now out st' ts)
  then have "cache_inv c" by (simp add: conf_ok_def)
  from cleanup_ok [OF this store_cleanup.hyps] store_cleanup.prems show ?case
    by (auto simp: conf_ok_def intro: thread_ok_mono)
qed

lemma conf_ok_reach:
  assumes "cache_step\<^sup>*\<^sup>* q q'" and "conf_ok q"
  shows "conf_ok q' \<and> cache_mono (fst q) (fst q')"
  using assms
proof (induction rule: rtranclp_induct)
  case base
  then show ?case by (simp add: cache_mono_def)
next
  case (step y z)
  then show ?case using conf_ok_step [of y z] by (auto simp: cache_mono_def)
qed

subsection \<open>Calls that run alone\<close>

lemma locked_returns:
  "cache_section x Locked c = Some (pc', c') \<Longrightarrow> \<exists>r. pc' = Return r"
  by (cases x) (auto simp: Let_def split: if_splits Option.bind_splits store_out.splits option.splits svalue.splits)

text \<open>The state a call is in when it reaches its last section.\<close>

definition initialize :: "Cache \<Rightarrow> Cache" where
  "initialize c =
     (if c_initialized c then c
      else c\<lparr>c_store := Some (NewStore (co_CacheType (c_opts c)) (store_options (c_opts c))), c_initialized := True\<rparr>)"

lemma initialize_inv: "cache_inv c \<Longrightarrow> cache_inv (initialize c) \<and> c_store (initialize c) \<noteq> None"
  using new_store_ok by (auto simp: initialize_def cache_inv_def)

lemma initialize_simps [simp]: "c_closed (initialize c) = c_closed c" "c_hits (initialize c) = c_hits c"
    "c_misses (initialize c) = c_misses c"
  by (simp_all add: initialize_def)

text \<open>What remains of a call at its last section.\<close>

definition last_section :: "call \<Rightarrow> Cache \<Rightarrow> (result \<times> Cache) option" where
  "last_section x c =
     (case cache_section x Locked c of Some (Return r, c') \<Rightarrow> Some (r, c') | _ \<Rightarrow> None)"

fun closed_answer :: "call \<Rightarrow> result" where
  "closed_answer (CGet t k) = RGet empty_view False"
| "closed_answer (CDelete k) = RBool False"
| "closed_answer CLen = RLen 0"
| "closed_answer _ = RUnit"

fun is_write :: "call \<Rightarrow> bool" where
  "is_write (CAdd t k v) = True"
| "is_write (CAddExp t now k v e) = True"
| "is_write _ = False"

lemma run_last:
  "run_sections (Suc (Suc n)) x Locked c = last_section x c"
  using locked_returns [of x c]
  by (auto simp: last_section_def split: Option.bind_splits option.split pc.split)

lemma run_at:
  "run_sections (Suc n) x Load_closed c = do { (pc, c) \<leftarrow> cache_section x Load_closed c; run_sections n x pc c }"
  "run_sections (Suc n) x Load_init c = do { (pc, c) \<leftarrow> cache_section x Load_init c; run_sections n x pc c }"
  "run_sections (Suc n) x Ensure_closed c = do { (pc, c) \<leftarrow> cache_section x Ensure_closed c; run_sections n x pc c }"
  "run_sections (Suc n) x Ensure_init c = do { (pc, c) \<leftarrow> cache_section x Ensure_init c; run_sections n x pc c }"
  "run_sections (Suc n) x Ensure_lock c = do { (pc, c) \<leftarrow> cache_section x Ensure_lock c; run_sections n x pc c }"
  "run_sections (Suc n) x Check_time c = do { (pc, c) \<leftarrow> cache_section x Check_time c; run_sections n x pc c }"
  "run_sections (Suc n) x (Return r) c = Some (r, c)"
  by simp_all

declare run_sections.simps [simp del]

lemma cache_call_unfold:
  "cache_call x c = run_sections (Suc (Suc (Suc (Suc (Suc (Suc (Suc (Suc 0)))))))) x Load_closed c"
  by (simp add: cache_call_def numeral_eq_Suc)

text \<open>A call that runs alone, section by section.\<close>

lemma call_closed: "c_closed c \<Longrightarrow> cache_call x c = Some (closed_answer x, c)"
  by (cases x) (simp_all add: cache_call_unfold run_at)

lemma call_write:
  assumes "\<not> c_closed c" and "is_write x" and "\<And>t n k v e. x = CAddExp t n k v e \<Longrightarrow> n < e"
  shows "cache_call x c = last_section x (initialize c)"
  using assms by (cases x) (auto simp: cache_call_unfold run_at run_last initialize_def)

lemma call_write_late:
  "\<not> c_closed c \<Longrightarrow> e \<le> n \<Longrightarrow> cache_call (CAddExp t n k v e) c = Some (RUnit, initialize c)"
  by (auto simp: cache_call_unfold run_at run_last initialize_def)

lemma call_read:
  assumes "\<not> c_closed c" and "\<not> is_write x" and "x \<noteq> CClose"
  shows "cache_call x c =
    (if c_initialized c then last_section x c
     else Some (closed_answer x, case x of CGet t k \<Rightarrow> c\<lparr>c_misses := c_misses c + 1\<rparr> | _ \<Rightarrow> c))"
  using assms by (cases x) (auto simp: cache_call_unfold run_at run_last)

lemma call_close: "\<not> c_closed c \<Longrightarrow> cache_call CClose c = last_section CClose (c\<lparr>c_closed := True\<rparr>)"
  by (simp add: cache_call_unfold run_at run_last)

lemma last_section_ok:
  assumes "cache_inv c" and "thread_ok x Locked c"
  shows "\<exists>r c'. last_section x c = Some (r, c') \<and> cache_inv c' \<and> cache_mono c c'"
proof -
  obtain pc' c' where 1: "cache_section x Locked c = Some (pc', c')" "cache_inv c'" "cache_mono c c'"
    using cache_section_ok [OF assms] by (auto simp: section_ok_def)
  obtain r where "pc' = Return r" using locked_returns [OF 1(1)] by blast
  with 1 show ?thesis by (simp add: last_section_def)
qed

lemma cache_call_ok:
  assumes inv: "cache_inv c"
  shows "\<exists>r c'. cache_call x c = Some (r, c') \<and> cache_inv c' \<and> cache_mono c c'"
proof (cases "c_closed c")
  case True
  then show ?thesis using call_closed [OF True, of x] inv by (simp add: cache_mono_def)
next
  case False
  note i = initialize_inv [OF inv]
  consider "x = CClose" | "is_write x" "\<And>t n k v e. x = CAddExp t n k v e \<Longrightarrow> n < e"
    | t n k v e where "x = CAddExp t n k v e" "e \<le> n" | "x \<noteq> CClose" "\<not> is_write x"
    by (cases x) force+
  then show ?thesis
  proof cases
    case 1
    have "thread_ok CClose Locked (c\<lparr>c_closed := True\<rparr>)" by (simp add: thread_ok_def)
    with last_section_ok [of "c\<lparr>c_closed := True\<rparr>" CClose] inv False 1 call_close [OF False]
    show ?thesis by (auto simp: cache_mono_def)
  next
    case 2
    have "thread_ok x Locked (initialize c)" using i 2 by (auto simp: thread_ok_def)
    with last_section_ok [of "initialize c" x] i call_write [OF False 2] False
    show ?thesis by (auto simp: cache_mono_def)
  next
    case 3
    then show ?thesis using call_write_late [OF False] i False by (auto simp: cache_mono_def)
  next
    case 4
    show ?thesis
    proof (cases "c_initialized c")
      case True
      then have "thread_ok x Locked c" using inv 4 by (simp add: thread_ok_def cache_inv_def)
      with last_section_ok [OF inv] True call_read [OF False 4(2,1)] show ?thesis by auto
    next
      case no: False
      then show ?thesis using call_read [OF False 4(2,1)] inv
        by (cases x) (simp_all add: cache_mono_def)
    qed
  qed
qed

end
