(* ===== verification/Cache_Props.thy ===== *)
theory Cache_Props
  imports Cache_Correct
begin

text \<open>
  The properties of \<open>cache.go\<close>: no execution dereferences a nil store, the store is made at
  most once, a closed cache stays closed, the counters count, and a read answers with what
  was written.
\<close>

subsection \<open>Concurrent calls\<close>

text \<open>
  C3. In every interleaving of any number of calls of a new cache (with cleanup rounds in
  between) no section dereferences the nil store or panics: the checks of \<open>closed\<close> under
  the lock close the window that \<open>Close\<close> opens.
\<close>

theorem cache_never_panics:
  assumes "store_options_ok (co_CacheType opts) (store_options opts)"
    and "cache_step\<^sup>*\<^sup>* (cache_start opts) (c, ts)" and "ts i = Some (x, pc)"
  shows "\<exists>pc' c'. cache_section x pc c = Some (pc', c')"
proof -
  have "conf_ok (c, ts)" using conf_ok_reach [OF assms(2) conf_ok_start [OF assms(1)]] by simp
  then have "cache_inv c" "thread_ok x pc c" using assms(3) by (auto simp: conf_ok_def)
  from cache_section_ok [OF this] show ?thesis by (auto simp: section_ok_def)
qed

lemma default_options_ok: "store_options_ok (co_CacheType DefaultCacheOptions) (store_options DefaultCacheOptions)"
  by (simp add: DefaultCacheOptions_def store_options_def store_options_ok_def lru2_options_ok_def)

theorem cache_never_panics_witness:
  "\<exists>pc' c'. cache_section CLen Load_closed (NewCache DefaultCacheOptions) = Some (pc', c')"
proof -
  have "cache_step (cache_start DefaultCacheOptions)
      (NewCache DefaultCacheOptions, (\<lambda>_. None)(0 \<mapsto> (CLen, Load_closed)))"
    unfolding cache_start_def by (rule call_start) simp
  from cache_never_panics [OF default_options_ok r_into_rtranclp [where r = cache_step, OF this],
      of 0 CLen Load_closed] show ?thesis by simp
qed

lemma on_storeD:
  "on_store y c = Some (out, c1) \<Longrightarrow>
   \<exists>st st'. c_store c = Some st \<and> store_step y st = Some (out, st') \<and> c1 = c\<lparr>c_store := Some st'\<rparr>"
  by (auto simp: on_store_def split: Option.bind_splits)

text \<open>How one section may change the store: not at all, by one call on it, by dropping it.\<close>

definition store_kept :: "Cache \<Rightarrow> Cache \<Rightarrow> bool" where
  "store_kept c c' \<longleftrightarrow>
     (\<forall>st. c_store c = Some st \<longrightarrow>
        c_store c' \<in> {None, Some st} \<or> (\<exists>y out st'. store_step y st = Some (out, st') \<and> c_store c' = Some st'))"

lemma section_store_kept:
  assumes "cache_section x pc c = Some (pc', c')" and "cache_inv c"
  shows "store_kept c c' \<and> (c_store c = None \<and> c_closed c \<longrightarrow> c_store c' = None)"
proof (cases "pc = Locked")
  case True
  with assms show ?thesis
    by (cases x) (auto simp: store_kept_def Let_def dest!: on_storeD
        split: if_splits Option.bind_splits store_out.splits option.splits svalue.splits)
next
  case False
  with assms show ?thesis
    by (cases x; cases pc) (auto simp: store_kept_def cache_inv_def split: if_splits)
qed

text \<open>
  The store is made at most once: in every execution, a store that is there is only
  changed by its own calls or dropped by \<open>Close\<close>, and a closed cache without a store never
  gets one again.
\<close>

theorem cache_store_made_once:
  assumes "store_options_ok (co_CacheType opts) (store_options opts)"
    and "cache_step\<^sup>*\<^sup>* (cache_start opts) (c, ts)" and "cache_step (c, ts) (c', ts')"
  shows "store_kept c c' \<and> (c_store c = None \<and> c_closed c \<longrightarrow> c_store c' = None)"
proof -
  have "conf_ok (c, ts)" using conf_ok_reach [OF assms(2) conf_ok_start [OF assms(1)]] by simp
  then have inv: "cache_inv c" by (simp add: conf_ok_def)
  show ?thesis
    using assms(3)
  proof (cases rule: cache_step.cases)
    case (call_section i x pc pc')
    then show ?thesis using section_store_kept [OF _ inv] by blast
  qed (auto simp: store_kept_def)
qed

theorem cache_store_made_once_witness:
  "store_kept (NewCache DefaultCacheOptions) (NewCache DefaultCacheOptions)"
proof -
  have "cache_step (NewCache DefaultCacheOptions, \<lambda>_. None)
      (NewCache DefaultCacheOptions, (\<lambda>_. None)(0 \<mapsto> (CLen, Load_closed)))"
    by (rule call_start) simp
  moreover have "cache_step\<^sup>*\<^sup>* (cache_start DefaultCacheOptions) (NewCache DefaultCacheOptions, \<lambda>_. None)"
    by (simp add: cache_start_def)
  ultimately show ?thesis using cache_store_made_once [OF default_options_ok] by blast
qed

subsection \<open>Sequential calls\<close>

lemma new_cache_inv: "store_options_ok (co_CacheType opts) (store_options opts) \<Longrightarrow> cache_inv (NewCache opts)"
  by (simp add: cache_inv_def NewCache_def)

lemma close_effect:
  assumes "cache_inv c" and "\<not> c_closed c"
  shows "cache_call CClose c = Some (RUnit, c\<lparr>c_store := None, c_initialized := False, c_closed := True\<rparr>)"
proof (cases "c_store c")
  case None
  then show ?thesis by (simp add: call_close [OF assms(2)] last_section_def)
next
  case (Some st)
  then obtain st' where "store_Close st = Some st'"
    using assms(1) store_Close_total [of st] by (auto simp: cache_inv_def store_ok_def)
  with Some show ?thesis by (simp add: call_close [OF assms(2)] last_section_def)
qed

text \<open>
  \<open>Close\<close> releases the store, and every later call, another \<open>Close\<close> included, returns
  its neutral answer without changing anything.
\<close>

theorem cache_close_is_final:
  assumes "cache_inv c"
  shows "\<exists>c'. cache_call CClose c = Some (RUnit, c') \<and> c_closed c'
    \<and> (\<not> c_closed c \<longrightarrow> c_store c' = None) \<and> (\<forall>x. cache_call x c' = Some (closed_answer x, c'))"
proof (cases "c_closed c")
  case True
  then show ?thesis using call_closed [OF True] by simp
next
  case False
  then show ?thesis using close_effect [OF assms False] call_closed by simp
qed

theorem cache_close_is_final_witness:
  "\<exists>c'. cache_call CClose (NewCache DefaultCacheOptions) = Some (RUnit, c')
     \<and> cache_call (CGet (0, 0) ''k'') c' = Some (RGet (ByteView []) False, c')"
  using cache_close_is_final [OF new_cache_inv [OF default_options_ok]] by fastforce

lemma get_answer:
  assumes inv: "cache_inv c" and opn: "\<not> c_closed c" and call: "cache_call (CGet t k) c = Some (r, c')"
  shows "(\<exists>v. r = RGet v True \<and> c_hits c' = c_hits c + 1 \<and> c_misses c' = c_misses c
        \<and> (\<exists>st. c_store c = Some st \<and> BV v \<in> store_held st k))
    \<or> (r = RGet empty_view False \<and> c_misses c' = c_misses c + 1)"
proof (cases "c_initialized c")
  case False
  then show ?thesis using call call_read [OF opn, of "CGet t k"] by auto
next
  case True
  then have ne: "c_store c \<noteq> None" using inv by (simp add: cache_inv_def)
  obtain out st st' where st: "on_store (OpGet t k) c = Some (out, c\<lparr>c_store := Some st'\<rparr>)"
      "c_store c = Some st" "store_step (OpGet t k) st = Some (out, st')"
    using on_store_ok [OF inv ne, of "OpGet t k"] by auto
  obtain v ok where out: "out = OVal v ok" using store_out_shape(1) [OF st(3)] by blast
  have "store_inv st" using inv st(2) by (simp add: cache_inv_def store_ok_def)
  then have held: "v = Some w \<Longrightarrow> w \<in> store_held st k" for w
    using store.get_held [of st t k w ok st'] st(3) out by simp
  from True call call_read [OF opn, of "CGet t k"] have "last_section (CGet t k) c = Some (r, c')" by simp
  then show ?thesis
    using st(1,2) out opn held
    by (auto simp: last_section_def Let_def split: if_splits option.splits svalue.splits)
qed

text \<open>
  Accounting: a \<open>Get\<close> on an open cache that finds a value adds one hit and no miss; one
  that does not adds one miss.
\<close>

theorem cache_get_counts:
  assumes "cache_inv c" and "\<not> c_closed c" and "cache_call (CGet t k) c = Some (RGet v ok, c')"
  shows "if ok then c_hits c' = c_hits c + 1 \<and> c_misses c' = c_misses c else c_misses c' = c_misses c + 1"
  using get_answer [OF assms] by auto

theorem cache_get_counts_witness:
  "\<exists>c'. cache_call (CGet (0, 0) ''k'') (NewCache DefaultCacheOptions) = Some (RGet (ByteView []) False, c')
     \<and> c_misses c' = 1"
proof -
  let ?c = "NewCache DefaultCacheOptions"
  have call: "cache_call (CGet (0, 0) ''k'') ?c = Some (RGet (ByteView []) False, ?c\<lparr>c_misses := 1\<rparr>)"
    using call_read [of ?c "CGet (0, 0) ''k''"] by (simp add: NewCache_def)
  have "\<not> c_closed ?c" by (simp add: NewCache_def)
  from cache_get_counts [OF new_cache_inv [OF default_options_ok] this call] call show ?thesis
    by (simp add: NewCache_def)
qed

subsection \<open>What a read may answer\<close>

text \<open>The values a run of calls may leave readable under a key.\<close>

fun call_keeps :: "call \<Rightarrow> key \<Rightarrow> byteview set \<Rightarrow> byteview set" where
  "call_keeps (CAdd t k' v) k H = (if k' = k then insert v H else H)"
| "call_keeps (CAddExp t now k' v e) k H = (if k' = k \<and> now < e then insert v H else H)"
| "call_keeps (CDelete k') k H = (if k' = k then {} else H)"
| "call_keeps CClear k H = {}"
| "call_keeps CClose k H = {}"
| "call_keeps _ k H = H"

definition cache_held :: "Cache \<Rightarrow> key \<Rightarrow> byteview set" where
  "cache_held c k = (if c_closed c then {} else
     (case c_store c of None \<Rightarrow> {} | Some st \<Rightarrow> {v. BV v \<in> store_held st k}))"

fun run_calls :: "call list \<Rightarrow> Cache \<Rightarrow> (result list \<times> Cache) option" where
  "run_calls [] c = Some ([], c)"
| "run_calls (x # xs) c =
     do { (r, c) \<leftarrow> cache_call x c; (rs, c) \<leftarrow> run_calls xs c; Some (r # rs, c) }"

definition store_call :: "call \<Rightarrow> store_op" where
  "store_call x =
     (case x of
        CGet t k \<Rightarrow> OpGet t k
      | CAdd t k v \<Rightarrow> OpSet t k (Some (BV v)) 0
      | CAddExp t now k v e \<Rightarrow> OpSet t k (Some (BV v)) (e - now)
      | CDelete k \<Rightarrow> OpDelete k
      | CLen \<Rightarrow> OpLen
      | _ \<Rightarrow> OpClear)"

lemma last_section_store:
  assumes "last_section x c = Some (r, c')" and "x \<noteq> CClose" and "\<not> c_closed c"
  shows "\<exists>st out st'. c_store c = Some st \<and> store_step (store_call x) st = Some (out, st') \<and> c_store c' = Some st'
    \<and> c_closed c' = c_closed c"
  using assms
  by (cases x) (auto simp: last_section_def store_call_def Let_def dest!: on_storeD
      split: option.splits pc.splits if_splits Option.bind_splits store_out.splits svalue.splits)

lemma held_initialize:
  assumes "cache_inv c"
  shows "cache_held (initialize c) k = cache_held c k"
proof -
  have "store_options_ok (co_CacheType (c_opts c)) (store_options (c_opts c))"
    using assms by (simp add: cache_inv_def)
  from new_store(2) [OF this, of k] assms show ?thesis
    by (auto simp: cache_held_def initialize_def cache_inv_def)
qed

lemma held_last_section:
  assumes inv: "cache_inv c" and call: "last_section x c = Some (r, c')" and x: "x \<noteq> CClose" and opn: "\<not> c_closed c"
    and late: "\<And>t n k v e. x = CAddExp t n k v e \<Longrightarrow> n < e"
  shows "cache_held c' k \<subseteq> call_keeps x k (cache_held c k)"
proof -
  obtain st out st' where st: "c_store c = Some st" "store_step (store_call x) st = Some (out, st')"
      "c_store c' = Some st'" "c_closed c' = c_closed c"
    using last_section_store [OF call x opn] by blast
  have "store_inv st" using inv st(1) by (simp add: cache_inv_def store_ok_def)
  from store.held_step [OF this st(2), of k]
  have "store_held st' k \<subseteq> keeps (store_call x) k (store_held st k)" .
  moreover have "BV v \<in> keeps (store_call x) k H \<Longrightarrow> v \<in> call_keeps x k {v. BV v \<in> H}" for v H
    using x late by (cases x) (auto simp: store_call_def split: if_splits)
  ultimately show ?thesis
    using st opn by (auto simp: cache_held_def)
qed

lemma held_call:
  assumes inv: "cache_inv c" and call: "cache_call x c = Some (r, c')"
  shows "cache_held c' k \<subseteq> call_keeps x k (cache_held c k)"
proof (cases "c_closed c")
  case True
  then show ?thesis using call call_closed [OF True, of x] by (auto simp: cache_held_def)
next
  case False
  consider "x = CClose" | "is_write x" "\<And>t n k v e. x = CAddExp t n k v e \<Longrightarrow> n < e"
    | t n k v e where "x = CAddExp t n k v e" "e \<le> n" | "x \<noteq> CClose" "\<not> is_write x"
    by (cases x) force+
  then show ?thesis
  proof cases
    case 1
    then show ?thesis using call close_effect [OF inv False] by (auto simp: cache_held_def)
  next
    case 2
    from 2(1) have "x \<noteq> CClose" by auto
    with held_last_section [of "initialize c" x r c' k] call call_write [OF False 2] 2 False initialize_inv [OF inv]
    show ?thesis by (auto simp: held_initialize [OF inv])
  next
    case 3
    then show ?thesis using call call_write_late [OF False] held_initialize [OF inv] by auto
  next
    case 4
    show ?thesis
    proof (cases "c_initialized c")
      case True
      with call call_read [OF False 4(2,1)] have last: "last_section x c = Some (r, c')" by simp
      have "\<And>t n k v e. x = CAddExp t n k v e \<Longrightarrow> n < e" using 4(2) by auto
      from held_last_section [OF inv last 4(1) False this] show ?thesis .
    next
      case no: False
      then show ?thesis using call call_read [OF False 4(2,1)] inv
        by (cases x) (auto simp: cache_held_def cache_inv_def)
    qed
  qed
qed

lemma call_keeps_mono: "H \<subseteq> H' \<Longrightarrow> call_keeps x k H \<subseteq> call_keeps x k H'"
  by (cases x) auto

lemma fold_call_keeps_mono:
  "H \<subseteq> H' \<Longrightarrow> fold (\<lambda>x. call_keeps x k) xs H \<subseteq> fold (\<lambda>x. call_keeps x k) xs H'"
  by (induction xs arbitrary: H H') (auto simp: call_keeps_mono)

lemma run_calls_ok:
  assumes "cache_inv c" and "run_calls xs c = Some (rs, c')"
  shows "cache_inv c' \<and> cache_held c' k \<subseteq> fold (\<lambda>x. call_keeps x k) xs (cache_held c k)"
  using assms
proof (induction xs arbitrary: c rs)
  case (Cons x xs)
  obtain r c1 rs' where 1: "cache_call x c = Some (r, c1)" "run_calls xs c1 = Some (rs', c')"
    using Cons.prems(2) by (auto split: Option.bind_splits)
  have "cache_inv c1" using cache_call_ok [OF Cons.prems(1), of x] 1(1) by auto
  note IH = Cons.IH [OF this 1(2)]
  have "fold (\<lambda>x. call_keeps x k) xs (cache_held c1 k) \<subseteq> fold (\<lambda>x. call_keeps x k) xs (call_keeps x k (cache_held c k))"
    by (rule fold_call_keeps_mono) (rule held_call [OF Cons.prems(1) 1(1)])
  from order_trans [OF conjunct2 [OF IH] this] IH show ?case by simp
qed simp

text \<open>
  Any sequence of calls of a new cache returns, and a \<open>Get\<close> after it that hits answers
  with a value that was added under that key, by a call with no delete of the key, clear or
  close after it.
\<close>

theorem cache_get_written:
  assumes "store_options_ok (co_CacheType opts) (store_options opts)"
  shows "\<exists>rs c. run_calls xs (NewCache opts) = Some (rs, c)
    \<and> (\<forall>t k v c'. cache_call (CGet t k) c = Some (RGet v True, c') \<longrightarrow> v \<in> fold (\<lambda>x. call_keeps x k) xs {})"
proof -
  have total: "cache_inv c \<Longrightarrow> \<exists>rs c'. run_calls xs c = Some (rs, c')" for c
  proof (induction xs arbitrary: c)
    case (Cons x xs)
    obtain r c1 where 1: "cache_call x c = Some (r, c1)" "cache_inv c1" using cache_call_ok [OF Cons.prems] by blast
    from Cons.IH [OF 1(2)] 1(1) show ?case by auto
  qed simp
  note inv = new_cache_inv [OF assms]
  from total [OF inv] obtain rs c where run: "run_calls xs (NewCache opts) = Some (rs, c)" by blast
  have "v \<in> fold (\<lambda>x. call_keeps x k) xs {}" if g: "cache_call (CGet t k) c = Some (RGet v True, c')" for t k v c'
  proof -
    note ok = run_calls_ok [OF inv run, of k]
    have opn: "\<not> c_closed c"
    proof
      assume "c_closed c"
      from call_closed [OF this, of "CGet t k"] g show False by simp
    qed
    have "v \<in> cache_held c k" using get_answer [OF _ opn g] ok opn by (auto simp: cache_held_def)
    moreover have "cache_held (NewCache opts) k = {}" by (simp add: cache_held_def NewCache_def)
    ultimately show ?thesis using ok by auto
  qed
  with run show ?thesis by blast
qed

theorem cache_get_written_witness:
  "\<exists>rs c. run_calls [CAdd (0, 0) ''k'' (ByteView [1]), CDelete ''k''] (NewCache DefaultCacheOptions) = Some (rs, c)
     \<and> (\<forall>t v c'. cache_call (CGet t ''k'') c \<noteq> Some (RGet v True, c'))"
proof -
  let ?xs = "[CAdd (0, 0) ''k'' (ByteView [1]), CDelete ''k'']"
  have none: "fold (\<lambda>x. call_keeps x ''k'') ?xs {} = {}" by simp
  obtain rs c where "run_calls ?xs (NewCache DefaultCacheOptions) = Some (rs, c)"
      "\<forall>t k v c'. cache_call (CGet t k) c = Some (RGet v True, c') \<longrightarrow> v \<in> fold (\<lambda>x. call_keeps x k) ?xs {}"
    using cache_get_written [OF default_options_ok, of ?xs] by blast
  with none show ?thesis by blast
qed

text \<open>
  Lazy initialization: on a cache no write has reached, reads, deletes, \<open>Len\<close> and \<open>Clear\<close>
  answer that there is nothing and do not make a store; the first write makes it.
\<close>

theorem cache_is_lazy:
  "(x \<noteq> CClose \<and> \<not> is_write x \<longrightarrow>
      (\<exists>c'. cache_call x (NewCache opts) = Some (closed_answer x, c') \<and> c_store c' = None))
   \<and> (is_write x \<and> store_options_ok (co_CacheType opts) (store_options opts) \<longrightarrow>
      (\<exists>r c'. cache_call x (NewCache opts) = Some (r, c') \<and> c_initialized c' \<and> c_store c' \<noteq> None))"
proof (intro conjI impI)
  assume "x \<noteq> CClose \<and> \<not> is_write x"
  then show "\<exists>c'. cache_call x (NewCache opts) = Some (closed_answer x, c') \<and> c_store c' = None"
    using call_read [of "NewCache opts" x] by (cases x) (simp_all add: NewCache_def)
next
  assume w: "is_write x \<and> store_options_ok (co_CacheType opts) (store_options opts)"
  then have inv: "cache_inv (NewCache opts)" using new_cache_inv by blast
  have opn: "\<not> c_closed (NewCache opts)" by (simp add: NewCache_def)
  note i = initialize_inv [OF inv]
  show "\<exists>r c'. cache_call x (NewCache opts) = Some (r, c') \<and> c_initialized c' \<and> c_store c' \<noteq> None"
  proof (cases "\<exists>t n k v e. x = CAddExp t n k v e \<and> e \<le> n")
    case True
    then show ?thesis using call_write_late [OF opn] i by (auto simp: cache_inv_def)
  next
    case False
    then have late: "\<And>t n k v e. x = CAddExp t n k v e \<Longrightarrow> n < e" by force
    have nc: "x \<noteq> CClose" using w by auto
    obtain r c' where c': "last_section x (initialize (NewCache opts)) = Some (r, c')" "cache_inv c'"
      using last_section_ok [OF conjunct1 [OF i], of x] i nc unfolding thread_ok_def by blast
    moreover have "c_store c' \<noteq> None"
      using last_section_store [OF c'(1) nc] opn by auto
    ultimately show ?thesis using call_write [OF opn _ late] w by (auto simp: cache_inv_def)
  qed
qed

theorem cache_is_lazy_witness:
  "\<exists>c'. cache_call CLen (NewCache DefaultCacheOptions) = Some (RLen 0, c') \<and> c_store c' = None"
  using cache_is_lazy [of CLen DefaultCacheOptions] by simp

end
