(* ===== verification/Single_Flight.thy ===== *)
theory Single_Flight
  imports Byte_View
begin

text \<open>
  \<open>singleflight/singleflight.go\<close>: calls of \<open>Do\<close> by concurrent goroutines.  Each access to
  the \<open>sync.Map\<close>, to the \<open>WaitGroup\<close> and the run of \<open>fn\<close> is one section; what \<open>fn\<close> does
  (return a value and an error, or panic) is an argument of the section that runs it.
  A section that has to wait is \<open>None\<close>.
\<close>

subsection \<open>State\<close>

type_synonym sf_error = string

record sf_call =
  sc_done :: bool
  sc_val :: "byteview option"
  sc_err :: "sf_error option"

text \<open>The map \<open>m\<close>, and the \<open>call\<close> objects by their address.\<close>

record sf_group =
  sf_map :: "(key, nat) gomap"
  sf_calls :: "nat \<Rightarrow> sf_call"
  sf_next :: nat

definition new_sf_group :: sf_group where
  "new_sf_group = \<lparr>sf_map = [], sf_calls = (\<lambda>_. \<lparr>sc_done = False, sc_val = None, sc_err = None\<rparr>), sf_next = 0\<rparr>"

datatype fn_outcome = FnReturn "byteview option" "sf_error option" | FnPanic string

text \<open>
  Where a goroutine is in \<open>Do\<close>: before \<open>Load\<close>, before \<open>Store\<close>, running \<open>fn\<close> for the call it
  owns, before \<open>wg.Done\<close>, before \<open>Delete\<close> (with the panic to raise again, if any), in
  \<open>wg.Wait\<close>, and at the end.
\<close>

datatype sf_pc =
    SfLoad
  | SfStore
  | SfRun nat
  | SfDone nat "string option"
  | SfDelete nat "string option"
  | SfWait nat
  | SfReturn "byteview option" "sf_error option"
  | SfPanic string

subsection \<open>The sections of \<open>Do\<close>\<close>

definition panic_error :: "string \<Rightarrow> sf_error" where
  "panic_error r = ''singleflight: panic recovered: '' @ r"

fun Do :: "key \<Rightarrow> fn_outcome \<Rightarrow> sf_pc \<Rightarrow> sf_group \<Rightarrow> (sf_pc \<times> sf_group) option" where
  "Do k fn SfLoad g =
     (case mget (sf_map g) k of
        Some c \<Rightarrow> Some (SfWait c, g)
      | None \<Rightarrow> Some (SfStore, g))"
| "Do k fn SfStore g =
     (let c = sf_next g in
      Some (SfRun c,
        g\<lparr>sf_next := Suc c,
          sf_calls := (sf_calls g)(c := \<lparr>sc_done = False, sc_val = None, sc_err = None\<rparr>),
          sf_map := mput k c (sf_map g)\<rparr>))"
| "Do k fn (SfRun c) g =
     (case fn of
        FnReturn v e \<Rightarrow>
          Some (SfDone c None, g\<lparr>sf_calls := (sf_calls g)(c := (sf_calls g c)\<lparr>sc_val := v, sc_err := e\<rparr>)\<rparr>)
      | FnPanic r \<Rightarrow>
          Some (SfDone c (Some r), g\<lparr>sf_calls := (sf_calls g)(c := (sf_calls g c)\<lparr>sc_err := Some (panic_error r)\<rparr>)\<rparr>))"
| "Do k fn (SfDone c p) g =
     Some (SfDelete c p, g\<lparr>sf_calls := (sf_calls g)(c := (sf_calls g c)\<lparr>sc_done := True\<rparr>)\<rparr>)"
| "Do k fn (SfDelete c p) g =
     Some (case p of
             Some r \<Rightarrow> SfPanic r
           | None \<Rightarrow> SfReturn (sc_val (sf_calls g c)) (sc_err (sf_calls g c)),
           g\<lparr>sf_map := mdel k (sf_map g)\<rparr>)"
| "Do k fn (SfWait c) g =
     (if sc_done (sf_calls g c)
      then Some (SfReturn (sc_val (sf_calls g c)) (sc_err (sf_calls g c)), g)
      else None)"
| "Do k fn (SfReturn v e) g = None"
| "Do k fn (SfPanic r) g = None"

subsection \<open>Executions\<close>

type_synonym sf_threads = "nat \<Rightarrow> (key \<times> sf_pc) option"

fun sf_finished :: "sf_pc \<Rightarrow> bool" where
  "sf_finished (SfReturn v e) = True"
| "sf_finished (SfPanic r) = True"
| "sf_finished _ = False"

inductive sf_step :: "sf_group \<times> sf_threads \<Rightarrow> sf_group \<times> sf_threads \<Rightarrow> bool" where
  sf_start: "ts i = None \<Longrightarrow> sf_step (g, ts) (g, ts(i \<mapsto> (k, SfLoad)))"
| sf_section: "ts i = Some (k, pc) \<Longrightarrow> Do k fn pc g = Some (pc', g') \<Longrightarrow> sf_step (g, ts) (g', ts(i \<mapsto> (k, pc')))"
| sf_finish: "ts i = Some (k, pc) \<Longrightarrow> sf_finished pc \<Longrightarrow> sf_step (g, ts) (g, ts(i := None))"

inductive_cases sf_stepE: "sf_step (g, ts) q"

definition sf_init :: "sf_group \<times> sf_threads" where
  "sf_init = (new_sf_group, \<lambda>_. None)"

text \<open>The call a goroutine owns: the one it stored and has not deleted yet.\<close>

fun owns :: "sf_pc \<Rightarrow> nat option" where
  "owns (SfRun c) = Some c"
| "owns (SfDone c p) = Some c"
| "owns (SfDelete c p) = Some c"
| "owns _ = None"

fun waits :: "sf_pc \<Rightarrow> nat option" where
  "waits (SfWait c) = Some c"
| "waits _ = None"

text \<open>The owner is past \<open>wg.Done\<close> exactly when it is about to delete.\<close>

fun past_done :: "sf_pc \<Rightarrow> bool" where
  "past_done (SfDelete c p) = True"
| "past_done _ = False"

subsection \<open>Invariant\<close>

text \<open>
  Every entry of the map has an owner with that key; every call not done has an owner; a call
  has at most one owner, which is past \<open>wg.Done\<close> iff the call is done; owned and awaited
  calls are allocated.
\<close>

definition sf_inv :: "sf_group \<times> sf_threads \<Rightarrow> bool" where
  "sf_inv q \<longleftrightarrow>
     (\<forall>k c. mget (sf_map (fst q)) k = Some c \<longrightarrow> (\<exists>i pc. snd q i = Some (k, pc) \<and> owns pc = Some c))
     \<and> (\<forall>c < sf_next (fst q). \<not> sc_done (sf_calls (fst q) c) \<longrightarrow> (\<exists>i k pc. snd q i = Some (k, pc) \<and> owns pc = Some c))
     \<and> (\<forall>i j k k' pc pc' c. snd q i = Some (k, pc) \<and> owns pc = Some c \<and> snd q j = Some (k', pc') \<and> owns pc' = Some c \<longrightarrow> i = j)
     \<and> (\<forall>i k pc c. snd q i = Some (k, pc) \<and> owns pc = Some c \<longrightarrow>
          c < sf_next (fst q) \<and> (sc_done (sf_calls (fst q) c) \<longleftrightarrow> past_done pc))
     \<and> (\<forall>i k pc c. snd q i = Some (k, pc) \<and> waits pc = Some c \<longrightarrow> c < sf_next (fst q))"

lemma sf_inv_init: "sf_inv sf_init"
  by (simp add: sf_inv_def sf_init_def new_sf_group_def)

lemma sf_invD:
  assumes "sf_inv (g, ts)"
  shows "\<And>k c. mget (sf_map g) k = Some c \<Longrightarrow> \<exists>i pc. ts i = Some (k, pc) \<and> owns pc = Some c"
    "\<And>c. c < sf_next g \<Longrightarrow> \<not> sc_done (sf_calls g c) \<Longrightarrow> \<exists>i k pc. ts i = Some (k, pc) \<and> owns pc = Some c"
    "\<And>i j k k' pc pc' c. ts i = Some (k, pc) \<Longrightarrow> owns pc = Some c \<Longrightarrow> ts j = Some (k', pc') \<Longrightarrow> owns pc' = Some c \<Longrightarrow> i = j"
    "\<And>i k pc c. ts i = Some (k, pc) \<Longrightarrow> owns pc = Some c \<Longrightarrow> c < sf_next g"
    "\<And>i k pc c. ts i = Some (k, pc) \<Longrightarrow> owns pc = Some c \<Longrightarrow> sc_done (sf_calls g c) \<longleftrightarrow> past_done pc"
    "\<And>i k pc c. ts i = Some (k, pc) \<Longrightarrow> waits pc = Some c \<Longrightarrow> c < sf_next g"
  using assms unfolding sf_inv_def fst_conv snd_conv by blast+

lemma sf_invI:
  assumes "\<And>k c. mget (sf_map g) k = Some c \<Longrightarrow> \<exists>i pc. ts i = Some (k, pc) \<and> owns pc = Some c"
    "\<And>c. c < sf_next g \<Longrightarrow> \<not> sc_done (sf_calls g c) \<Longrightarrow> \<exists>i k pc. ts i = Some (k, pc) \<and> owns pc = Some c"
    "\<And>i j k k' pc pc' c. ts i = Some (k, pc) \<Longrightarrow> owns pc = Some c \<Longrightarrow> ts j = Some (k', pc') \<Longrightarrow> owns pc' = Some c \<Longrightarrow> i = j"
    "\<And>i k pc c. ts i = Some (k, pc) \<Longrightarrow> owns pc = Some c \<Longrightarrow> c < sf_next g \<and> (sc_done (sf_calls g c) \<longleftrightarrow> past_done pc)"
    "\<And>i k pc c. ts i = Some (k, pc) \<Longrightarrow> waits pc = Some c \<Longrightarrow> c < sf_next g"
  shows "sf_inv (g, ts)"
  unfolding sf_inv_def fst_conv snd_conv using assms by (intro conjI allI impI; (elim conjE)?) blast+

text \<open>A thread that neither owns nor waits may change its section freely.\<close>

lemma sf_inv_free:
  assumes inv: "sf_inv (g, ts)" and old: "\<And>k pc. ts i = Some (k, pc) \<Longrightarrow> owns pc = None"
    and new: "\<And>k pc. x = Some (k, pc) \<Longrightarrow> owns pc = None \<and> (\<forall>c. waits pc = Some c \<longrightarrow> c < sf_next g)"
  shows "sf_inv (g, ts(i := x))"
proof -
  note d = sf_invD [OF inv]
  have keep: "\<exists>j pc. (ts(i := x)) j = Some (k, pc) \<and> owns pc = Some c"
    if "ts j = Some (k, pc)" "owns pc = Some c" for j k pc c
    using that old [of k pc] by (intro exI [of _ j] exI [of _ pc]) auto
  show ?thesis
  proof (rule sf_invI)
    show "\<And>k c. mget (sf_map g) k = Some c \<Longrightarrow> \<exists>j pc. (ts(i := x)) j = Some (k, pc) \<and> owns pc = Some c"
      using d(1) keep by blast
    show "\<And>c. c < sf_next g \<Longrightarrow> \<not> sc_done (sf_calls g c) \<Longrightarrow> \<exists>j k pc. (ts(i := x)) j = Some (k, pc) \<and> owns pc = Some c"
      using d(2) keep by blast
    show "\<And>j l k k' pc pc' c. (ts(i := x)) j = Some (k, pc) \<Longrightarrow> owns pc = Some c \<Longrightarrow>
        (ts(i := x)) l = Some (k', pc') \<Longrightarrow> owns pc' = Some c \<Longrightarrow> j = l"
      using d(3) new by (auto split: if_splits)
    show "\<And>j k pc c. (ts(i := x)) j = Some (k, pc) \<Longrightarrow> owns pc = Some c \<Longrightarrow>
        c < sf_next g \<and> (sc_done (sf_calls g c) \<longleftrightarrow> past_done pc)"
      using d(4,5) new by (auto split: if_splits)
    show "\<And>j k pc c. (ts(i := x)) j = Some (k, pc) \<Longrightarrow> waits pc = Some c \<Longrightarrow> c < sf_next g"
      using d(6) new by (auto split: if_splits)
  qed
qed

text \<open>An owner moves on without touching the map; the call's fields and its flag follow.\<close>

lemma sf_inv_owner:
  assumes inv: "sf_inv (g, ts)" and i: "ts i = Some (k, pc)" and own: "owns pc = Some c" "owns pc' = Some c"
    and call: "sc_done call \<longleftrightarrow> past_done pc'" and w: "waits pc' = None"
  shows "sf_inv (g\<lparr>sf_calls := (sf_calls g)(c := call)\<rparr>, ts(i \<mapsto> (k, pc')))" (is "sf_inv (?g, ?ts)")
proof -
  note d = sf_invD [OF inv]
  have keep: "\<exists>j pc. ?ts j = Some (k', pc) \<and> owns pc = Some c'"
    if "ts j = Some (k', pc'')" "owns pc'' = Some c'" for j k' pc'' c'
  proof (cases "j = i")
    case True
    with that i own show ?thesis by (intro exI [of _ i] exI [of _ pc']) auto
  next
    case False
    with that show ?thesis by (intro exI [of _ j] exI [of _ pc'']) auto
  qed
  have other: "j \<noteq> i \<Longrightarrow> ts j = Some (k', pc'') \<Longrightarrow> owns pc'' \<noteq> Some c" for j k' pc''
    using d(3) i own(1) by blast
  show ?thesis
  proof (rule sf_invI)
    show "\<And>k' c'. mget (sf_map ?g) k' = Some c' \<Longrightarrow> \<exists>j pc. ?ts j = Some (k', pc) \<and> owns pc = Some c'"
      using d(1) keep by (metis sf_group.select_convs(1) sf_group.surjective sf_group.update_convs(2))
    show "\<And>c'. c' < sf_next ?g \<Longrightarrow> \<not> sc_done (sf_calls ?g c') \<Longrightarrow> \<exists>j k pc. ?ts j = Some (k, pc) \<and> owns pc = Some c'"
    proof -
      fix c' assume c': "c' < sf_next ?g" "\<not> sc_done (sf_calls ?g c')"
      show "\<exists>j k pc. ?ts j = Some (k, pc) \<and> owns pc = Some c'"
      proof (cases "c' = c")
        case True then show ?thesis using own(2) by (intro exI [of _ i]) auto
      next
        case False
        then have "c' < sf_next g" "\<not> sc_done (sf_calls g c')" using c' by auto
        then show ?thesis using d(2) keep by blast
      qed
    qed
    show "\<And>j l k1 k2 pc1 pc2 c'. ?ts j = Some (k1, pc1) \<Longrightarrow> owns pc1 = Some c' \<Longrightarrow>
        ?ts l = Some (k2, pc2) \<Longrightarrow> owns pc2 = Some c' \<Longrightarrow> j = l"
      using d(3) own(2) other by (auto split: if_splits)
    show "\<And>j k1 pc1 c'. ?ts j = Some (k1, pc1) \<Longrightarrow> owns pc1 = Some c' \<Longrightarrow>
        c' < sf_next ?g \<and> (sc_done (sf_calls ?g c') \<longleftrightarrow> past_done pc1)"
      using d(4,5) own i call other by (auto split: if_splits)
    show "\<And>j k1 pc1 c'. ?ts j = Some (k1, pc1) \<Longrightarrow> waits pc1 = Some c' \<Longrightarrow> c' < sf_next ?g"
      using d(6) w by (auto split: if_splits)
  qed
qed

lemma sf_inv_store:
  assumes inv: "sf_inv (g, ts)" and i: "ts i = Some (k, SfStore)"
  shows "sf_inv (g\<lparr>sf_next := Suc (sf_next g),
      sf_calls := (sf_calls g)(sf_next g := \<lparr>sc_done = False, sc_val = None, sc_err = None\<rparr>),
      sf_map := mput k (sf_next g) (sf_map g)\<rparr>, ts(i \<mapsto> (k, SfRun (sf_next g))))" (is "sf_inv (?g, ?ts)")
proof -
  note d = sf_invD [OF inv]
  have old: "ts j = Some (k', pc) \<Longrightarrow> owns pc = Some c \<Longrightarrow> c \<noteq> sf_next g \<and> j \<noteq> i" for j k' pc c
    using d(4) [of j k' pc c] i by auto
  have keep: "\<exists>j pc. ?ts j = Some (k', pc) \<and> owns pc = Some c"
    if "ts j = Some (k', pc)" "owns pc = Some c" for j k' pc c
    using that old [OF that] by (intro exI [of _ j] exI [of _ pc]) auto
  show ?thesis
  proof (rule sf_invI)
    fix k' c assume "mget (sf_map ?g) k' = Some c"
    then have "k' = k \<and> c = sf_next g \<or> mget (sf_map g) k' = Some c" by (cases "k' = k") simp_all
    then show "\<exists>j pc. ?ts j = Some (k', pc) \<and> owns pc = Some c"
    proof
      assume "k' = k \<and> c = sf_next g"
      then show ?thesis by (intro exI [of _ i]) simp
    next
      assume "mget (sf_map g) k' = Some c"
      then show ?thesis using d(1) keep by blast
    qed
  next
    fix c assume c: "c < sf_next ?g" "\<not> sc_done (sf_calls ?g c)"
    show "\<exists>j k pc. ?ts j = Some (k, pc) \<and> owns pc = Some c"
    proof (cases "c = sf_next g")
      case True then show ?thesis by (intro exI [of _ i]) auto
    next
      case False
      then have "c < sf_next g" "\<not> sc_done (sf_calls g c)" using c by auto
      then show ?thesis using d(2) keep by blast
    qed
  next
    show "\<And>j l k1 k2 pc1 pc2 c'. ?ts j = Some (k1, pc1) \<Longrightarrow> owns pc1 = Some c' \<Longrightarrow>
        ?ts l = Some (k2, pc2) \<Longrightarrow> owns pc2 = Some c' \<Longrightarrow> j = l"
      using d(3) by (auto split: if_splits dest: old)
    show "\<And>j k1 pc1 c'. ?ts j = Some (k1, pc1) \<Longrightarrow> owns pc1 = Some c' \<Longrightarrow>
        c' < sf_next ?g \<and> (sc_done (sf_calls ?g c') \<longleftrightarrow> past_done pc1)"
      using d(4,5) old by (fastforce split: if_splits simp: less_Suc_eq)
    show "\<And>j k1 pc1 c'. ?ts j = Some (k1, pc1) \<Longrightarrow> waits pc1 = Some c' \<Longrightarrow> c' < sf_next ?g"
      using d(6) by (auto split: if_splits simp: less_Suc_eq)
  qed
qed

lemma sf_inv_delete:
  assumes inv: "sf_inv (g, ts)" and i: "ts i = Some (k, SfDelete c p)" and fin: "owns pc' = None" "waits pc' = None"
  shows "sf_inv (g\<lparr>sf_map := mdel k (sf_map g)\<rparr>, ts(i \<mapsto> (k, pc')))" (is "sf_inv (?g, ?ts)")
proof -
  note d = sf_invD [OF inv]
  have dn: "sc_done (sf_calls g c)" using d(5) [OF i] by simp
  have keep: "\<exists>j pc. ?ts j = Some (k', pc) \<and> owns pc = Some c'"
    if "ts j = Some (k', pc)" "owns pc = Some c'" "j \<noteq> i" for j k' pc c'
    using that by (intro exI [of _ j] exI [of _ pc]) auto
  show ?thesis
  proof (rule sf_invI)
    fix k' c' assume "mget (sf_map ?g) k' = Some c'"
    then have m: "mget (sf_map g) k' = Some c'" "k' \<noteq> k" by (auto split: if_splits)
    then obtain j pc where j: "ts j = Some (k', pc)" "owns pc = Some c'" using d(1) by blast
    with i m(2) have "j \<noteq> i" by auto
    with j keep show "\<exists>j pc. ?ts j = Some (k', pc) \<and> owns pc = Some c'" by blast
  next
    fix c' assume c': "c' < sf_next ?g" "\<not> sc_done (sf_calls ?g c')"
    then obtain j k' pc where j: "ts j = Some (k', pc)" "owns pc = Some c'" using d(2) [of c'] by auto
    have "j \<noteq> i" using j i dn c'(2) by auto
    with j keep show "\<exists>j k pc. ?ts j = Some (k, pc) \<and> owns pc = Some c'" by blast
  next
    show "\<And>j l k1 k2 pc1 pc2 c'. ?ts j = Some (k1, pc1) \<Longrightarrow> owns pc1 = Some c' \<Longrightarrow>
        ?ts l = Some (k2, pc2) \<Longrightarrow> owns pc2 = Some c' \<Longrightarrow> j = l"
      using d(3) fin by (auto split: if_splits)
    show "\<And>j k1 pc1 c'. ?ts j = Some (k1, pc1) \<Longrightarrow> owns pc1 = Some c' \<Longrightarrow>
        c' < sf_next ?g \<and> (sc_done (sf_calls ?g c') \<longleftrightarrow> past_done pc1)"
      using d(4,5) fin by (auto split: if_splits)
    show "\<And>j k1 pc1 c'. ?ts j = Some (k1, pc1) \<Longrightarrow> waits pc1 = Some c' \<Longrightarrow> c' < sf_next ?g"
      using d(6) fin by (auto split: if_splits)
  qed
qed

lemma sf_inv_step:
  assumes "sf_step q q'" and "sf_inv q"
  shows "sf_inv q'"
  using assms
proof (induction rule: sf_step.induct)
  case (sf_start ts i g k)
  then show ?case by (intro sf_inv_free) auto
next
  case (sf_section ts i k pc fn g pc' g')
  note inv = sf_section.prems and i = sf_section.hyps(1)
  note d = sf_invD [OF inv]
  show ?case
  proof (cases pc)
    case SfLoad
    have "mget (sf_map g) k = Some c \<Longrightarrow> c < sf_next g" for c
      using d(1) [of k c] d(4) by blast
    with sf_section SfLoad show ?thesis
      by (auto intro!: sf_inv_free split: option.splits)
  next
    case SfStore
    with sf_section sf_inv_store [OF inv] show ?thesis by (auto simp: Let_def)
  next
    case (SfRun c)
    have "\<not> sc_done (sf_calls g c)" using d(5) [OF i] SfRun by simp
    with sf_section SfRun show ?thesis
      by (auto intro!: sf_inv_owner [OF inv i] split: fn_outcome.splits)
  next
    case (SfDone c p)
    with sf_section show ?thesis by (auto intro!: sf_inv_owner [OF inv i])
  next
    case (SfDelete c p)
    with sf_section show ?thesis
      by (auto intro!: sf_inv_delete [OF inv i [unfolded SfDelete]] split: option.splits)
  next
    case (SfWait c)
    have free: "\<And>v e. sf_inv (g, ts(i \<mapsto> (k, SfReturn v e)))"
      using i SfWait by (intro sf_inv_free [OF inv]) auto
    with sf_section SfWait show ?thesis by (auto split: if_splits)
  qed (use sf_section in auto)
next
  case (sf_finish ts i k pc g)
  then show ?case by (intro sf_inv_free) (auto elim: sf_finished.elims)
qed

lemma sf_inv_reach: "sf_step\<^sup>*\<^sup>* q q' \<Longrightarrow> sf_inv q \<Longrightarrow> sf_inv q'"
  by (induction rule: rtranclp_induct) (auto intro: sf_inv_step)

subsection \<open>Properties\<close>

text \<open>The fields of a call after \<open>fn\<close> ran.\<close>

fun fn_result :: "fn_outcome \<Rightarrow> byteview option \<times> sf_error option" where
  "fn_result (FnReturn v e) = (v, e)"
| "fn_result (FnPanic r) = (None, Some (panic_error r))"

definition ran :: "nat \<Rightarrow> byteview option \<times> sf_error option \<Rightarrow> sf_group \<times> sf_threads \<Rightarrow> bool" where
  "ran c res q \<longleftrightarrow>
     c < sf_next (fst q) \<and> (sc_val (sf_calls (fst q) c), sc_err (sf_calls (fst q) c)) = res
     \<and> (\<forall>j k. snd q j \<noteq> Some (k, SfRun c))"

lemma ran_step:
  assumes "sf_step q q'" and "ran c res q"
  shows "ran c res q'"
  using assms
proof (induction rule: sf_step.induct)
  case (sf_section ts i k pc fn g pc' g')
  then show ?case
    by (cases pc) (auto simp: ran_def Let_def split: option.splits fn_outcome.splits if_splits)
qed (auto simp: ran_def)

lemma ran_reach: "sf_step\<^sup>*\<^sup>* q q' \<Longrightarrow> ran c res q \<Longrightarrow> ran c res q'"
  by (induction rule: rtranclp_induct) (auto intro: ran_step)

text \<open>A call that has not run yet still has no value.\<close>

definition unset :: "sf_group \<times> sf_threads \<Rightarrow> bool" where
  "unset q \<longleftrightarrow> (\<forall>i k c. snd q i = Some (k, SfRun c) \<longrightarrow> sc_val (sf_calls (fst q) c) = None)"

lemma unset_step:
  assumes "sf_step q q'" and "sf_inv q" and "unset q"
  shows "unset q'"
  using assms
proof (induction rule: sf_step.induct)
  case (sf_section ts i k pc fn g pc' g')
  note d = sf_invD [OF sf_section.prems(1)]
  have less: "ts j = Some (k', SfRun c) \<Longrightarrow> c < sf_next g" for j k' c using d(4) [of j k' "SfRun c" c] by simp
  have one: "ts j = Some (k', SfRun c) \<Longrightarrow> ts l = Some (k'', SfRun c) \<Longrightarrow> j = l" for j l k' k'' c
    using d(3) [of j k' "SfRun c" c l k'' "SfRun c"] by simp
  from sf_section show ?case
    by (cases pc) (auto simp: unset_def Let_def split: option.splits fn_outcome.splits if_splits dest: less one)
qed (auto simp: unset_def)

lemma unset_reach: "sf_step\<^sup>*\<^sup>* q q' \<Longrightarrow> sf_inv q \<Longrightarrow> unset q \<Longrightarrow> unset q'"
  by (induction rule: rtranclp_induct) (auto intro: unset_step sf_inv_reach)

text \<open>What the owner does at the end: it returns the result of \<open>fn\<close>, or raises its panic again.\<close>

fun fn_ending :: "fn_outcome \<Rightarrow> sf_pc" where
  "fn_ending (FnReturn v e) = SfReturn v e"
| "fn_ending (FnPanic r) = SfPanic r"

fun fn_raises :: "fn_outcome \<Rightarrow> string option" where
  "fn_raises (FnReturn v e) = None"
| "fn_raises (FnPanic r) = Some r"

text \<open>The owner that has run \<open>fn\<close> carries its panic to the end.\<close>

fun carries :: "sf_pc \<Rightarrow> (nat \<times> string option) option" where
  "carries (SfDone c p) = Some (c, p)"
| "carries (SfDelete c p) = Some (c, p)"
| "carries _ = None"

definition owner_carries :: "nat \<Rightarrow> string option \<Rightarrow> sf_group \<times> sf_threads \<Rightarrow> bool" where
  "owner_carries c p q \<longleftrightarrow>
     c < sf_next (fst q) \<and> (\<forall>j k. snd q j \<noteq> Some (k, SfRun c))
     \<and> (\<forall>j k pc p'. snd q j = Some (k, pc) \<and> carries pc = Some (c, p') \<longrightarrow> p' = p)"

lemma owner_carries_step:
  assumes "sf_step q q'" and "owner_carries c p q"
  shows "owner_carries c p q'"
  using assms
proof (induction rule: sf_step.induct)
  case (sf_section ts i k pc fn g pc' g')
  have "q = p" if "carries pc = Some (c, q)" for q
    using sf_section.prems sf_section.hyps(1) that unfolding owner_carries_def fst_conv snd_conv by blast
  with sf_section show ?case
    by (cases pc) (auto simp: owner_carries_def Let_def split: option.splits fn_outcome.splits if_splits)
qed (auto simp: owner_carries_def)

lemma owner_carries_reach: "sf_step\<^sup>*\<^sup>* q q' \<Longrightarrow> owner_carries c p q \<Longrightarrow> owner_carries c p q'"
  by (induction rule: rtranclp_induct) (auto intro: owner_carries_step)

text \<open>
  C13. Everyone shares one run: once \<open>fn\<close> has run for a call, then in every later state each
  goroutine that waits for the call gets the value and the error of that run, a panic as its
  error, and the owner, when it reaches its end, returns that value and error or, if \<open>fn\<close>
  panicked, raises the same panic again.
\<close>

theorem sf_shared_result:
  assumes "sf_step\<^sup>*\<^sup>* sf_init (g, ts)" and "ts i = Some (k, SfRun c)"
    and "Do k fn (SfRun c) g = Some (pc', g')" and "sf_step\<^sup>*\<^sup>* (g', ts(i \<mapsto> (k, pc'))) (h, us)"
  shows "(\<forall>fn' r. Do k fn' (SfWait c) h = Some r \<longrightarrow> r = (SfReturn (fst (fn_result fn)) (snd (fn_result fn)), h))
    \<and> (\<forall>j k' p fn'. us j = Some (k', SfDelete c p) \<longrightarrow> map_option fst (Do k' fn' (SfDelete c p) h) = Some (fn_ending fn))"
proof -
  have inv: "sf_inv (g, ts)" using sf_inv_reach [OF assms(1) sf_inv_init] .
  note d = sf_invD [OF inv]
  have "unset sf_init" by (simp add: unset_def sf_init_def)
  from unset_reach [OF assms(1) sf_inv_init this] assms(2) have "sc_val (sf_calls g c) = None"
    by (auto simp: unset_def)
  moreover have one: "ts j = Some (k', pc) \<Longrightarrow> owns pc = Some c \<Longrightarrow> j = i" for j k' pc
    using d(3) [of j k' pc c i k "SfRun c"] assms(2) by simp
  moreover have less: "c < sf_next g" using d(4) [OF assms(2)] by simp
  ultimately have "ran c (fn_result fn) (g', ts(i \<mapsto> (k, pc')))"
    using assms(3) by (auto simp: ran_def split: fn_outcome.splits)
  from ran_reach [OF assms(4) this]
  have res: "sc_val (sf_calls h c) = fst (fn_result fn)" "sc_err (sf_calls h c) = snd (fn_result fn)"
    by (cases "fn_result fn"; simp add: ran_def)+
  have owned: "owns pc = Some c" if "carries pc = Some (c, p)" for pc p using that by (cases pc) auto
  have "owner_carries c (fn_raises fn) (g', ts(i \<mapsto> (k, pc')))"
    using assms(3) less one owned by (cases fn) (auto simp: owner_carries_def)
  from owner_carries_reach [OF assms(4) this]
  have "p = fn_raises fn" if "us j = Some (k', SfDelete c p)" for j k' p
    using that unfolding owner_carries_def by fastforce
  then have "map_option fst (Do k' fn' (SfDelete c p) h) = Some (fn_ending fn)" if "us j = Some (k', SfDelete c p)" for j k' p fn'
    using that res by (cases fn) fastforce+
  then show ?thesis using res by (auto split: if_splits)
qed

text \<open>
  No waiter is stuck: in every reachable state, a goroutine in \<open>wg.Wait\<close> can go on, or
  the owner of its call is at a section that can (its \<open>fn\<close> may do whatever it does).
\<close>

theorem sf_waiter_has_owner:
  assumes "sf_step\<^sup>*\<^sup>* sf_init (g, ts)" and "ts i = Some (k, SfWait c)"
  shows "(\<exists>r. Do k fn (SfWait c) g = Some r)
    \<or> (\<exists>j k' pc. ts j = Some (k', pc) \<and> owns pc = Some c \<and> (\<forall>fn'. \<exists>r. Do k' fn' pc g = Some r))"
proof (cases "sc_done (sf_calls g c)")
  case True
  then show ?thesis by simp
next
  case False
  note d = sf_invD [OF sf_inv_reach [OF assms(1) sf_inv_init]]
  have "c < sf_next g" using d(6) [OF assms(2)] by simp
  with False obtain j k' pc where j: "ts j = Some (k', pc)" "owns pc = Some c" using d(2) by blast
  have "\<exists>r. Do k' fn' pc g = Some r" for fn'
    using j(2) by (cases pc; cases fn') auto
  with j show ?thesis by blast
qed

text \<open>
  Nothing is left behind: when no goroutine is in \<open>Do\<close> for a key, the map has no entry
  for it.
\<close>

theorem sf_no_leak:
  assumes "sf_step\<^sup>*\<^sup>* sf_init (g, ts)" and "\<forall>i pc. ts i \<noteq> Some (k, pc)"
  shows "mget (sf_map g) k = None"
  using sf_invD(1) [OF sf_inv_reach [OF assms(1) sf_inv_init], of k] assms(2)
  by (cases "mget (sf_map g) k") auto

subsection \<open>An execution with two loads of one key\<close>

text \<open>The two goroutines, after \<open>Load\<close> and after \<open>Store\<close>.\<close>

definition two_groups :: "nat \<Rightarrow> key \<Rightarrow> sf_group" where
  "two_groups n k =
     \<lparr>sf_map = (if n = 0 then [] else [(k, n - 1)]),
      sf_calls = (\<lambda>_. \<lparr>sc_done = False, sc_val = None, sc_err = None\<rparr>), sf_next = n\<rparr>"

lemma sf_step_to: "sf_step q q' \<Longrightarrow> sf_step\<^sup>*\<^sup>* q' q'' \<Longrightarrow> sf_step\<^sup>*\<^sup>* q q''"
  by (rule converse_rtranclp_into_rtranclp)

lemma two_runs_reached:
  "sf_step\<^sup>*\<^sup>* sf_init (two_groups 2 k, (\<lambda>_. None)(0 \<mapsto> (k, SfRun 0), 1 \<mapsto> (k, SfRun 1)))"
proof -
  let ?e = "\<lambda>_::nat. None :: (key \<times> sf_pc) option"
  let ?fn = "FnReturn None None"
  have calls: "(\<lambda>_. \<lparr>sc_done = False, sc_val = None, sc_err = None\<rparr>)(n := \<lparr>sc_done = False, sc_val = None, sc_err = None\<rparr>)
      = (\<lambda>_. \<lparr>sc_done = False, sc_val = None, sc_err = None\<rparr>)" for n :: nat by auto
  have init: "sf_init = (two_groups 0 k, ?e)" by (simp add: sf_init_def new_sf_group_def two_groups_def)
  have 1: "sf_step (two_groups 0 k, ?e) (two_groups 0 k, ?e(0 \<mapsto> (k, SfLoad)))"
    by (rule sf_start) simp
  have 2: "sf_step (two_groups 0 k, ?e(0 \<mapsto> (k, SfLoad))) (two_groups 0 k, ?e(0 \<mapsto> (k, SfLoad), 1 \<mapsto> (k, SfLoad)))"
    by (rule sf_start) simp
  have 3: "sf_step (two_groups 0 k, ?e(0 \<mapsto> (k, SfLoad), 1 \<mapsto> (k, SfLoad)))
      (two_groups 0 k, ?e(0 \<mapsto> (k, SfLoad), 1 \<mapsto> (k, SfLoad), 0 \<mapsto> (k, SfStore)))"
    by (rule sf_section [where fn = ?fn and pc = SfLoad]) (simp_all add: two_groups_def)
  have 4: "sf_step (two_groups 0 k, ?e(0 \<mapsto> (k, SfLoad), 1 \<mapsto> (k, SfLoad), 0 \<mapsto> (k, SfStore)))
      (two_groups 0 k, ?e(0 \<mapsto> (k, SfLoad), 1 \<mapsto> (k, SfLoad), 0 \<mapsto> (k, SfStore), 1 \<mapsto> (k, SfStore)))"
    by (rule sf_section [where fn = ?fn and pc = SfLoad]) (simp_all add: two_groups_def)
  have 5: "sf_step (two_groups 0 k, ?e(0 \<mapsto> (k, SfLoad), 1 \<mapsto> (k, SfLoad), 0 \<mapsto> (k, SfStore), 1 \<mapsto> (k, SfStore)))
      (two_groups 1 k, ?e(0 \<mapsto> (k, SfLoad), 1 \<mapsto> (k, SfLoad), 0 \<mapsto> (k, SfStore), 1 \<mapsto> (k, SfStore), 0 \<mapsto> (k, SfRun 0)))"
    by (rule sf_section [where fn = ?fn and pc = SfStore]) (simp_all add: two_groups_def Let_def calls)
  have 6: "sf_step (two_groups 1 k, ?e(0 \<mapsto> (k, SfLoad), 1 \<mapsto> (k, SfLoad), 0 \<mapsto> (k, SfStore), 1 \<mapsto> (k, SfStore), 0 \<mapsto> (k, SfRun 0)))
      (two_groups 2 k, ?e(0 \<mapsto> (k, SfLoad), 1 \<mapsto> (k, SfLoad), 0 \<mapsto> (k, SfStore), 1 \<mapsto> (k, SfStore), 0 \<mapsto> (k, SfRun 0), 1 \<mapsto> (k, SfRun 1)))"
    by (rule sf_section [where fn = ?fn and pc = SfStore]) (simp_all add: two_groups_def Let_def calls)
  have eq: "?e(0 \<mapsto> (k, SfLoad), 1 \<mapsto> (k, SfLoad), 0 \<mapsto> (k, SfStore), 1 \<mapsto> (k, SfStore), 0 \<mapsto> (k, SfRun 0), 1 \<mapsto> (k, SfRun 1))
      = ?e(0 \<mapsto> (k, SfRun 0), 1 \<mapsto> (k, SfRun 1))" by (auto simp: fun_eq_iff)
  show ?thesis
    unfolding init
    using 1 2 3 4 5 6 unfolding eq by (meson converse_rtranclp_into_rtranclp rtranclp.rtrancl_refl)
qed

text \<open>
  \<open>Load\<close> and \<open>Store\<close> are two steps: two goroutines that both miss in \<open>Load\<close> both run
  \<open>fn\<close> for the same key at the same time.
\<close>

theorem sf_double_execution:
  "\<exists>g ts. sf_step\<^sup>*\<^sup>* sf_init (g, ts) \<and> ts 0 = Some (k, SfRun 0) \<and> ts 1 = Some (k, SfRun 1)"
  using two_runs_reached [of k] by (intro exI conjI) (assumption | simp)+

text \<open>A goroutine whose \<open>fn\<close> panics while another one waits: both are at their ends.\<close>

lemma panic_reached:
  "\<exists>g ts pc' g' h us. sf_step\<^sup>*\<^sup>* sf_init (g, ts) \<and> ts 0 = Some (k, SfRun 0)
     \<and> Do k (FnPanic p) (SfRun 0) g = Some (pc', g') \<and> sf_step\<^sup>*\<^sup>* (g', ts(0 \<mapsto> (k, pc'))) (h, us)
     \<and> us 0 = Some (k, SfDelete 0 (Some p)) \<and> us 1 = Some (k, SfWait 0) \<and> sc_done (sf_calls h 0)"
proof -
  let ?e = "\<lambda>_::nat. None :: (key \<times> sf_pc) option" and ?fn = "FnPanic p"
  let ?call = "\<lparr>sc_done = False, sc_val = None, sc_err = None\<rparr>"
  have calls: "(\<lambda>_. ?call)(n := ?call) = (\<lambda>_. ?call)" for n :: nat by auto
  have init: "sf_init = (two_groups 0 k, ?e)" by (simp add: sf_init_def new_sf_group_def two_groups_def)
  let ?g = "two_groups 1 k"
  let ?g1 = "?g\<lparr>sf_calls := (sf_calls ?g)(0 := (sf_calls ?g 0)\<lparr>sc_err := Some (panic_error p)\<rparr>)\<rparr>"
  let ?g2 = "?g1\<lparr>sf_calls := (sf_calls ?g1)(0 := (sf_calls ?g1 0)\<lparr>sc_done := True\<rparr>)\<rparr>"
  let ?t1 = "?e(0 \<mapsto> (k, SfLoad))" let ?t2 = "?t1(0 \<mapsto> (k, SfStore))" let ?t3 = "?t2(0 \<mapsto> (k, SfRun 0))"
  let ?t4 = "?t3(1 \<mapsto> (k, SfLoad))" let ?t5 = "?t4(1 \<mapsto> (k, SfWait 0))"
  let ?t6 = "?t5(0 \<mapsto> (k, SfDone 0 (Some p)))" let ?t7 = "?t6(0 \<mapsto> (k, SfDelete 0 (Some p)))"
  have 1: "sf_step (two_groups 0 k, ?e) (two_groups 0 k, ?t1)" by (rule sf_start) simp
  have 2: "sf_step (two_groups 0 k, ?t1) (two_groups 0 k, ?t2)"
    by (rule sf_section [where fn = ?fn and pc = SfLoad]) (simp_all add: two_groups_def)
  have 3: "sf_step (two_groups 0 k, ?t2) (?g, ?t3)"
    by (rule sf_section [where fn = ?fn and pc = SfStore]) (simp_all add: two_groups_def Let_def calls)
  have 4: "sf_step (?g, ?t3) (?g, ?t4)" by (rule sf_start) simp
  have 5: "sf_step (?g, ?t4) (?g, ?t5)"
    by (rule sf_section [where fn = ?fn and pc = SfLoad]) (simp_all add: two_groups_def)
  have "sf_step\<^sup>*\<^sup>* sf_init (?g, ?t5)"
    unfolding init by (rule sf_step_to [OF 1], rule sf_step_to [OF 2], rule sf_step_to [OF 3], rule sf_step_to [OF 4],
        rule r_into_rtranclp [of sf_step, OF 5])
  moreover have "?t5 0 = Some (k, SfRun 0)" by simp
  moreover have "Do k ?fn (SfRun 0) ?g = Some (SfDone 0 (Some p), ?g1)" by simp
  moreover have "sf_step (?g1, ?t6) (?g2, ?t7)" by (rule sf_section [where fn = ?fn and pc = "SfDone 0 (Some p)"]) simp_all
  then have "sf_step\<^sup>*\<^sup>* (?g1, ?t5(0 \<mapsto> (k, SfDone 0 (Some p)))) (?g2, ?t7)" by (rule r_into_rtranclp [of sf_step])
  moreover have "?t7 0 = Some (k, SfDelete 0 (Some p))" "?t7 1 = Some (k, SfWait 0)" "sc_done (sf_calls ?g2 0)" by simp_all
  ultimately show ?thesis by blast
qed

theorem sf_shared_result_witness:
  "\<exists>h us. sf_step\<^sup>*\<^sup>* sf_init (h, us) \<and> us 0 = Some (''k'', SfDelete 0 (Some ''p'')) \<and> us 1 = Some (''k'', SfWait 0)
     \<and> map_option fst (Do ''k'' (FnReturn None None) (SfDelete 0 (Some ''p'')) h) = Some (SfPanic ''p'')
     \<and> Do ''k'' (FnReturn None None) (SfWait 0) h = Some (SfReturn None (Some (panic_error ''p'')), h)"
proof -
  obtain g ts pc' g' h us where r: "sf_step\<^sup>*\<^sup>* sf_init (g, ts)" "ts 0 = Some (''k'', SfRun 0)"
      "Do ''k'' (FnPanic ''p'') (SfRun 0) g = Some (pc', g')" "sf_step\<^sup>*\<^sup>* (g', ts(0 \<mapsto> (''k'', pc'))) (h, us)"
      "us 0 = Some (''k'', SfDelete 0 (Some ''p''))" "us 1 = Some (''k'', SfWait 0)" "sc_done (sf_calls h 0)"
    using panic_reached [of "''k''" "''p''"] by blast
  note t = sf_shared_result [OF r(1-4)]
  have "map_option fst (Do ''k'' (FnReturn None None) (SfDelete 0 (Some ''p'')) h) = Some (SfPanic ''p'')"
    using t r(5) by (simp only: fn_ending.simps)
  moreover obtain q where "Do ''k'' (FnReturn None None) (SfWait 0) h = Some q" using r(7) by simp
  then have "Do ''k'' (FnReturn None None) (SfWait 0) h = Some (SfReturn None (Some (panic_error ''p'')), h)"
    using t by (metis fn_result.simps(2) fst_conv snd_conv)
  moreover have "sf_step\<^sup>*\<^sup>* sf_init (h, us)"
  proof (rule rtranclp_trans [of sf_step, OF r(1)], rule sf_step_to [OF _ r(4)])
    show "sf_step (g, ts) (g', ts(0 \<mapsto> (''k'', pc')))" by (rule sf_section) (rule r(2), rule r(3))
  qed
  ultimately show ?thesis using r(5,6) by blast
qed

theorem sf_waiter_has_owner_witness:
  "\<exists>g ts. sf_step\<^sup>*\<^sup>* sf_init (g, ts) \<and> ts 2 = Some (''k'', SfWait 1)
     \<and> (\<exists>j k' pc. ts j = Some (k', pc) \<and> owns pc = Some 1)"
proof -
  let ?ts = "(\<lambda>_. None)(0 \<mapsto> (''k'', SfRun 0), 1 \<mapsto> (''k'', SfRun 1)) :: sf_threads"
  let ?g = "two_groups 2 ''k''"
  have 1: "sf_step (?g, ?ts) (?g, ?ts(2 \<mapsto> (''k'', SfLoad)))" by (rule sf_start) simp
  have 2: "sf_step (?g, ?ts(2 \<mapsto> (''k'', SfLoad))) (?g, ?ts(2 \<mapsto> (''k'', SfLoad), 2 \<mapsto> (''k'', SfWait 1)))"
    by (rule sf_section [where fn = "FnReturn None None" and pc = SfLoad]) (simp_all add: two_groups_def)
  have reach: "sf_step\<^sup>*\<^sup>* sf_init (?g, ?ts(2 \<mapsto> (''k'', SfLoad), 2 \<mapsto> (''k'', SfWait 1)))"
    using two_runs_reached [of "''k''"] 1 2 by (meson rtranclp.rtrancl_into_rtrancl)
  have t2: "(?ts(2 \<mapsto> (''k'', SfLoad), 2 \<mapsto> (''k'', SfWait 1))) 2 = Some (''k'', SfWait 1)" by simp
  have blocked: "Do ''k'' (FnReturn None None) (SfWait 1) ?g = None" by (simp add: two_groups_def)
  let ?us = "?ts(2 \<mapsto> (''k'', SfLoad), 2 \<mapsto> (''k'', SfWait 1))"
  have "\<exists>j k' pc. ?us j = Some (k', pc) \<and> owns pc = Some 1"
    using sf_waiter_has_owner [OF reach t2, of "FnReturn None None"] blocked
    by (metis option.distinct(1))
  then show ?thesis using reach t2 by (intro exI [of _ ?g] exI [of _ ?us]) (simp only: simp_thms)
qed

theorem sf_no_leak_witness: "mget (sf_map new_sf_group) ''k'' = None"
proof -
  have "sf_step\<^sup>*\<^sup>* sf_init (new_sf_group, \<lambda>_. None)" by (simp add: sf_init_def)
  from sf_no_leak [OF this] show ?thesis by simp
qed

end
