(* ===== verification/Float64.thy ===== *)
theory Float64
  imports Complex_Main "HOL-Library.Log_Nat" "HOL-Library.Word"
begin

text \<open>
  The parts of Go's language and standard library that \<open>consistenthash\<close> uses: \<open>float64\<close>
  arithmetic (each operation is the exact rational operation rounded to 53 bits, to nearest,
  ties to even; the operands here stay far from overflow and from subnormal numbers), the
  decimal printing of \<open>%d\<close>, \<open>sort.Search\<close> and \<open>crc32.ChecksumIEEE\<close>.
\<close>

subsection \<open>Numbers of type float64\<close>

definition round_even :: "rat \<Rightarrow> int" where
  "round_even x =
     (let n = floor x; d = x - of_int n in
      if d < 1 / 2 then n else if d > 1 / 2 then n + 1 else if even n then n else n + 1)"

text \<open>The exponent of the least significant bit of the rounded number.\<close>

definition ulp_exponent :: "rat \<Rightarrow> int" where
  "ulp_exponent x =
     (let (a, b) = quotient_of \<bar>x\<bar>; e = bitlen a - bitlen b in
      (if of_int a < of_int b * (if e \<ge> 0 then (2 :: rat) ^ nat e else 1 / 2 ^ nat (- e)) then e - 1 else e) - 52)"

definition f64 :: "rat \<Rightarrow> rat" where
  "f64 x =
     (if x = 0 then 0
      else let e = ulp_exponent x; u = (if e \<ge> 0 then (2 :: rat) ^ nat e else 1 / 2 ^ nat (- e))
           in of_int (round_even (x / u)) * u)"

definition f64_of_int :: "int \<Rightarrow> rat" where "f64_of_int n = f64 (of_int n)"
definition f64_div :: "rat \<Rightarrow> rat \<Rightarrow> rat" where "f64_div x y = f64 (x / y)"
definition f64_mul :: "rat \<Rightarrow> rat \<Rightarrow> rat" where "f64_mul x y = f64 (x * y)"
definition f64_sub :: "rat \<Rightarrow> rat \<Rightarrow> rat" where "f64_sub x y = f64 (x - y)"

text \<open>The conversion \<open>int(x)\<close> truncates toward zero.\<close>

definition trunc :: "rat \<Rightarrow> int" where
  "trunc x = (if x \<ge> 0 then floor x else - floor (- x))"

subsection \<open>Decimal printing\<close>

fun dec :: "nat \<Rightarrow> string" where
  "dec n = (if n < 10 then [char_of (48 + n)] else dec (n div 10) @ [char_of (48 + n mod 10)])"

declare dec.simps [simp del]

fun undec :: "string \<Rightarrow> nat" where
  "undec s = foldl (\<lambda>n c. 10 * n + (of_char c - 48)) 0 s"

lemma undec_dec: "undec (dec n) = n"
proof (induction n rule: dec.induct)
  case (1 n)
  show ?case
  proof (cases "n < 10")
    case True
    then show ?thesis by (simp add: dec.simps [of n])
  next
    case False
    then have "undec (dec (n div 10)) = n div 10" by (rule 1)
    with False show ?thesis by (simp add: dec.simps [of n] mult.commute)
  qed
qed

lemma dec_inject: "dec m = dec n \<longleftrightarrow> m = n"
  using undec_dec by metis

subsection \<open>sort.Search\<close>

text \<open>
  \<open>sort.Search(n, f)\<close>: the loop over \<open>i\<close> and \<open>j\<close> of the standard library.
\<close>

function search_loop :: "(nat \<Rightarrow> bool) \<Rightarrow> nat \<Rightarrow> nat \<Rightarrow> nat" where
  "search_loop f i j =
     (if i < j then
        let h = (i + j) div 2 in
        if \<not> f h then search_loop f (h + 1) j else search_loop f i h
      else i)"
  by pat_completeness auto
termination by (relation "measure (\<lambda>(f, i, j). j - i)") auto

declare search_loop.simps [simp del]

definition sort_Search :: "nat \<Rightarrow> (nat \<Rightarrow> bool) \<Rightarrow> nat" where
  "sort_Search n f = search_loop f 0 n"

lemma search_loop_spec:
  assumes "i \<le> j" and "\<And>a b. a \<le> b \<Longrightarrow> b < n \<Longrightarrow> f a \<Longrightarrow> f b" and "j \<le> n"
    and "\<And>a. a < i \<Longrightarrow> \<not> f a" and "\<And>a. j \<le> a \<Longrightarrow> a < n \<Longrightarrow> f a"
  shows "search_loop f i j \<le> n \<and> (\<forall>a < search_loop f i j. \<not> f a)
    \<and> (\<forall>a. search_loop f i j \<le> a \<and> a < n \<longrightarrow> f a)"
  using assms
proof (induction f i j rule: search_loop.induct)
  case (1 f i j)
  show ?case
  proof (cases "i < j")
    case False
    then have "search_loop f i j = i" by (simp add: search_loop.simps [of f i j])
    with "1.prems" False show ?thesis by simp
  next
    case True
    let ?h = "(i + j) div 2"
    have h: "i \<le> ?h" "?h < j" using True by auto
    show ?thesis
    proof (cases "f ?h")
      case f: True
      have up: "\<And>a. ?h \<le> a \<Longrightarrow> a < n \<Longrightarrow> f a" using "1.prems"(2) [of ?h] f by blast
      have "search_loop f i j = search_loop f i ?h"
        using True f by (simp add: search_loop.simps [of f i j] Let_def)
      moreover have "search_loop f i ?h \<le> n \<and> (\<forall>a < search_loop f i ?h. \<not> f a)
          \<and> (\<forall>a. search_loop f i ?h \<le> a \<and> a < n \<longrightarrow> f a)"
        using "1.prems" h up by (intro "1.IH"(2) [OF True refl]) (auto simp: f)
      ultimately show ?thesis by simp
    next
      case f: False
      have down: "\<And>a. a < ?h + 1 \<Longrightarrow> \<not> f a"
      proof
        fix a assume "a < ?h + 1" "f a"
        then have "f ?h" using "1.prems"(2) [of a ?h] h "1.prems"(3) by simp
        with f show False by simp
      qed
      have "search_loop f i j = search_loop f (?h + 1) j"
        using True f by (simp add: search_loop.simps [of f i j] Let_def)
      moreover have "search_loop f (?h + 1) j \<le> n \<and> (\<forall>a < search_loop f (?h + 1) j. \<not> f a)
          \<and> (\<forall>a. search_loop f (?h + 1) j \<le> a \<and> a < n \<longrightarrow> f a)"
        using "1.prems" h down by (intro "1.IH"(1) [OF True refl]) (auto simp: f)
      ultimately show ?thesis by simp
    qed
  qed
qed

lemma sort_Search_spec:
  assumes "\<And>a b. a \<le> b \<Longrightarrow> b < n \<Longrightarrow> f a \<Longrightarrow> f b"
  shows "sort_Search n f \<le> n" "\<And>a. a < sort_Search n f \<Longrightarrow> \<not> f a"
    "\<And>a. sort_Search n f \<le> a \<Longrightarrow> a < n \<Longrightarrow> f a"
  using search_loop_spec [of 0 n n f] assms by (auto simp: sort_Search_def)

subsection \<open>crc32.ChecksumIEEE\<close>

definition crc_bit :: "32 word \<Rightarrow> 32 word" where
  "crc_bit c = (if bit c 0 then xor (drop_bit 1 c) 0xEDB88320 else drop_bit 1 c)"

definition crc_byte :: "32 word \<Rightarrow> char \<Rightarrow> 32 word" where
  "crc_byte c ch = (crc_bit ^^ 8) (xor c (of_nat (of_char ch)))"

definition ChecksumIEEE :: "string \<Rightarrow> 32 word" where
  "ChecksumIEEE s = not (foldl crc_byte (not 0) s)"

end
