(* ===== verification/Hash_Ring.thy ===== *)
theory Hash_Ring
  imports Reach_Prelude Float64
begin

text \<open>
  \<open>consistenthash/config.go\<close> and \<open>consistenthash/consistenthash.go\<close>: the ring of virtual
  nodes, its operations and the load balancer.  The lock \<open>mu\<close> is part of the state: an
  operation that locks it while it is held by its own caller waits for ever, which is the
  outcome \<open>Deadlock\<close>; the outcome \<open>Panic\<close> is the dereference of a nil counter.
\<close>

subsection \<open>State\<close>

record Config =
  DefaultReplicas :: int
  MinReplicas :: int
  MaxReplicas :: int
  HashFunc :: "string \<Rightarrow> 32 word"
  LoadBalanceThreshold :: rat

definition DefaultConfig :: Config where
  "DefaultConfig = \<lparr>DefaultReplicas = 50, MinReplicas = 10, MaxReplicas = 200,
     HashFunc = ChecksumIEEE, LoadBalanceThreshold = 1 / 4\<rparr>"

record Map =
  m_locked :: bool
  m_config :: Config
  m_keys :: "int list"
  hashMap :: "(int, string) gomap"
  nodeReplicas :: "(string, int) gomap"
  nodeCounts :: "(string, int) gomap"
  totalRequests :: int
  m_done :: bool

definition New :: "Config \<Rightarrow> Map" where
  "New cfg = \<lparr>m_locked = False, m_config = cfg, m_keys = [], hashMap = [], nodeReplicas = [],
     nodeCounts = [], totalRequests = 0, m_done = False\<rparr>"

datatype 'a outcome = Ok 'a | Panic | Deadlock

definition obind :: "'a outcome \<Rightarrow> ('a \<Rightarrow> 'b outcome) \<Rightarrow> 'b outcome" where
  "obind x f = (case x of Ok a \<Rightarrow> f a | Panic \<Rightarrow> Panic | Deadlock \<Rightarrow> Deadlock)"

lemma obind_simps [simp]: "obind (Ok a) f = f a" "obind Panic f = Panic" "obind Deadlock f = Deadlock"
  by (simp_all add: obind_def)

text \<open>The zero value of a missing key.\<close>

definition getd :: "'v \<Rightarrow> ('k, 'v) gomap \<Rightarrow> 'k \<Rightarrow> 'v" where
  "getd d m k = (case mget m k of Some v \<Rightarrow> v | None \<Rightarrow> d)"

text \<open>The hash of the virtual node \<open>node-i\<close>.\<close>

definition vhash :: "Config \<Rightarrow> string \<Rightarrow> nat \<Rightarrow> int" where
  "vhash cfg node i = uint (HashFunc cfg (node @ ''-'' @ dec i))"

subsection \<open>Operations\<close>

definition addNode :: "string \<Rightarrow> int \<Rightarrow> Map \<Rightarrow> Map" where
  "addNode node replicas m =
     (let m = fold (\<lambda>i m. m\<lparr>m_keys := m_keys m @ [vhash (m_config m) node i],
                             hashMap := mput (vhash (m_config m) node i) node (hashMap m)\<rparr>)
                [0..<nat replicas] m;
          m = m\<lparr>nodeReplicas := mput node replicas (nodeReplicas m)\<rparr>
      in (if node \<in> set (mkeys (nodeCounts m)) then m
          else m\<lparr>nodeCounts := mput node 0 (nodeCounts m)\<rparr>))"

text \<open>The errors are those of the package; \<open>None\<close> is a nil error.\<close>

datatype ring_error = NoNodes | InvalidNode | NodeNotFound string

definition Add :: "string list \<Rightarrow> Map \<Rightarrow> (ring_error option \<times> Map) outcome" where
  "Add nodes m =
     (if nodes = [] then Ok (Some NoNodes, m)
      else if m_locked m then Deadlock
      else
        let m = fold (\<lambda>node m. if node = [] then m else addNode node (DefaultReplicas (m_config m)) m) nodes m
        in Ok (None, m\<lparr>m_keys := sort (m_keys m)\<rparr>))"

definition Remove :: "string \<Rightarrow> Map \<Rightarrow> (ring_error option \<times> Map) outcome" where
  "Remove node m =
     (if node = [] then Ok (Some InvalidNode, m)
      else if m_locked m then Deadlock
      else
        let replicas = getd 0 (nodeReplicas m) node in
        if replicas = 0 then Ok (Some (NodeNotFound node), m)
        else
          let m = fold (\<lambda>i m. m\<lparr>hashMap := mdel (vhash (m_config m) node i) (hashMap m),
                                  m_keys := remove1 (vhash (m_config m) node i) (m_keys m)\<rparr>)
                    [0..<nat replicas] m
          in Ok (None, m\<lparr>nodeReplicas := mdel node (nodeReplicas m), nodeCounts := mdel node (nodeCounts m)\<rparr>))"

text \<open>\<open>Get\<close>; the locks of readers do not exclude each other.\<close>

definition Get :: "string \<Rightarrow> Map \<Rightarrow> (string \<times> Map) outcome" where
  "Get key m =
     (if key = [] then Ok ([], m)
      else if m_locked m then Deadlock
      else if m_keys m = [] then Ok ([], m)
      else
        let hash = uint (HashFunc (m_config m) key);
            idx = sort_Search (length (m_keys m)) (\<lambda>i. m_keys m ! i \<ge> hash);
            idx = (if idx = length (m_keys m) then 0 else idx);
            node = getd [] (hashMap m) (m_keys m ! idx)
        in (case mget (nodeCounts m) node of
              None \<Rightarrow> Panic
            | Some cnt \<Rightarrow>
                Ok (node, m\<lparr>nodeCounts := mput node (cnt + 1) (nodeCounts m),
                            totalRequests := totalRequests m + 1\<rparr>)))"

subsection \<open>The balancer\<close>

definition newReplicas :: "Config \<Rightarrow> rat \<Rightarrow> int \<Rightarrow> int \<Rightarrow> int" where
  "newReplicas cfg avgLoad currentReplicas cnt =
     (let loadRatio = f64_div (f64_of_int cnt) avgLoad;
          new = (if loadRatio > 1 then trunc (f64_div (f64_of_int currentReplicas) loadRatio)
                 else trunc (f64_mul (f64_of_int currentReplicas) (f64_sub 2 loadRatio)));
          new = (if new < MinReplicas cfg then MinReplicas cfg else new)
      in (if new > MaxReplicas cfg then MaxReplicas cfg else new))"

text \<open>
  The loop of \<open>rebalanceNodes\<close> over the counters; the call of \<open>Remove\<close> finds the lock held.
\<close>

fun rebalance_loop :: "rat \<Rightarrow> (string \<times> int) list \<Rightarrow> Map \<Rightarrow> Map outcome" where
  "rebalance_loop avgLoad [] m = Ok m"
| "rebalance_loop avgLoad ((node, cnt) # rest) m =
     (let currentReplicas = getd 0 (nodeReplicas m) node;
          new = newReplicas (m_config m) avgLoad currentReplicas cnt
      in if new \<noteq> currentReplicas then
           (case Remove node m of
              Ok (Some err, m) \<Rightarrow> rebalance_loop avgLoad rest m
            | Ok (None, m) \<Rightarrow> rebalance_loop avgLoad rest (addNode node new m)
            | Panic \<Rightarrow> Panic
            | Deadlock \<Rightarrow> Deadlock)
         else rebalance_loop avgLoad rest m)"

definition rebalanceNodes :: "Map \<Rightarrow> Map outcome" where
  "rebalanceNodes m =
     (if m_locked m then Deadlock
      else
        let m = m\<lparr>m_locked := True\<rparr>;
            avgLoad = f64_div (f64_of_int (totalRequests m)) (f64_of_int (int (length (nodeReplicas m))))
        in (case rebalance_loop avgLoad (nodeCounts m) m of
              Ok m \<Rightarrow> Ok (m\<lparr>nodeCounts := map (\<lambda>(n, c). (n, 0)) (nodeCounts m), totalRequests := 0,
                             m_keys := sort (m_keys m), m_locked := False\<rparr>)
            | Panic \<Rightarrow> Panic
            | Deadlock \<Rightarrow> Deadlock))"

definition maxDiff :: "rat \<Rightarrow> Map \<Rightarrow> rat" where
  "maxDiff avgLoad m =
     fold (\<lambda>(node, count) d.
             let diff = \<bar>f64_sub (f64_of_int count) avgLoad\<bar>
             in if f64_div diff avgLoad > d then f64_div diff avgLoad else d)
       (nodeCounts m) 0"

text \<open>
  \<open>checkAndRebalance\<close> reads under the read lock, gives it back, and then calls \<open>rebalanceNodes\<close>,
  which takes the write lock.
\<close>

definition needRebalance :: "Map \<Rightarrow> bool outcome" where
  "needRebalance m =
     (if totalRequests m < 1000 then Ok False
      else if m_locked m then Deadlock
      else if nodeReplicas m = [] then Ok False
      else
        let avgLoad = f64_div (f64_of_int (totalRequests m)) (f64_of_int (int (length (nodeReplicas m))))
        in Ok (maxDiff avgLoad m > LoadBalanceThreshold (m_config m)))"

definition checkAndRebalance :: "Map \<Rightarrow> Map outcome" where
  "checkAndRebalance m = obind (needRebalance m) (\<lambda>need. if need then rebalanceNodes m else Ok m)"

definition GetStats :: "Map \<Rightarrow> (string, rat) gomap" where
  "GetStats m =
     (if totalRequests m = 0 then []
      else map (\<lambda>(node, cnt). (node, f64_div (f64_of_int cnt) (f64_of_int (totalRequests m)))) (nodeCounts m))"

text \<open>\<open>Close\<close>: closing the channel twice panics.\<close>

definition Close :: "Map \<Rightarrow> Map outcome" where
  "Close m = (if m_done m then Panic else Ok (m\<lparr>m_done := True\<rparr>))"

text \<open>
  The goroutine of \<open>startBalancer\<close> beside the calls of the ring: it waits for a tick or for
  \<open>done\<close>, and between the two halves of its check other calls may come.  One event is one
  section under \<open>mu\<close>; a tick that comes while the goroutine is busy or gone is dropped.
\<close>

datatype balancer = Waiting | Rebalancing | Returned

datatype ring_event = Join string | Leave string | Ask string | Shut | Ticked | Rebalance | DoneSeen

definition call_ring :: "balancer \<Rightarrow> ('a \<times> Map) outcome \<Rightarrow> (balancer \<times> Map) outcome" where
  "call_ring b r = obind r (\<lambda>(_, m). Ok (b, m))"

fun ring_step :: "ring_event \<Rightarrow> balancer \<times> Map \<Rightarrow> (balancer \<times> Map) outcome" where
  "ring_step (Join node) (b, m) = call_ring b (Add [node] m)"
| "ring_step (Leave node) (b, m) = call_ring b (Remove node m)"
| "ring_step (Ask key) (b, m) = call_ring b (Get key m)"
| "ring_step Shut (b, m) = obind (Close m) (\<lambda>m. Ok (b, m))"
| "ring_step Ticked (b, m) =
     (if b = Waiting then obind (needRebalance m) (\<lambda>need. Ok (if need then Rebalancing else Waiting, m)) else Ok (b, m))"
| "ring_step Rebalance (b, m) =
     (if b = Rebalancing then obind (rebalanceNodes m) (\<lambda>m. Ok (Waiting, m)) else Ok (b, m))"
| "ring_step DoneSeen (b, m) = Ok (if b = Waiting \<and> m_done m then Returned else b, m)"

fun ring_run :: "ring_event list \<Rightarrow> balancer \<times> Map \<Rightarrow> (balancer \<times> Map) outcome" where
  "ring_run [] s = Ok s"
| "ring_run (e # es) s = obind (ring_step e s) (ring_run es)"

subsection \<open>Representation\<close>

text \<open>
  The virtual nodes of the ring.  \<open>ring_ok\<close>: the map sends exactly the hashes of the virtual
  nodes of the members to their member, the keys are those hashes in order, each once, and
  every member has a positive number of replicas and a counter.
\<close>

definition is_vnode :: "Map \<Rightarrow> string \<Rightarrow> int \<Rightarrow> bool" where
  "is_vnode m node h \<longleftrightarrow> (\<exists>i < nat (getd 0 (nodeReplicas m) node). h = vhash (m_config m) node i)"

definition members :: "Map \<Rightarrow> string set" where
  "members m = set (mkeys (nodeReplicas m))"

definition ring_ok :: "Map \<Rightarrow> bool" where
  "ring_ok m \<longleftrightarrow>
     \<not> m_locked m \<and> sorted (m_keys m) \<and> distinct (m_keys m)
     \<and> gomap_ok (nodeReplicas m) \<and> gomap_ok (nodeCounts m)
     \<and> set (m_keys m) = dom (mget (hashMap m))
     \<and> (\<forall>h n. mget (hashMap m) h = Some n \<longleftrightarrow> n \<in> members m \<and> is_vnode m n h)
     \<and> set (mkeys (nodeCounts m)) = members m
     \<and> (\<forall>n \<in> members m. 0 < getd 0 (nodeReplicas m) n \<and> n \<noteq> [])"

text \<open>Virtual nodes that do not collide: with each other, or with those on the ring.\<close>

definition hashes_apart :: "Config \<Rightarrow> string \<Rightarrow> int \<Rightarrow> bool" where
  "hashes_apart cfg node replicas \<longleftrightarrow> inj_on (vhash cfg node) {..<nat replicas}"

definition fresh_node :: "string \<Rightarrow> Map \<Rightarrow> bool" where
  "fresh_node node m \<longleftrightarrow> node \<noteq> [] \<and> node \<notin> members m \<and> 0 < DefaultReplicas (m_config m)
     \<and> hashes_apart (m_config m) node (DefaultReplicas (m_config m))
     \<and> (\<forall>i < nat (DefaultReplicas (m_config m)). vhash (m_config m) node i \<notin> set (m_keys m))"

text \<open>The owner of a position: the member of the first key at or after it, else of the first key.\<close>

definition successor :: "int list \<Rightarrow> int \<Rightarrow> int" where
  "successor ks h = (case filter (\<lambda>x. x \<ge> h) ks of x # _ \<Rightarrow> x | [] \<Rightarrow> hd ks)"

definition owner :: "Map \<Rightarrow> string \<Rightarrow> string" where
  "owner m key = getd [] (hashMap m) (successor (m_keys m) (uint (HashFunc (m_config m) key)))"

text \<open>
  The addresses of a cluster, whose virtual nodes do not collide.
\<close>

definition cluster_ok :: "Config \<Rightarrow> string set \<Rightarrow> bool" where
  "cluster_ok cfg A \<longleftrightarrow> 0 < DefaultReplicas cfg
     \<and> inj_on (\<lambda>(n, i). vhash cfg n i) (A \<times> {..<nat (DefaultReplicas cfg)})"

definition default_replicas :: "Map \<Rightarrow> bool" where
  "default_replicas m \<longleftrightarrow> (\<forall>n \<in> members m. getd 0 (nodeReplicas m) n = DefaultReplicas (m_config m))"

end
