(* ===== verification/Hash_Ring_Correct.thy ===== *)
theory Hash_Ring_Correct
  imports Hash_Ring
begin

text \<open>
  The lemmas on the ring of \<open>consistenthash\<close>: the binary search finds the successor of a
  position, the successor depends on the set of keys only, and what \<open>Add\<close>, \<open>Remove\<close> and
  \<open>Get\<close> do to a well-formed ring.
\<close>

subsection \<open>Successors\<close>

definition nearest :: "int set \<Rightarrow> int \<Rightarrow> int \<Rightarrow> bool" where
  "nearest S h x \<longleftrightarrow> x \<in> S \<and>
     (h \<le> x \<and> (\<forall>y \<in> S. h \<le> y \<longrightarrow> x \<le> y) \<or> (\<forall>y \<in> S. y < h \<and> x \<le> y))"

lemma nearest_unique: "nearest S h x \<Longrightarrow> nearest S h y \<Longrightarrow> x = y"
  unfolding nearest_def by fastforce

lemma nearest_subset: "nearest S' h x \<Longrightarrow> S \<subseteq> S' \<Longrightarrow> x \<in> S \<Longrightarrow> nearest S h x"
  unfolding nearest_def by blast

lemma nearest_successor:
  assumes "sorted ks" and "ks \<noteq> []"
  shows "nearest (set ks) h (successor ks h)"
proof (cases "filter (\<lambda>x. x \<ge> h) ks")
  case Nil
  then have "\<forall>y \<in> set ks. y < h" by (auto simp: filter_empty_conv not_le)
  moreover have "hd ks \<in> set ks" "\<forall>y \<in> set ks. hd ks \<le> y" using assms by (cases ks; auto)+
  ultimately show ?thesis using Nil by (simp add: successor_def nearest_def)
next
  case (Cons x xs)
  then have "x \<in> set (filter (\<lambda>x. x \<ge> h) ks)" by simp
  then have "x \<in> set ks" "h \<le> x" by simp_all
  moreover have "\<forall>y \<in> set ks. h \<le> y \<longrightarrow> x \<le> y"
  proof -
    have "sorted (x # xs)" using sorted_filter [of id ks "\<lambda>x. x \<ge> h"] assms(1) Cons by simp
    then have "\<forall>y \<in> set (filter (\<lambda>x. x \<ge> h) ks). x \<le> y" unfolding Cons by simp
    then show ?thesis by simp
  qed
  moreover have "successor ks h = x" using Cons by (simp add: successor_def)
  ultimately show ?thesis by (simp add: nearest_def)
qed

lemma search_successor:
  assumes "sorted ks" and "ks \<noteq> []"
  shows "(let idx = sort_Search (length ks) (\<lambda>i. ks ! i \<ge> h)
          in ks ! (if idx = length ks then 0 else idx)) = successor ks h"
proof -
  let ?idx = "sort_Search (length ks) (\<lambda>i. ks ! i \<ge> h)"
  have mono: "\<And>a b. a \<le> b \<Longrightarrow> b < length ks \<Longrightarrow> h \<le> ks ! a \<Longrightarrow> h \<le> ks ! b"
    using sorted_nth_mono [OF assms(1)] order_trans by blast
  have s: "?idx \<le> length ks" "\<And>a. a < ?idx \<Longrightarrow> \<not> ks ! a \<ge> h" "\<And>a. ?idx \<le> a \<Longrightarrow> a < length ks \<Longrightarrow> ks ! a \<ge> h"
    using sort_Search_spec [of "length ks" "\<lambda>i. ks ! i \<ge> h"] mono by blast+
  have "filter (\<lambda>x. x \<ge> h) (take ?idx ks) = []"
    using s(2) by (auto simp: filter_empty_conv in_set_conv_nth)
  moreover have "filter (\<lambda>x. x \<ge> h) (drop ?idx ks) = drop ?idx ks"
    using s(3) by (auto simp: filter_id_conv in_set_conv_nth)
  ultimately have "filter (\<lambda>x. x \<ge> h) ks = drop ?idx ks"
    using filter_append [of "\<lambda>x. x \<ge> h" "take ?idx ks" "drop ?idx ks"] by simp
  moreover have split: "?idx < length ks \<Longrightarrow> drop ?idx ks = ks ! ?idx # drop (Suc ?idx) ks" by (rule Cons_nth_drop_Suc [symmetric])
  ultimately show ?thesis
    using s(1) assms(2) by (cases "?idx < length ks") (simp_all add: successor_def hd_conv_nth Let_def)
qed

subsection \<open>Effects of the loops\<close>

lemma addNode_loop:
  "fold (\<lambda>i m. m\<lparr>m_keys := m_keys m @ [vhash (m_config m) node i],
                   hashMap := mput (vhash (m_config m) node i) node (hashMap m)\<rparr>) is m
    = m\<lparr>m_keys := m_keys m @ map (vhash (m_config m) node) is,
        hashMap := fold (\<lambda>i. mput (vhash (m_config m) node i) node) is (hashMap m)\<rparr>"
  by (induction "is" arbitrary: m) simp_all

lemma Remove_loop:
  "fold (\<lambda>i m. m\<lparr>hashMap := mdel (vhash (m_config m) node i) (hashMap m),
                   m_keys := remove1 (vhash (m_config m) node i) (m_keys m)\<rparr>) is m
    = m\<lparr>hashMap := fold (\<lambda>i. mdel (vhash (m_config m) node i)) is (hashMap m),
        m_keys := fold (\<lambda>i. remove1 (vhash (m_config m) node i)) is (m_keys m)\<rparr>"
  by (induction "is" arbitrary: m) simp_all

lemma fold_mput: "mget (fold (\<lambda>i. mput (f i) v) is mm) h = (if h \<in> f ` set is then Some v else mget mm h)"
  by (induction "is" arbitrary: mm) auto

lemma fold_mdel: "mget (fold (\<lambda>i. mdel (f i)) is mm) h = (if h \<in> f ` set is then None else mget mm h)"
  by (induction "is" arbitrary: mm) auto

lemma fold_remove1:
  assumes "distinct ks"
  shows "fold (\<lambda>i. remove1 (f i)) is ks = filter (\<lambda>h. h \<notin> f ` set is) ks"
  using assms
proof (induction "is" arbitrary: ks)
  case (Cons i "is")
  have "fold (\<lambda>i. remove1 (f i)) is (remove1 (f i) ks) = filter (\<lambda>h. h \<notin> f ` set is) (filter (\<lambda>y. y \<noteq> f i) ks)"
    using Cons by (simp add: remove1_filter)
  then show ?case by (auto intro: filter_cong)
qed simp

lemma fold_mdel_ok: "gomap_ok mm \<Longrightarrow> gomap_ok (fold (\<lambda>i. mdel (f i)) is mm)"
  by (induction "is" arbitrary: mm) auto

lemma getd_mput [simp]: "getd d (mput k v mm) k' = (if k' = k then v else getd d mm k')"
  by (simp add: getd_def)

lemma getd_mdel [simp]: "getd d (mdel k mm) k' = (if k' = k then d else getd d mm k')"
  by (simp add: getd_def)

lemma ring_okD:
  assumes "ring_ok m"
  shows "\<not> m_locked m" "sorted (m_keys m)" "distinct (m_keys m)" "gomap_ok (nodeReplicas m)" "gomap_ok (nodeCounts m)"
    "set (m_keys m) = dom (mget (hashMap m))"
    "\<And>h n. mget (hashMap m) h = Some n \<longleftrightarrow> n \<in> members m \<and> is_vnode m n h"
    "set (mkeys (nodeCounts m)) = members m"
    "\<And>n. n \<in> members m \<Longrightarrow> 0 < getd 0 (nodeReplicas m) n" "\<And>n. n \<in> members m \<Longrightarrow> n \<noteq> []"
  using assms unfolding ring_ok_def by blast+

subsection \<open>Add\<close>

lemma Add_fresh:
  assumes ok: "ring_ok m" and fresh: "fresh_node node m"
  shows "\<exists>m'. Add [node] m = Ok (None, m') \<and> ring_ok m' \<and> members m' = insert node (members m)
    \<and> m_config m' = m_config m \<and> m_done m' = m_done m
    \<and> set (m_keys m') = set (m_keys m) \<union> vhash (m_config m) node ` {..<nat (DefaultReplicas (m_config m))}
    \<and> (\<forall>h. mget (hashMap m') h =
          (if h \<in> vhash (m_config m) node ` {..<nat (DefaultReplicas (m_config m))} then Some node else mget (hashMap m) h))
    \<and> nodeReplicas m' = mput node (DefaultReplicas (m_config m)) (nodeReplicas m)"
proof -
  note d = ring_okD [OF ok]
  let ?r = "DefaultReplicas (m_config m)" and ?vh = "vhash (m_config m) node"
  let ?new = "?vh ` {..<nat ?r}"
  have f: "node \<noteq> []" "node \<notin> members m" "0 < ?r" "inj_on ?vh {..<nat ?r}" "?new \<inter> set (m_keys m) = {}"
    using fresh by (auto simp: fresh_node_def hashes_apart_def)
  let ?hm = "fold (\<lambda>i. mput (?vh i) node) [0..<nat ?r] (hashMap m)"
  let ?m' = "m\<lparr>m_keys := sort (m_keys m @ map ?vh [0..<nat ?r]), hashMap := ?hm,
      nodeReplicas := mput node ?r (nodeReplicas m), nodeCounts := mput node 0 (nodeCounts m)\<rparr>"
  have "node \<notin> set (mkeys (nodeCounts m))" using f(2) d(8) by simp
  then have add: "Add [node] m = Ok (None, ?m')"
    using d(1) f(1) by (simp add: Add_def addNode_def addNode_loop Let_def)
  have hm: "mget ?hm h = (if h \<in> ?new then Some node else mget (hashMap m) h)" for h
    using fold_mput [of ?vh node "[0..<nat ?r]" "hashMap m" h] by (simp add: atLeast0LessThan)
  have mem: "members ?m' = insert node (members m)" by (simp add: members_def)
  have vn: "is_vnode ?m' n h \<longleftrightarrow> (if n = node then h \<in> ?new else is_vnode m n h)" for n h
    by (auto simp: is_vnode_def)
  have keys: "set (m_keys ?m') = set (m_keys m) \<union> ?new" by (simp add: atLeast0LessThan)
  have map_iff: "mget (hashMap ?m') h = Some n \<longleftrightarrow> n \<in> members ?m' \<and> is_vnode ?m' n h" for h n
  proof (cases "h \<in> ?new")
    case True
    then have "h \<notin> set (m_keys m)" using f(5) by blast
    then have "\<not> (n \<in> members m \<and> is_vnode m n h)" using d(6,7) by (metis domI)
    with True show ?thesis using f(2) by (auto simp: hm mem vn)
  next
    case False
    then show ?thesis using f(2) d(7) by (auto simp: hm mem vn)
  qed
  have "ring_ok ?m'"
    unfolding ring_ok_def
  proof (intro conjI allI ballI)
    show "distinct (m_keys ?m')" using d(3) f(4,5) by (auto simp: distinct_map atLeast0LessThan)
    show "set (m_keys ?m') = dom (mget (hashMap ?m'))"
      unfolding keys using d(6) by (auto simp: hm dom_def)
    show "\<And>h n. (mget (hashMap ?m') h = Some n) = (n \<in> members ?m' \<and> is_vnode ?m' n h)" by (rule map_iff)
    show "\<And>n. n \<in> members ?m' \<Longrightarrow> 0 < getd 0 (nodeReplicas ?m') n" using d(9) f(3) by (auto simp: mem)
    show "\<And>n. n \<in> members ?m' \<Longrightarrow> n \<noteq> []" using d(10) f(1) by (auto simp: mem)
  qed (use d in \<open>simp_all add: members_def\<close>)
  with add mem keys hm show ?thesis by (intro exI [of _ ?m']) simp
qed

subsection \<open>Remove\<close>

lemma Remove_member:
  assumes ok: "ring_ok m" and node: "node \<in> members m"
  shows "\<exists>m'. Remove node m = Ok (None, m') \<and> ring_ok m' \<and> members m' = members m - {node}
    \<and> m_config m' = m_config m \<and> m_done m' = m_done m
    \<and> m_keys m' = filter (\<lambda>h. mget (hashMap m) h \<noteq> Some node) (m_keys m)
    \<and> (\<forall>h. mget (hashMap m') h = (if mget (hashMap m) h = Some node then None else mget (hashMap m) h))
    \<and> nodeReplicas m' = mdel node (nodeReplicas m)"
proof -
  note d = ring_okD [OF ok]
  let ?r = "getd 0 (nodeReplicas m) node" and ?vh = "vhash (m_config m) node"
  let ?old = "?vh ` {..<nat ?r}"
  have old: "h \<in> ?old \<longleftrightarrow> mget (hashMap m) h = Some node" for h
    using d(7) node by (auto simp: is_vnode_def)
  let ?hm = "fold (\<lambda>i. mdel (?vh i)) [0..<nat ?r] (hashMap m)"
  let ?ks = "fold (\<lambda>i. remove1 (?vh i)) [0..<nat ?r] (m_keys m)"
  let ?m' = "m\<lparr>hashMap := ?hm, m_keys := ?ks, nodeReplicas := mdel node (nodeReplicas m), nodeCounts := mdel node (nodeCounts m)\<rparr>"
  have rem: "Remove node m = Ok (None, ?m')"
    using d(1) d(9) [OF node] d(10) [OF node] by (simp add: Remove_def Remove_loop Let_def)
  have hm: "mget ?hm h = (if mget (hashMap m) h = Some node then None else mget (hashMap m) h)" for h
    using fold_mdel [of ?vh "[0..<nat ?r]" "hashMap m" h] old [of h] by (simp add: atLeast0LessThan)
  have ks: "?ks = filter (\<lambda>h. mget (hashMap m) h \<noteq> Some node) (m_keys m)"
    using fold_remove1 [OF d(3), of ?vh "[0..<nat ?r]"] old by (simp add: atLeast0LessThan)
  have mem: "members ?m' = members m - {node}" by (simp add: members_def)
  have vn: "n \<noteq> node \<Longrightarrow> is_vnode ?m' n h \<longleftrightarrow> is_vnode m n h" for n h by (simp add: is_vnode_def)
  have "ring_ok ?m'"
    unfolding ring_ok_def
  proof (intro conjI allI ballI)
    show "sorted (m_keys ?m')" using d(2) sorted_filter [of id] by (simp add: ks)
    show "distinct (m_keys ?m')" using d(3) by (simp add: ks)
    show "set (m_keys ?m') = dom (mget (hashMap ?m'))"
      using d(6) by (auto simp: ks hm dom_def split: if_splits)
    show "\<And>h n. (mget (hashMap ?m') h = Some n) = (n \<in> members ?m' \<and> is_vnode ?m' n h)"
    proof -
      fix h n
      show "(mget (hashMap ?m') h = Some n) = (n \<in> members ?m' \<and> is_vnode ?m' n h)"
        using d(7) [of h n] vn [of n h] by (cases "n = node") (auto simp: hm mem)
    qed
    show "\<And>n. n \<in> members ?m' \<Longrightarrow> 0 < getd 0 (nodeReplicas ?m') n" using d(9) by (auto simp: mem)
    show "\<And>n. n \<in> members ?m' \<Longrightarrow> n \<noteq> []" using d(10) by (auto simp: mem)
  qed (use d in \<open>simp_all add: members_def\<close>)
  with rem mem ks hm show ?thesis by (intro exI [of _ ?m']) simp
qed

subsection \<open>Get\<close>

lemma owner_member:
  assumes ok: "ring_ok m" and ne: "m_keys m \<noteq> []"
  shows "mget (hashMap m) (successor (m_keys m) h) = Some (getd [] (hashMap m) (successor (m_keys m) h))"
    "getd [] (hashMap m) (successor (m_keys m) h) \<in> members m"
proof -
  note d = ring_okD [OF ok]
  have "successor (m_keys m) h \<in> set (m_keys m)"
    using nearest_successor [OF d(2) ne, of h] by (simp add: nearest_def)
  then obtain n where n: "mget (hashMap m) (successor (m_keys m) h) = Some n" using d(6) by auto
  then show "mget (hashMap m) (successor (m_keys m) h) = Some (getd [] (hashMap m) (successor (m_keys m) h))"
    by (simp add: getd_def)
  have "n \<in> members m" using n d(7) by blast
  with n show "getd [] (hashMap m) (successor (m_keys m) h) \<in> members m"
    by (simp add: getd_def)
qed

lemma Get_owner:
  assumes ok: "ring_ok m" and ne: "m_keys m \<noteq> []" and key: "key \<noteq> []"
  shows "\<exists>m' cnt. Get key m = Ok (owner m key, m') \<and> ring_ok m' \<and> owner m key \<in> members m
    \<and> mget (nodeCounts m) (owner m key) = Some cnt
    \<and> m' = m\<lparr>nodeCounts := mput (owner m key) (cnt + 1) (nodeCounts m), totalRequests := totalRequests m + 1\<rparr>"
proof -
  note d = ring_okD [OF ok]
  let ?h = "uint (HashFunc (m_config m) key)"
  have idx: "m_keys m ! (if sort_Search (length (m_keys m)) (\<lambda>i. m_keys m ! i \<ge> ?h) = length (m_keys m) then 0
      else sort_Search (length (m_keys m)) (\<lambda>i. m_keys m ! i \<ge> ?h)) = successor (m_keys m) ?h"
    using search_successor [OF d(2) ne, of ?h] by (simp add: Let_def)
  have mem: "owner m key \<in> members m" using owner_member(2) [OF ok ne] by (simp add: owner_def)
  then have "owner m key \<in> set (mkeys (nodeCounts m))" using d(8) by simp
  then obtain cnt where cnt: "mget (nodeCounts m) (owner m key) = Some cnt"
    unfolding mget_dom [symmetric] by auto
  let ?m' = "m\<lparr>nodeCounts := mput (owner m key) (cnt + 1) (nodeCounts m), totalRequests := totalRequests m + 1\<rparr>"
  have "Get key m = Ok (owner m key, ?m')"
    using key d(1) ne cnt idx by (simp add: Get_def Let_def owner_def)
  moreover have "ring_ok ?m'"
    using ok mem by (auto simp: ring_ok_def members_def is_vnode_def)
  ultimately show ?thesis using mem cnt by blast
qed

subsection \<open>Clusters whose virtual nodes do not collide\<close>

lemma cluster_fresh:
  assumes ok: "ring_ok m" and rep: "default_replicas m" and cl: "cluster_ok (m_config m) A"
    and sub: "members m \<subseteq> A" and addr: "addr \<in> A" "addr \<noteq> []" "addr \<notin> members m"
  shows "fresh_node addr m"
proof -
  let ?R = "nat (DefaultReplicas (m_config m))" and ?vh = "vhash (m_config m)"
  have inj: "n \<in> A \<Longrightarrow> n' \<in> A \<Longrightarrow> i < ?R \<Longrightarrow> j < ?R \<Longrightarrow> ?vh n i = ?vh n' j \<Longrightarrow> n = n' \<and> i = j" for n n' i j
    using cl unfolding cluster_ok_def inj_on_def by fastforce
  have "?vh addr i \<notin> set (m_keys m)" if i: "i < ?R" for i
  proof
    assume "?vh addr i \<in> set (m_keys m)"
    then obtain n where "mget (hashMap m) (?vh addr i) = Some n" using ring_okD(6) [OF ok] by auto
    then have n: "n \<in> members m" "is_vnode m n (?vh addr i)" using ring_okD(7) [OF ok] by blast+
    then obtain j where "j < ?R" "?vh addr i = ?vh n j"
      using rep by (auto simp: is_vnode_def default_replicas_def)
    with inj [of addr n i j] addr(1,3) n(1) sub i show False by auto
  qed
  moreover have "inj_on (?vh addr) {..<?R}" using inj [of addr addr] addr(1) by (auto simp: inj_on_def)
  ultimately show ?thesis using addr cl by (simp add: fresh_node_def hashes_apart_def cluster_ok_def)
qed

lemma default_replicas_put:
  "default_replicas m \<Longrightarrow> m_config m' = m_config m \<Longrightarrow> nodeReplicas m' = mput n (DefaultReplicas (m_config m)) (nodeReplicas m)
    \<Longrightarrow> default_replicas m'"
  by (auto simp: default_replicas_def members_def)

lemma default_replicas_del:
  "default_replicas m \<Longrightarrow> m_config m' = m_config m \<Longrightarrow> nodeReplicas m' = mdel n (nodeReplicas m) \<Longrightarrow> default_replicas m'"
  by (auto simp: default_replicas_def members_def)

end
