(* ===== verification/Hash_Ring_Props.thy ===== *)
theory Hash_Ring_Props
  imports Hash_Ring_Correct
begin

text \<open>
  The properties of \<open>consistenthash\<close>: routing to the owner, minimal disruption when nodes
  come and go, the invariant of the ring, and what the balancer and repeated joins do.
\<close>

text \<open>A ring of two nodes with one virtual node each, at the lengths of their labels.\<close>

definition toy_config :: Config where
  "toy_config = \<lparr>DefaultReplicas = 1, MinReplicas = 1, MaxReplicas = 9,
     HashFunc = (\<lambda>s. of_nat (length s)), LoadBalanceThreshold = 1 / 4\<rparr>"

lemma ring_ok_New: "ring_ok (New cfg)"
  by (simp add: ring_ok_def New_def members_def)

lemma dec_small: "n < 10 \<Longrightarrow> dec n = [char_of (48 + n)]"
  by (simp add: dec.simps)

lemma toy_vhash: "i < 10 \<Longrightarrow> vhash toy_config node i = uint (of_nat (length node + 2) :: 32 word)"
  by (simp add: vhash_def toy_config_def dec_small)

lemma toy_fresh: "fresh_node ''a'' (New toy_config)"
  by (simp add: fresh_node_def New_def members_def hashes_apart_def toy_config_def inj_on_def)

lemma toy_added:
  "\<exists>m. Add [''a''] (New toy_config) = Ok (None, m) \<and> ring_ok m \<and> members m = {''a''} \<and> m_keys m \<noteq> []"
proof -
  obtain m where m: "Add [''a''] (New toy_config) = Ok (None, m)" "ring_ok m"
      "members m = insert ''a'' (members (New toy_config))"
      "set (m_keys m) = set (m_keys (New toy_config)) \<union>
         vhash (m_config (New toy_config)) ''a'' ` {..<nat (DefaultReplicas (m_config (New toy_config)))}"
    using Add_fresh [OF ring_ok_New toy_fresh] by blast
  have "members (New toy_config) = {}" by (simp add: New_def members_def)
  moreover have "nat (DefaultReplicas (m_config (New toy_config))) = 1" by (simp add: New_def toy_config_def)
  then have "m_keys m \<noteq> []" using m(4) by force
  ultimately show ?thesis using m by simp
qed

subsection \<open>Routing\<close>

text \<open>
  C9. Routing: on a well-formed ring with a member, \<open>Get\<close> of a key returns the member that
  owns the first position at or after the key's hash, or the first position of the ring; it
  does not panic, counts the request, and leaves the ring well formed.
\<close>

theorem ring_get_owner:
  assumes "ring_ok m" and "m_keys m \<noteq> []" and "key \<noteq> []"
  shows "\<exists>m' cnt. Get key m = Ok (owner m key, m') \<and> ring_ok m' \<and> owner m key \<in> members m
    \<and> nearest (set (m_keys m)) (uint (HashFunc (m_config m) key))
        (successor (m_keys m) (uint (HashFunc (m_config m) key)))
    \<and> mget (nodeCounts m) (owner m key) = Some cnt
    \<and> m' = m\<lparr>nodeCounts := mput (owner m key) (cnt + 1) (nodeCounts m), totalRequests := totalRequests m + 1\<rparr>"
  using Get_owner [OF assms] nearest_successor [OF ring_okD(2) [OF assms(1)] assms(2)] by blast

theorem ring_get_owner_witness:
  "\<exists>m m'. Add [''a''] (New toy_config) = Ok (None, m) \<and> Get ''key'' m = Ok (owner m ''key'', m') \<and> owner m ''key'' = ''a''"
proof -
  obtain m where m: "Add [''a''] (New toy_config) = Ok (None, m)" "ring_ok m" "members m = {''a''}" "m_keys m \<noteq> []"
    using toy_added by blast
  have "''key'' \<noteq> []" by simp
  from ring_get_owner [OF m(2,4) this] obtain m' where
    "Get ''key'' m = Ok (owner m ''key'', m')" "owner m ''key'' \<in> members m" by blast
  with m(1,3) show ?thesis by auto
qed

lemma successor_members:
  assumes ok: "ring_ok m" and ok': "ring_ok m'" and ne: "m_keys m \<noteq> []" and ne': "m_keys m' \<noteq> []"
    and cfg: "m_config m' = m_config m" and sub: "set (m_keys m) \<subseteq> set (m_keys m')"
    and in_old: "successor (m_keys m') (uint (HashFunc (m_config m) key)) \<in> set (m_keys m)"
  shows "successor (m_keys m') (uint (HashFunc (m_config m) key)) = successor (m_keys m) (uint (HashFunc (m_config m) key))"
  using nearest_unique [OF nearest_subset [OF nearest_successor [OF ring_okD(2) [OF ok'] ne'] sub in_old]
      nearest_successor [OF ring_okD(2) [OF ok] ne]] .

text \<open>
  C10. Minimal disruption of a join: adding a fresh node to a well-formed ring succeeds, keeps
  the ring well formed, and afterwards every key has the owner it had or belongs to the new
  node.
\<close>

theorem ring_add_minimal:
  assumes "ring_ok m" and "fresh_node node m"
  shows "\<exists>m'. Add [node] m = Ok (None, m') \<and> ring_ok m' \<and> members m' = insert node (members m)
    \<and> (\<forall>key. m_keys m \<noteq> [] \<longrightarrow> owner m' key = owner m key \<or> owner m' key = node)"
proof -
  let ?new = "vhash (m_config m) node ` {..<nat (DefaultReplicas (m_config m))}"
  obtain m' where m': "Add [node] m = Ok (None, m')" "ring_ok m'" "members m' = insert node (members m)"
      "m_config m' = m_config m" "set (m_keys m') = set (m_keys m) \<union> ?new"
      "\<And>h. mget (hashMap m') h = (if h \<in> ?new then Some node else mget (hashMap m) h)"
    using Add_fresh [OF assms] by blast
  have "owner m' key = owner m key \<or> owner m' key = node" if ne: "m_keys m \<noteq> []" for key
  proof -
    let ?x = "successor (m_keys m') (uint (HashFunc (m_config m) key))"
    have ne': "m_keys m' \<noteq> []" using m'(5) ne by (metis Un_empty set_empty)
    show ?thesis
    proof (cases "?x \<in> ?new")
      case True
      then show ?thesis using m'(4,6) by (simp add: owner_def getd_def)
    next
      case False
      moreover have "?x \<in> set (m_keys m')"
        using nearest_successor [OF ring_okD(2) [OF m'(2)] ne'] by (simp add: nearest_def)
      ultimately have "?x \<in> set (m_keys m)" using m'(5) by blast
      from successor_members [OF assms(1) m'(2) ne ne' m'(4) _ this] m'(4,5,6) False show ?thesis
        by (simp add: owner_def getd_def)
    qed
  qed
  with m' show ?thesis by blast
qed

theorem ring_add_minimal_witness:
  "\<exists>m'. Add [''a''] (New toy_config) = Ok (None, m') \<and> ring_ok m' \<and> members m' = {''a''}"
proof -
  have "members (New toy_config) = {}" by (simp add: New_def members_def)
  with ring_add_minimal [OF ring_ok_New toy_fresh] show ?thesis by metis
qed

text \<open>
  C11. Minimal disruption of a leave: removing a member succeeds, keeps the ring well formed,
  and every key that did not belong to it keeps its owner.
\<close>

theorem ring_remove_minimal:
  assumes "ring_ok m" and "node \<in> members m"
  shows "\<exists>m'. Remove node m = Ok (None, m') \<and> ring_ok m' \<and> members m' = members m - {node}
    \<and> (\<forall>key. m_keys m \<noteq> [] \<and> owner m key \<noteq> node \<longrightarrow> owner m' key = owner m key)"
proof -
  obtain m' where m': "Remove node m = Ok (None, m')" "ring_ok m'" "members m' = members m - {node}"
      "m_config m' = m_config m" "m_keys m' = filter (\<lambda>h. mget (hashMap m) h \<noteq> Some node) (m_keys m)"
      "\<And>h. mget (hashMap m') h = (if mget (hashMap m) h = Some node then None else mget (hashMap m) h)"
    using Remove_member [OF assms] by blast
  have "owner m' key = owner m key" if ne: "m_keys m \<noteq> []" and other: "owner m key \<noteq> node" for key
  proof -
    let ?x = "successor (m_keys m) (uint (HashFunc (m_config m) key))"
    have x: "mget (hashMap m) ?x = Some (owner m key)"
      using owner_member(1) [OF assms(1) ne] by (simp add: owner_def)
    moreover have "?x \<in> set (m_keys m)"
      using nearest_successor [OF ring_okD(2) [OF assms(1)] ne] by (simp add: nearest_def)
    ultimately have in': "?x \<in> set (m_keys m')" using other m'(5) by simp
    then have ne': "m_keys m' \<noteq> []" by auto
    have sub: "set (m_keys m') \<subseteq> set (m_keys m)" using m'(5) by auto
    have "?x = successor (m_keys m') (uint (HashFunc (m_config m') key))"
      using successor_members [OF m'(2) assms(1) ne' ne m'(4) [symmetric] sub, of key] in' m'(4) by simp
    then have "owner m' key = getd [] (hashMap m') ?x" by (simp add: owner_def)
    moreover have "mget (hashMap m') ?x = Some (owner m key)" using x other m'(6) by simp
    ultimately show ?thesis by (simp add: getd_def)
  qed
  with m' show ?thesis by blast
qed

theorem ring_remove_minimal_witness:
  "\<exists>m m'. Add [''a''] (New toy_config) = Ok (None, m) \<and> Remove ''a'' m = Ok (None, m') \<and> members m' = {}"
proof -
  obtain m where m: "Add [''a''] (New toy_config) = Ok (None, m)" "ring_ok m" "members m = {''a''}"
    using toy_added by blast
  then have "''a'' \<in> members m" by simp
  from ring_remove_minimal [OF m(2) this] obtain m' where
    "Remove ''a'' m = Ok (None, m')" "members m' = members m - {''a''}" by blast
  with m(1,3) show ?thesis by auto
qed

text \<open>
  Round trip: adding a fresh node and removing it again restores the positions of the
  ring and the owner of every key.
\<close>

theorem ring_add_remove:
  assumes "ring_ok m" and "fresh_node node m"
  shows "\<exists>m1 m2. Add [node] m = Ok (None, m1) \<and> Remove node m1 = Ok (None, m2)
    \<and> m_keys m2 = m_keys m \<and> members m2 = members m \<and> (\<forall>key. owner m2 key = owner m key)"
proof -
  let ?new = "vhash (m_config m) node ` {..<nat (DefaultReplicas (m_config m))}"
  obtain m1 where m1: "Add [node] m = Ok (None, m1)" "ring_ok m1" "members m1 = insert node (members m)"
      "m_config m1 = m_config m" "set (m_keys m1) = set (m_keys m) \<union> ?new"
      "\<And>h. mget (hashMap m1) h = (if h \<in> ?new then Some node else mget (hashMap m) h)"
    using Add_fresh [OF assms] by blast
  have "node \<in> members m1" using m1(3) by simp
  from Remove_member [OF m1(2) this] obtain m2 where m2: "Remove node m1 = Ok (None, m2)" "ring_ok m2"
      "members m2 = members m1 - {node}" "m_config m2 = m_config m1"
      "m_keys m2 = filter (\<lambda>h. mget (hashMap m1) h \<noteq> Some node) (m_keys m1)"
      "\<And>h. mget (hashMap m2) h = (if mget (hashMap m1) h = Some node then None else mget (hashMap m1) h)"
    by blast
  have new: "node \<notin> members m" "?new \<inter> set (m_keys m) = {}" using assms(2) by (auto simp: fresh_node_def)
  have old: "mget (hashMap m) h \<noteq> Some node" for h using ring_okD(7) [OF assms(1)] new(1) by blast
  have out: "h \<in> ?new \<Longrightarrow> mget (hashMap m) h = None" for h using ring_okD(6) [OF assms(1)] new(2) by auto
  have "set (m_keys m2) = set (m_keys m)" using m2(5) m1(5,6) new(2) old by auto
  then have keys: "m_keys m2 = m_keys m"
    using sorted_distinct_set_unique ring_okD(2,3) [OF assms(1)] ring_okD(2,3) [OF m2(2)] by blast
  have "mget (hashMap m2) h = mget (hashMap m) h" for h using m2(6) m1(6) old out by auto
  then have "owner m2 key = owner m key" for key
    using keys m1(4) m2(4) by (simp add: owner_def getd_def)
  moreover have "members m2 = members m" using m1(3) m2(3) new(1) by auto
  ultimately show ?thesis using m1(1) m2(1) keys by blast
qed

theorem ring_add_remove_witness:
  "\<exists>m1 m2. Add [''a''] (New toy_config) = Ok (None, m1) \<and> Remove ''a'' m1 = Ok (None, m2) \<and> m_keys m2 = []"
proof -
  have "m_keys (New toy_config) = []" by (simp add: New_def)
  with ring_add_remove [OF ring_ok_New toy_fresh] show ?thesis by metis
qed

subsection \<open>The balancer\<close>

lemma rebalance_loop_locked:
  assumes "m_locked m" and "\<forall>(n, c) \<in> set cs. n \<noteq> []"
  shows "rebalance_loop avg cs m =
    (if \<exists>(n, c) \<in> set cs. newReplicas (m_config m) avg (getd 0 (nodeReplicas m) n) c \<noteq> getd 0 (nodeReplicas m) n
     then Deadlock else Ok m)"
  using assms(2)
proof (induction cs)
  case (Cons p cs)
  obtain n c where p: "p = (n, c)" by fastforce
  with Cons.prems have "n \<noteq> []" by simp
  then have "Remove n m = Deadlock" using assms(1) by (simp add: Remove_def)
  then show ?case using Cons by (auto simp: p Let_def)
qed simp

lemma rebalanceNodes_eq:
  assumes "ring_ok m"
  shows "rebalanceNodes m =
    (if \<exists>(n, c) \<in> set (nodeCounts m).
         newReplicas (m_config m) (f64_div (f64_of_int (totalRequests m)) (f64_of_int (int (length (nodeReplicas m)))))
           (getd 0 (nodeReplicas m) n) c \<noteq> getd 0 (nodeReplicas m) n
     then Deadlock
     else Ok (m\<lparr>nodeCounts := map (\<lambda>(n, c). (n, 0)) (nodeCounts m), totalRequests := 0\<rparr>))"
proof -
  note d = ring_okD [OF assms]
  have "\<forall>(n, c) \<in> set (nodeCounts m). n \<noteq> []"
  proof clarify
    fix c assume "([], c) \<in> set (nodeCounts m)"
    then have "[] \<in> set (mkeys (nodeCounts m))" by force
    with d(8) d(10) [of "[]"] show False by simp
  qed
  from rebalance_loop_locked [of "m\<lparr>m_locked := True\<rparr>", OF _ this]
  have loop: "rebalance_loop avg (nodeCounts m) (m\<lparr>m_locked := True\<rparr>) =
    (if \<exists>(n, c) \<in> set (nodeCounts m). newReplicas (m_config m) avg (getd 0 (nodeReplicas m) n) c \<noteq> getd 0 (nodeReplicas m) n
     then Deadlock else Ok (m\<lparr>m_locked := True\<rparr>))" for avg by simp
  have "sort (m_keys m) = m_keys m" using d(2) by (simp add: sorted_sort_id)
  moreover have "m\<lparr>m_locked := True, nodeCounts := x, totalRequests := 0, m_keys := m_keys m, m_locked := False\<rparr>
      = m\<lparr>nodeCounts := x, totalRequests := 0\<rparr>" for x using d(1) by simp
  ultimately show ?thesis
    using d(1) by (simp add: rebalanceNodes_def loop Let_def)
qed

text \<open>
  The balancer never changes the replicas: \<open>rebalanceNodes\<close> calls \<open>Remove\<close> while it holds
  the lock that \<open>Remove\<close> takes, so as soon as one member's new number of replicas differs it
  waits for itself for ever; otherwise it only resets the counters.
\<close>

theorem rebalance_deadlocks:
  assumes "ring_ok m"
  shows "rebalanceNodes m =
    (if \<exists>(n, c) \<in> set (nodeCounts m).
         newReplicas (m_config m) (f64_div (f64_of_int (totalRequests m)) (f64_of_int (int (length (nodeReplicas m)))))
           (getd 0 (nodeReplicas m) n) c \<noteq> getd 0 (nodeReplicas m) n
     then Deadlock
     else Ok (m\<lparr>nodeCounts := map (\<lambda>(n, c). (n, 0)) (nodeCounts m), totalRequests := 0\<rparr>))"
  by (rule rebalanceNodes_eq [OF assms])

theorem rebalance_deadlocks_witness:
  "rebalanceNodes (New DefaultConfig) = Ok (New DefaultConfig)"
  using rebalance_deadlocks [OF ring_ok_New, of DefaultConfig] by (simp add: New_def)

text \<open>
  The deadlock is reached by ordinary traffic: with the default configuration and two
  nodes, a thousand requests that all went to one of them make the next check wait for ever.
\<close>

theorem hot_node_deadlocks:
  "checkAndRebalance \<lparr>m_locked = False, m_config = DefaultConfig, m_keys = ks, hashMap = hm,
     nodeReplicas = [(''a'', 50), (''b'', 50)], nodeCounts = [(''a'', 1000), (''b'', 0)],
     totalRequests = 1000, m_done = False\<rparr> = Deadlock"
proof -
  have avg: "f64_div (f64_of_int 1000) (f64_of_int 2) = 500" by code_simp
  have diff: "f64_div \<bar>f64_sub (f64_of_int 1000) 500\<bar> 500 = 1" "f64_div \<bar>f64_sub (f64_of_int 0) 500\<bar> 500 = 1"
    by code_simp+
  have new: "newReplicas DefaultConfig 500 50 1000 = 25"
    unfolding newReplicas_def DefaultConfig_def by simp code_simp
  have threshold: "LoadBalanceThreshold DefaultConfig = 1 / 4" by (simp add: DefaultConfig_def)
  show ?thesis
    by (simp add: checkAndRebalance_def needRebalance_def maxDiff_def rebalanceNodes_def avg diff new getd_def Remove_def
        threshold)
qed

text \<open>
  A node that joins twice has two copies of each position: after one \<open>Remove\<close> the second
  copies are left without an owner, and a \<open>Get\<close> that meets one dereferences a nil counter.
\<close>

lemma double_join_then_leave_panics:
  "\<exists>m1 m2 m3. Add [''a''] (New toy_config) = Ok (None, m1) \<and> Add [''a''] m1 = Ok (None, m2)
     \<and> Remove ''a'' m2 = Ok (None, m3) \<and> Get ''key'' m3 = Panic"
  by (simp add: Add_def Remove_def Get_def addNode_def New_def toy_config_def getd_def vhash_def dec_small Let_def)

subsection \<open>The ring under every order of calls\<close>

text \<open>
  The calls a client may make: a node joins while it is not a member, and \<open>Close\<close> is called once.
  Everything else may come at any time.
\<close>

fun ring_plan :: "string set \<Rightarrow> ring_event list \<Rightarrow> string set \<times> bool \<Rightarrow> (string set \<times> bool) option" where
  "ring_plan A [] (M, shut) = Some (M, shut)"
| "ring_plan A (Join n # es) (M, shut) =
     (if n \<noteq> [] \<and> n \<in> A \<and> n \<notin> M then ring_plan A es (insert n M, shut) else None)"
| "ring_plan A (Leave n # es) (M, shut) = ring_plan A es (M - {n}, shut)"
| "ring_plan A (Shut # es) (M, shut) = (if shut then None else ring_plan A es (M, True))"
| "ring_plan A (_ # es) (M, shut) = ring_plan A es (M, shut)"

fun is_ask :: "ring_event \<Rightarrow> bool" where
  "is_ask (Ask key) = True"
| "is_ask _ = False"

definition asks :: "ring_event list \<Rightarrow> nat" where
  "asks es = length (filter is_ask es)"

lemma asks_simps [simp]: "asks [] = 0" "asks (e # es) = (if is_ask e then Suc (asks es) else asks es)"
  by (simp_all add: asks_def)

text \<open>The state of the ring and of its balancer: \<open>n\<close> bounds the requests counted so far.\<close>

definition ring_inv :: "Config \<Rightarrow> string set \<Rightarrow> nat \<Rightarrow> string set \<times> bool \<Rightarrow> balancer \<times> Map \<Rightarrow> bool" where
  "ring_inv cfg A n q s \<longleftrightarrow>
     ring_ok (snd s) \<and> default_replicas (snd s) \<and> m_config (snd s) = cfg \<and> members (snd s) = fst q \<and> fst q \<subseteq> A
     \<and> m_done (snd s) = snd q \<and> 0 \<le> totalRequests (snd s) \<and> totalRequests (snd s) \<le> int n
     \<and> (fst s = Rebalancing \<longrightarrow> 1000 \<le> n)"

lemma Add_keeps: "Add [n] m = Ok (e, m') \<Longrightarrow> m_done m' = m_done m \<and> totalRequests m' = totalRequests m"
  by (auto simp: Add_def addNode_def addNode_loop Let_def split: if_splits)

lemma Remove_keeps: "Remove n m = Ok (e, m') \<Longrightarrow> m_done m' = m_done m \<and> totalRequests m' = totalRequests m"
  by (auto simp: Remove_def Remove_loop Let_def split: if_splits)

lemma Remove_other:
  assumes "ring_ok m" and "n \<notin> members m"
  shows "\<exists>e. Remove n m = Ok (e, m)"
proof -
  have "mget (nodeReplicas m) n = None" using assms(2) mget_dom [of "nodeReplicas m"] by (auto simp: members_def)
  then have "getd 0 (nodeReplicas m) n = 0" by (simp add: getd_def)
  then show ?thesis using ring_okD(1) [OF assms(1)] by (auto simp: Remove_def Let_def)
qed

lemma Get_keeps:
  assumes "ring_ok m"
  shows "\<exists>a m'. Get key m = Ok (a, m') \<and> ring_ok m' \<and> members m' = members m \<and> m_config m' = m_config m
    \<and> m_done m' = m_done m \<and> nodeReplicas m' = nodeReplicas m
    \<and> totalRequests m \<le> totalRequests m' \<and> totalRequests m' \<le> totalRequests m + 1"
proof (cases "m_keys m \<noteq> [] \<and> key \<noteq> []")
  case True
  with Get_owner [OF assms] show ?thesis by (fastforce simp: members_def)
next
  case False
  with assms ring_okD(1) [OF assms] show ?thesis by (auto simp: Get_def)
qed

lemma rebalanceNodes_ok:
  assumes "ring_ok m" and "rebalanceNodes m = r"
  shows "r = Deadlock \<or> (\<exists>m'. r = Ok m' \<and> ring_ok m' \<and> members m' = members m \<and> m_config m' = m_config m
    \<and> m_done m' = m_done m \<and> nodeReplicas m' = nodeReplicas m \<and> totalRequests m' = 0)"
proof (cases "r = Deadlock")
  case False
  let ?z = "map (\<lambda>(n, c). (n, 0)) (nodeCounts m)"
  have keys: "mkeys ?z = mkeys (nodeCounts m)" by (simp add: comp_def split_beta)
  have "ring_ok (m\<lparr>nodeCounts := z, totalRequests := 0\<rparr>)" if "gomap_ok z" "set (mkeys z) = set (mkeys (nodeCounts m))" for z
    using assms(1) that by (simp add: ring_ok_def members_def is_vnode_def)
  from this [of ?z] have "ring_ok (m\<lparr>nodeCounts := ?z, totalRequests := 0\<rparr>)"
    using ring_okD(5) [OF assms(1)] unfolding keys by simp
  moreover have "r = Ok (m\<lparr>nodeCounts := ?z, totalRequests := 0\<rparr>)"
    using rebalanceNodes_eq [OF assms(1)] assms(2) False by (simp split: if_splits)
  ultimately show ?thesis by (simp add: members_def)
qed simp

lemma ring_step_inv:
  assumes inv: "ring_inv cfg A n q s" and cl: "cluster_ok cfg A" and plan: "ring_plan A [e] q = Some q'"
    and k: "k = n + asks [e]"
  shows "case ring_step e s of Ok s' \<Rightarrow> ring_inv cfg A k q' s' | Panic \<Rightarrow> False | Deadlock \<Rightarrow> 1000 \<le> n"
proof -
  obtain b m where s: "s = (b, m)" by fastforce
  obtain M shut where q: "q = (M, shut)" by fastforce
  note i = inv [unfolded ring_inv_def s q, simplified]
  then have ok: "ring_ok m" by blast
  note d = ring_okD [OF ok]
  show ?thesis
  proof (cases e)
    case (Join x)
    with plan q have x: "x \<noteq> []" "x \<in> A" "x \<notin> M" "q' = (insert x M, shut)" by (auto split: if_splits)
    have "fresh_node x m" by (rule cluster_fresh [of m A]) (use i cl x in auto)
    from Add_fresh [OF ok this] obtain m' where m': "Add [x] m = Ok (None, m')" "ring_ok m'" "members m' = insert x (members m)"
        "m_config m' = m_config m" "nodeReplicas m' = mput x (DefaultReplicas (m_config m)) (nodeReplicas m)" by blast
    have "default_replicas m'" by (rule default_replicas_put [of m]) (use i m' in auto)
    with m' Add_keeps [OF m'(1)] i x show ?thesis by (simp add: s Join k call_ring_def ring_inv_def)
  next
    case (Leave x)
    with plan q have q': "q' = (M - {x}, shut)" by simp
    show ?thesis
    proof (cases "x \<in> members m")
      case True
      from Remove_member [OF ok this] obtain m' where m': "Remove x m = Ok (None, m')" "ring_ok m'" "members m' = members m - {x}"
        "m_config m' = m_config m" "nodeReplicas m' = mdel x (nodeReplicas m)" by blast
      have "default_replicas m'" by (rule default_replicas_del [of m]) (use i m' in auto)
      with m' Remove_keeps [OF m'(1)] i q' show ?thesis by (auto simp: s Leave k call_ring_def ring_inv_def)
    next
      case False
      from Remove_other [OF ok this] obtain err where "Remove x m = Ok (err, m)" by blast
      with False i q' show ?thesis by (auto simp: s Leave k call_ring_def ring_inv_def)
    qed
  next
    case (Ask x)
    with plan q have q': "q' = (M, shut)" by simp
    from Get_keeps [OF ok, of x] obtain a m' where m': "Get x m = Ok (a, m')" "ring_ok m'" "members m' = members m"
        "m_config m' = m_config m" "m_done m' = m_done m" "nodeReplicas m' = nodeReplicas m"
        "totalRequests m \<le> totalRequests m'" "totalRequests m' \<le> totalRequests m + 1" by blast
    have "default_replicas m'" using i m'(3,4,6) by (simp add: default_replicas_def)
    with m' i q' show ?thesis by (auto simp: s Ask k call_ring_def ring_inv_def)
  next
    case Shut
    with plan q have "\<not> shut" "q' = (M, True)" by (auto split: if_splits)
    with i show ?thesis by (auto simp: s Shut k Close_def ring_inv_def ring_ok_def members_def is_vnode_def default_replicas_def)
  next
    case Ticked
    with plan q have "q' = (M, shut)" by simp
    with i d(1) show ?thesis by (auto simp: s Ticked k needRebalance_def ring_inv_def Let_def)
  next
    case Rebalance
    with plan q have q': "q' = (M, shut)" by simp
    show ?thesis
    proof (cases "b = Rebalancing")
      case True
      with rebalanceNodes_ok [OF ok refl] i q' show ?thesis
        by (auto simp: s Rebalance k ring_inv_def default_replicas_def)
    next
      case False
      with i q' show ?thesis by (simp add: s Rebalance k ring_inv_def)
    qed
  next
    case DoneSeen
    with plan q i show ?thesis by (auto simp: s k ring_inv_def)
  qed
qed

lemma ring_plan_step: "ring_plan A (e # es) q = (case ring_plan A [e] q of None \<Rightarrow> None | Some q' \<Rightarrow> ring_plan A es q')"
  by (cases e; cases q) simp_all

lemma ring_run_inv:
  assumes "cluster_ok cfg A"
  shows "ring_inv cfg A n q s \<Longrightarrow> ring_plan A es q = Some q' \<Longrightarrow>
    (case ring_run es s of Ok s' \<Rightarrow> ring_inv cfg A (n + asks es) q' s' | Panic \<Rightarrow> False | Deadlock \<Rightarrow> 1000 \<le> n + asks es)"
proof (induction es arbitrary: n q s)
  case Nil
  then show ?case by (cases q) simp
next
  case (Cons e es)
  obtain q1 where q1: "ring_plan A [e] q = Some q1" "ring_plan A es q1 = Some q'"
    using Cons.prems(2) ring_plan_step [of A e es q] by (auto split: option.splits)
  note st = ring_step_inv [OF Cons.prems(1) assms q1(1) refl]
  show ?case
  proof (cases "ring_step e s")
    case (Ok s1)
    with st have "ring_inv cfg A (n + asks [e]) q1 s1" by simp
    from Cons.IH [OF this q1(2)] Ok show ?thesis by (auto split: outcome.splits)
  qed (use st in auto)
qed

text \<open>
  C12. Under every plan, which is any order of joins, leaves, reads, ticks of the balancer and the
  halves of its check in which a node with a name joins only while it is not a member and \<open>Close\<close>
  is called at most once, on a cluster whose virtual nodes do not collide, no call of the ring
  panics, and the ring is well-formed: its members are the nodes that joined and did not leave,
  each with all its virtual nodes, whose positions are exactly the keys.  It waits for itself for
  ever at most once a thousand reads have been asked for.
  The restriction on joins is needed, since \<open>Add\<close> does not check membership: a node that joins
  twice and then leaves makes a read panic (\<open>double_join_then_leave_panics\<close>).  The picker keeps to
  it, because \<open>set\<close> removes an address that it knows before it adds it.
\<close>

theorem ring_runs_safely:
  assumes "cluster_ok cfg A" and "ring_plan A es ({}, False) = Some (M, shut)"
  shows "case ring_run es (Waiting, New cfg) of
      Ok (b, m) \<Rightarrow> ring_ok m \<and> members m = M \<and> (\<forall>n \<in> M. getd 0 (nodeReplicas m) n = DefaultReplicas cfg)
        \<and> set (m_keys m) = {h. \<exists>n \<in> M. \<exists>i < nat (DefaultReplicas cfg). h = vhash cfg n i}
        \<and> m_done m = shut \<and> 0 \<le> totalRequests m \<and> totalRequests m \<le> int (asks es)
    | Panic \<Rightarrow> False
    | Deadlock \<Rightarrow> 1000 \<le> asks es"
proof -
  have "ring_inv cfg A 0 ({}, False) (Waiting, New cfg)"
    using ring_ok_New [of cfg] by (simp add: ring_inv_def New_def members_def default_replicas_def)
  note r = ring_run_inv [OF assms(1) this assms(2)]
  show ?thesis
  proof (cases "ring_run es (Waiting, New cfg)")
    case (Ok s)
    obtain b m where s: "s = (b, m)" by fastforce
    from r Ok s have i: "ring_inv cfg A (asks es) (M, shut) (b, m)" by simp
    then have m: "ring_ok m" "members m = M" "default_replicas m" "m_config m = cfg" by (simp_all add: ring_inv_def)
    have "h \<in> set (m_keys m) \<longleftrightarrow> (\<exists>n \<in> M. is_vnode m n h)" for h
      using ring_okD(6) [OF m(1)] ring_okD(7) [OF m(1), of h] m(2) by auto
    with m have "set (m_keys m) = {h. \<exists>n \<in> M. \<exists>i < nat (DefaultReplicas cfg). h = vhash cfg n i}"
      by (auto simp: is_vnode_def default_replicas_def)
    with i m show ?thesis by (simp add: Ok s ring_inv_def default_replicas_def)
  qed (use r in auto)
qed

text \<open>Two nodes of different lengths, which the toy hash keeps apart.\<close>

lemma toy_cluster: "cluster_ok toy_config {''a'', ''bb''}"
  by (auto simp: cluster_ok_def inj_on_def toy_vhash) (simp_all add: toy_config_def vhash_def dec_small)

theorem ring_runs_safely_witness:
  "case ring_run [Join ''a'', Ticked, Join ''bb'', Ask ''key'', Leave ''a'', Ask ''key'', Shut, DoneSeen, Ask ''x'']
      (Waiting, New toy_config) of
      Ok (b, m) \<Rightarrow> members m = {''bb''} \<and> m_done m
    | Panic \<Rightarrow> False
    | Deadlock \<Rightarrow> False"
proof -
  have "ring_plan {''a'', ''bb''} [Join ''a'', Ticked, Join ''bb'', Ask ''key'', Leave ''a'', Ask ''key'', Shut, DoneSeen, Ask ''x'']
      ({}, False) = Some ({''bb''}, True)" by auto
  from ring_runs_safely [OF toy_cluster this] show ?thesis by (simp split: outcome.splits prod.splits)
qed

end
