(* ===== verification/Peer_Picker.thy ===== *)
theory Peer_Picker
  imports Hash_Ring_Correct
begin

text \<open>
  \<open>peers.go\<close> and the key that \<open>registry/register.go\<close> registers: the \<open>ClientPicker\<close>, which keeps
  a hash ring and one client per discovered node under the events of etcd.  etcd and gRPC are
  not under \<open>src/\<close>: the events and the answers are inputs, a client is the number of the call
  of \<open>NewClient\<close> that made it, and whether that call succeeds is the parameter \<open>dial\<close>.  Every
  operation below is one section under \<open>mu\<close>.
\<close>

subsection \<open>Keys in etcd\<close>

text \<open>The prefix \<open>"/services/" + svcName\<close>, the key of a node, and its way back.\<close>

definition service_prefix :: "string \<Rightarrow> string" where
  "service_prefix svcName = ''/services/'' @ svcName"

definition register_key :: "string \<Rightarrow> string \<Rightarrow> string" where
  "register_key svcName addr = ''/services/'' @ svcName @ ''/'' @ addr"

definition has_prefix :: "string \<Rightarrow> string \<Rightarrow> bool" where
  "has_prefix s p \<longleftrightarrow> take (length p) s = p"

definition parseAddrFromKey :: "string \<Rightarrow> string \<Rightarrow> string" where
  "parseAddrFromKey key svcName =
     (let p = ''/services/'' @ svcName @ ''/''
      in if has_prefix key p then drop (length p) key else [])"

text \<open>
  \<open>Register\<close>: the address that is registered, from the listen address, the advertised address
  and the local IP (\<open>None\<close> when there is none, an error).
\<close>

definition registered_addr :: "string \<Rightarrow> string \<Rightarrow> string option \<Rightarrow> string option" where
  "registered_addr listenAddr advertiseAddr localIP =
     (if advertiseAddr = [] then
        (case localIP of
           None \<Rightarrow> None
         | Some ip \<Rightarrow> Some (if listenAddr \<noteq> [] \<and> hd listenAddr = CHR '':'' then ip @ listenAddr else listenAddr))
      else Some advertiseAddr)"

subsection \<open>State\<close>

record ClientPicker =
  p_selfAddr :: string
  p_svcName :: string
  p_ring :: Map
  p_clients :: "(string, nat) gomap"
  p_next :: nat
  p_closed_clients :: "nat list"
  p_cancelled :: bool
  p_etcd_closed :: bool

definition new_picker :: "string \<Rightarrow> string \<Rightarrow> Config \<Rightarrow> ClientPicker" where
  "new_picker addr svcName cfg =
     \<lparr>p_selfAddr = addr, p_svcName = svcName, p_ring = New cfg, p_clients = [], p_next = 0,
      p_closed_clients = [], p_cancelled = False, p_etcd_closed = False\<rparr>"

datatype event = EventPut string string | EventDelete string

subsection \<open>Operations\<close>

type_synonym dial = "nat \<Rightarrow> string \<Rightarrow> bool"

text \<open>The errors of the ring are ignored by the callers.\<close>

definition picker_set :: "dial \<Rightarrow> string \<Rightarrow> ClientPicker \<Rightarrow> ClientPicker outcome" where
  "picker_set dial addr p =
     obind
       (case mget (p_clients p) addr of
          Some old \<Rightarrow>
            obind (Remove addr (p_ring p)) (\<lambda>(_, ring).
              Ok (p\<lparr>p_closed_clients := p_closed_clients p @ [old], p_ring := ring,
                    p_clients := mdel addr (p_clients p)\<rparr>))
        | None \<Rightarrow> Ok p)
       (\<lambda>p. let client = p_next p; p = p\<lparr>p_next := Suc (p_next p)\<rparr> in
            if \<not> dial client addr then Ok p
            else obind (Add [addr] (p_ring p)) (\<lambda>(_, ring).
                   Ok (p\<lparr>p_ring := ring, p_clients := mput addr client (p_clients p)\<rparr>)))"

definition picker_remove :: "string \<Rightarrow> ClientPicker \<Rightarrow> ClientPicker outcome" where
  "picker_remove addr p =
     obind (Remove addr (p_ring p)) (\<lambda>(_, ring).
       Ok (p\<lparr>p_ring := ring, p_clients := mdel addr (p_clients p)\<rparr>))"

fun handle_event :: "dial \<Rightarrow> event \<Rightarrow> ClientPicker \<Rightarrow> ClientPicker outcome" where
  "handle_event dial (EventPut key addr) p =
     (if addr = [] \<or> addr = p_selfAddr p then Ok p else picker_set dial addr p)"
| "handle_event dial (EventDelete key) p =
     (let addr = parseAddrFromKey key (p_svcName p) in
      if addr = [] \<or> addr = p_selfAddr p then Ok p
      else (case mget (p_clients p) addr of
              Some client \<Rightarrow> picker_remove addr (p\<lparr>p_closed_clients := p_closed_clients p @ [client]\<rparr>)
            | None \<Rightarrow> Ok p))"

fun handleWatchEvents :: "dial \<Rightarrow> event list \<Rightarrow> ClientPicker \<Rightarrow> ClientPicker outcome" where
  "handleWatchEvents dial [] p = Ok p"
| "handleWatchEvents dial (e # es) p = obind (handle_event dial e p) (handleWatchEvents dial es)"

text \<open>\<open>fetchAllServices\<close>, from the values of the response; \<open>None\<close> is an error of etcd.\<close>

fun set_all :: "dial \<Rightarrow> string list \<Rightarrow> ClientPicker \<Rightarrow> ClientPicker outcome" where
  "set_all dial [] p = Ok p"
| "set_all dial (addr # addrs) p =
     obind (if addr \<noteq> [] \<and> addr \<noteq> p_selfAddr p then picker_set dial addr p else Ok p) (set_all dial addrs)"

definition fetchAllServices :: "dial \<Rightarrow> string list option \<Rightarrow> ClientPicker \<Rightarrow> (bool \<times> ClientPicker) outcome" where
  "fetchAllServices dial resp p =
     (case resp of
        None \<Rightarrow> Ok (False, p)
      | Some values \<Rightarrow> obind (set_all dial values p) (\<lambda>p. Ok (True, p)))"

text \<open>
  The options of a picker; those of its clients, of type \<open>'o\<close>, are passed on to \<open>NewClient\<close>.
\<close>

datatype 'o picker_option =
    WithServiceName string
  | WithEtcdEndpointsForClientPicker "string list"
  | WithClientOptions "'o list"

record 'o picker_settings =
  ps_svcName :: string
  ps_etcdEndpoints :: "string list"
  ps_clientOpts :: "'o list"

definition default_settings :: "'o picker_settings" where
  "default_settings = \<lparr>ps_svcName = ''reach-cache'', ps_etcdEndpoints = [''localhost:2379''], ps_clientOpts = []\<rparr>"

fun apply_picker_option :: "'o picker_option \<Rightarrow> 'o picker_settings \<Rightarrow> 'o picker_settings" where
  "apply_picker_option (WithServiceName name) s = s\<lparr>ps_svcName := name\<rparr>"
| "apply_picker_option (WithEtcdEndpointsForClientPicker eps) s = (if length eps > 0 then s\<lparr>ps_etcdEndpoints := eps\<rparr> else s)"
| "apply_picker_option (WithClientOptions opts) s = (if length opts > 0 then s\<lparr>ps_clientOpts := opts\<rparr> else s)"

datatype picker_error = NoPickerEtcd | NoServices

text \<open>
  \<open>NewClientPicker\<close> up to the start of the watching goroutine: \<open>dial\<close> is given the options of the
  clients, \<open>etcd\<close> says whether the etcd client can be made, and the second component whether an
  etcd client that was made has been closed again.  The code leaves \<open>cfg\<close> at \<open>DefaultConfig\<close>.
\<close>

definition NewClientPicker ::
    "('o list \<Rightarrow> dial) \<Rightarrow> Config \<Rightarrow> string \<Rightarrow> 'o picker_option list \<Rightarrow> bool \<Rightarrow> string list option
      \<Rightarrow> ((picker_error + ClientPicker) \<times> bool) outcome" where
  "NewClientPicker dial cfg addr opts etcd resp =
     (let s = fold apply_picker_option opts default_settings in
      if \<not> etcd then Ok (Inl NoPickerEtcd, False)
      else obind (fetchAllServices (dial (ps_clientOpts s)) resp (new_picker addr (ps_svcName s) cfg)) (\<lambda>(found, p).
             if found then Ok (Inr p, False) else Ok (Inl NoServices, True)))"

text \<open>
  \<open>watchServiceChanges\<close>: what the goroutine receives, until the context is cancelled or the
  channel is closed; an error of a response is skipped.
\<close>

datatype watch_message = WatchCancelled | WatchClosed | WatchError | WatchEvents "event list"

fun watchServiceChanges :: "dial \<Rightarrow> watch_message list \<Rightarrow> ClientPicker \<Rightarrow> ClientPicker outcome" where
  "watchServiceChanges dial [] p = Ok p"
| "watchServiceChanges dial (WatchCancelled # ms) p = Ok p"
| "watchServiceChanges dial (WatchClosed # ms) p = Ok p"
| "watchServiceChanges dial (WatchError # ms) p = watchServiceChanges dial ms p"
| "watchServiceChanges dial (WatchEvents es # ms) p = obind (handleWatchEvents dial es p) (watchServiceChanges dial ms)"

text \<open>\<open>PickPeer\<close>: the client, whether there is one, and whether the node is this one.\<close>

definition PickPeer :: "string \<Rightarrow> ClientPicker \<Rightarrow> ((nat option \<times> bool \<times> bool) \<times> ClientPicker) outcome" where
  "PickPeer key p =
     obind (Get key (p_ring p)) (\<lambda>(addr, ring).
       let p = p\<lparr>p_ring := ring\<rparr> in
       if addr \<noteq> [] then
         (case mget (p_clients p) addr of
            Some client \<Rightarrow> Ok ((Some client, True, addr = p_selfAddr p), p)
          | None \<Rightarrow> Ok ((None, False, False), p))
       else Ok ((None, False, False), p))"

text \<open>
  \<open>Close\<close>, which closes the clients and then the picker's own etcd client, whatever fails;
  \<open>client_err\<close> and \<open>etcd_err\<close> say which connections fail to close.  The result says whether an
  error is returned.
\<close>

definition picker_Close :: "(nat \<Rightarrow> bool) \<Rightarrow> bool \<Rightarrow> ClientPicker \<Rightarrow> (bool \<times> ClientPicker) outcome" where
  "picker_Close client_err etcd_err p =
     obind (Close (p_ring p)) (\<lambda>ring.
       Ok ((\<exists>c \<in> set (map snd (p_clients p)). client_err c) \<or> etcd_err,
           p\<lparr>p_cancelled := True, p_ring := ring,
             p_closed_clients := p_closed_clients p @ map snd (p_clients p), p_etcd_closed := True\<rparr>))"

subsection \<open>A picker at work\<close>

text \<open>
  What happens to a picker in any order: its goroutine receives a message of the watch, a group asks
  for the peer of a key, and the goroutine of the ring's balancer ticks, rebalances or ends.  Each is
  one section under \<open>mu\<close> or under the lock of the ring.  A goroutine that is in a section that never
  ends holds these locks, so that then nothing else happens: the outcome is \<open>Deadlock\<close>.  The state is
  whether the watching goroutine still runs, where the balancer is, the picker, and the clients that
  have been handed out.
\<close>

datatype picker_event = Received watch_message | Picked string | BalancerTicks | BalancerRebalances | BalancerEnds

type_synonym picker_state = "bool \<times> balancer \<times> ClientPicker \<times> nat list"

definition balance :: "ring_event \<Rightarrow> picker_state \<Rightarrow> picker_state outcome" where
  "balance e s =
     (case s of (on, b, p, out) \<Rightarrow>
        obind (ring_step e (b, p_ring p)) (\<lambda>(b, ring). Ok (on, b, p\<lparr>p_ring := ring\<rparr>, out)))"

fun picker_step :: "dial \<Rightarrow> picker_event \<Rightarrow> picker_state \<Rightarrow> picker_state outcome" where
  "picker_step dial (Received m) (on, b, p, out) =
     (if \<not> on then Ok (on, b, p, out)
      else
        (case m of
           WatchCancelled \<Rightarrow> Ok (False, b, p, out)
         | WatchClosed \<Rightarrow> Ok (False, b, p, out)
         | WatchError \<Rightarrow> Ok (on, b, p, out)
         | WatchEvents es \<Rightarrow> obind (handleWatchEvents dial es p) (\<lambda>p. Ok (on, b, p, out))))"
| "picker_step dial (Picked key) (on, b, p, out) =
     obind (PickPeer key p) (\<lambda>((client, _), p).
       Ok (on, b, p, case client of Some c \<Rightarrow> out @ [c] | None \<Rightarrow> out))"
| "picker_step dial BalancerTicks s = balance Ticked s"
| "picker_step dial BalancerRebalances s = balance Rebalance s"
| "picker_step dial BalancerEnds s = balance DoneSeen s"

fun picker_run :: "dial \<Rightarrow> picker_event list \<Rightarrow> picker_state \<Rightarrow> picker_state outcome" where
  "picker_run dial [] s = Ok s"
| "picker_run dial (e # es) s = obind (picker_step dial e s) (picker_run dial es)"

subsection \<open>Invariant\<close>

definition picker_ok :: "string set \<Rightarrow> ClientPicker \<Rightarrow> bool" where
  "picker_ok A p \<longleftrightarrow>
     ring_ok (p_ring p) \<and> default_replicas (p_ring p) \<and> cluster_ok (m_config (p_ring p)) A
     \<and> gomap_ok (p_clients p) \<and> set (mkeys (p_clients p)) = members (p_ring p)
     \<and> members (p_ring p) \<subseteq> A \<and> p_selfAddr p \<notin> members (p_ring p)
     \<and> (\<forall>c \<in> set (map snd (p_clients p)). c < p_next p \<and> c \<notin> set (p_closed_clients p))
     \<and> (\<forall>c \<in> set (p_closed_clients p). c < p_next p) \<and> distinct (map snd (p_clients p))
     \<and> distinct (p_closed_clients p)"

end
