(* ===== verification/Peer_Picker_Props.thy ===== *)
theory Peer_Picker_Props
  imports Peer_Picker Hash_Ring_Props
begin

text \<open>
  The properties of \<open>peers.go\<close>: the members of the ring follow the events, the ring and the
  client table agree, clients are closed once and not handed out afterwards, and what
  \<open>PickPeer\<close> can answer.
\<close>

subsection \<open>The invariant is kept\<close>

lemma picker_okD:
  assumes "picker_ok A p"
  shows "ring_ok (p_ring p)" "default_replicas (p_ring p)" "cluster_ok (m_config (p_ring p)) A"
    "gomap_ok (p_clients p)" "set (mkeys (p_clients p)) = members (p_ring p)" "members (p_ring p) \<subseteq> A"
    "p_selfAddr p \<notin> members (p_ring p)"
    "\<And>c. c \<in> set (map snd (p_clients p)) \<Longrightarrow> c < p_next p \<and> c \<notin> set (p_closed_clients p)"
    "\<And>c. c \<in> set (p_closed_clients p) \<Longrightarrow> c < p_next p" "distinct (map snd (p_clients p))"
    "distinct (p_closed_clients p)"
  using assms unfolding picker_ok_def by blast+

lemma picker_ok_new:
  assumes "cluster_ok cfg A"
  shows "picker_ok A (new_picker self svcName cfg)"
  using assms by (simp add: picker_ok_def new_picker_def ring_ok_def New_def members_def default_replicas_def)

lemma snd_mdel:
  assumes "distinct (map snd mm)" and "mget mm k = Some v"
  shows "set (map snd (mdel k mm)) \<subseteq> set (map snd mm) - {v}"
proof
  fix w assume "w \<in> set (map snd (mdel k mm))"
  then obtain k' where k': "(k', w) \<in> set mm" "k' \<noteq> k" by (auto simp: mdel_filter)
  have inj: "inj_on snd (set mm)" using assms(1) by (simp add: distinct_map)
  have "w \<noteq> v"
  proof
    assume "w = v"
    with inj_onD [OF inj, of "(k', w)" "(k, v)"] k' map_of_SomeD [OF assms(2)] show False by simp
  qed
  with k'(1) show "w \<in> set (map snd mm) - {v}" by force
qed

lemma distinct_snd_mdel: "distinct (map snd mm) \<Longrightarrow> distinct (map snd (mdel k mm))"
  by (simp add: mdel_filter distinct_map_filter)

lemma distinct_snd_mput_new:
  "k \<notin> set (mkeys mm) \<Longrightarrow> mput k v mm = mm @ [(k, v)]"
  by (induction mm) auto

text \<open>Dropping a client that has been closed.\<close>

lemma picker_drop:
  assumes ok: "picker_ok A p" and c: "mget (p_clients p) addr = Some old"
  shows "\<exists>ring. Remove addr (p_ring p) = Ok (None, ring)
    \<and> picker_ok A (p\<lparr>p_closed_clients := p_closed_clients p @ [old], p_ring := ring, p_clients := mdel addr (p_clients p)\<rparr>)
    \<and> members ring = members (p_ring p) - {addr} \<and> m_config ring = m_config (p_ring p) \<and> m_done ring = m_done (p_ring p)"
proof -
  note d = picker_okD [OF ok]
  have mem: "addr \<in> members (p_ring p)" using mget_some_key [OF c] d(5) by simp
  from Remove_member [OF d(1) mem] obtain ring where r: "Remove addr (p_ring p) = Ok (None, ring)" "ring_ok ring"
      "members ring = members (p_ring p) - {addr}" "m_config ring = m_config (p_ring p)" "m_done ring = m_done (p_ring p)"
      "nodeReplicas ring = mdel addr (nodeReplicas (p_ring p))" by blast
  have old: "old \<in> set (map snd (p_clients p))" using map_of_SomeD [OF c] by force
  have rest: "set (map snd (mdel addr (p_clients p))) \<subseteq> set (map snd (p_clients p)) - {old}"
    by (rule snd_mdel [OF d(10) c])
  have "picker_ok A (p\<lparr>p_closed_clients := p_closed_clients p @ [old], p_ring := ring, p_clients := mdel addr (p_clients p)\<rparr>)"
    unfolding picker_ok_def
  proof (intro conjI)
    show "default_replicas (p_ring (p\<lparr>p_closed_clients := p_closed_clients p @ [old], p_ring := ring, p_clients := mdel addr (p_clients p)\<rparr>))"
      using default_replicas_del [OF d(2) r(4,6)] by simp
    show "\<forall>c \<in> set (map snd (p_clients (p\<lparr>p_closed_clients := p_closed_clients p @ [old], p_ring := ring, p_clients := mdel addr (p_clients p)\<rparr>))).
        c < p_next (p\<lparr>p_closed_clients := p_closed_clients p @ [old], p_ring := ring, p_clients := mdel addr (p_clients p)\<rparr>)
        \<and> c \<notin> set (p_closed_clients (p\<lparr>p_closed_clients := p_closed_clients p @ [old], p_ring := ring, p_clients := mdel addr (p_clients p)\<rparr>))"
      using rest d(8) by fastforce
  qed (use r d d(8) [OF old] in \<open>auto simp: distinct_snd_mdel\<close>)
  with r show ?thesis by blast
qed

text \<open>Adding a client for an address that has none.\<close>

lemma picker_join:
  assumes ok: "picker_ok A p" and addr: "addr \<in> A" "addr \<noteq> []" "addr \<noteq> p_selfAddr p" "mget (p_clients p) addr = None"
  shows "\<exists>ring. Add [addr] (p_ring p) = Ok (None, ring)
    \<and> picker_ok A (p\<lparr>p_next := Suc (p_next p), p_ring := ring, p_clients := mput addr (p_next p) (p_clients p)\<rparr>)
    \<and> members ring = insert addr (members (p_ring p)) \<and> m_config ring = m_config (p_ring p) \<and> m_done ring = m_done (p_ring p)"
proof -
  note d = picker_okD [OF ok]
  have new: "addr \<notin> set (mkeys (p_clients p))" using addr(4) by (metis domIff mget_dom)
  then have out: "addr \<notin> members (p_ring p)" using d(5) by simp
  from Add_fresh [OF d(1) cluster_fresh [OF d(1,2,3,6) addr(1,2) out]] obtain ring where
    r: "Add [addr] (p_ring p) = Ok (None, ring)" "ring_ok ring" "members ring = insert addr (members (p_ring p))"
      "m_config ring = m_config (p_ring p)" "m_done ring = m_done (p_ring p)"
      "nodeReplicas ring = mput addr (DefaultReplicas (m_config (p_ring p))) (nodeReplicas (p_ring p))" by blast
  have put: "mput addr (p_next p) (p_clients p) = p_clients p @ [(addr, p_next p)]"
    by (rule distinct_snd_mput_new [OF new])
  let ?p = "p\<lparr>p_next := Suc (p_next p), p_ring := ring, p_clients := mput addr (p_next p) (p_clients p)\<rparr>"
  have "default_replicas ring" by (rule default_replicas_put [OF d(2) r(4,6)])
  moreover have "\<forall>c \<in> set (map snd (p_clients ?p)). c < p_next ?p \<and> c \<notin> set (p_closed_clients ?p)"
    using d(8,9) by (fastforce simp: put)
  moreover have "\<forall>c \<in> set (p_closed_clients ?p). c < p_next ?p" using d(9) by (simp add: less_Suc_eq)
  moreover have "distinct (map snd (p_clients ?p))" using d(8,10) by (auto simp: put)
  moreover have "gomap_ok (p_clients ?p)" using d(4) by simp
  ultimately have "picker_ok A ?p"
    unfolding picker_ok_def using r d(3,5,6,7,11) addr(1,3) by (simp del: set_map) auto
  with r show ?thesis by blast
qed

lemma picker_ok_next: "picker_ok A p \<Longrightarrow> picker_ok A (p\<lparr>p_next := Suc (p_next p)\<rparr>)"
  by (auto simp: picker_ok_def less_Suc_eq)

lemma picker_set_ok:
  assumes ok: "picker_ok A p" and addr: "addr \<in> A" "addr \<noteq> []" "addr \<noteq> p_selfAddr p"
  shows "\<exists>p'. picker_set dial addr p = Ok p' \<and> picker_ok A p' \<and> p_selfAddr p' = p_selfAddr p \<and> p_svcName p' = p_svcName p
    \<and> p_next p' = Suc (p_next p) \<and> m_config (p_ring p') = m_config (p_ring p) \<and> m_done (p_ring p') = m_done (p_ring p)
    \<and> members (p_ring p') = (if dial (p_next p) addr then insert addr (members (p_ring p)) else members (p_ring p) - {addr})"
proof -
  have "\<exists>q. (case mget (p_clients p) addr of
          Some old \<Rightarrow>
            obind (Remove addr (p_ring p)) (\<lambda>(_, ring).
              Ok (p\<lparr>p_closed_clients := p_closed_clients p @ [old], p_ring := ring,
                    p_clients := mdel addr (p_clients p)\<rparr>))
        | None \<Rightarrow> Ok p) = Ok q \<and> picker_ok A q \<and> mget (p_clients q) addr = None
      \<and> p_selfAddr q = p_selfAddr p \<and> p_svcName q = p_svcName p \<and> p_next q = p_next p
      \<and> m_config (p_ring q) = m_config (p_ring p) \<and> m_done (p_ring q) = m_done (p_ring p)
      \<and> members (p_ring q) = members (p_ring p) - {addr}"
  proof (cases "mget (p_clients p) addr")
    case None
    then have "addr \<notin> members (p_ring p)" using picker_okD(5) [OF ok] by (metis domIff mget_dom)
    with None ok show ?thesis by simp
  next
    case (Some old)
    from picker_drop [OF ok Some] Some show ?thesis by auto
  qed
  then obtain q where q: "(case mget (p_clients p) addr of
          Some old \<Rightarrow>
            obind (Remove addr (p_ring p)) (\<lambda>(_, ring).
              Ok (p\<lparr>p_closed_clients := p_closed_clients p @ [old], p_ring := ring,
                    p_clients := mdel addr (p_clients p)\<rparr>))
        | None \<Rightarrow> Ok p) = Ok q" "picker_ok A q" "mget (p_clients q) addr = None" "p_selfAddr q = p_selfAddr p"
      "p_svcName q = p_svcName p" "p_next q = p_next p" "m_config (p_ring q) = m_config (p_ring p)" "m_done (p_ring q) = m_done (p_ring p)" "members (p_ring q) = members (p_ring p) - {addr}" by blast
  show ?thesis
  proof (cases "dial (p_next p) addr")
    case False
    then show ?thesis using q picker_ok_next [OF q(2)] by (simp add: picker_set_def Let_def)
  next
    case True
    from picker_join [OF q(2) addr(1,2) _ q(3)] addr(3) q(4) obtain ring where
      r: "Add [addr] (p_ring q) = Ok (None, ring)"
        "picker_ok A (q\<lparr>p_next := Suc (p_next q), p_ring := ring, p_clients := mput addr (p_next q) (p_clients q)\<rparr>)"
        "members ring = insert addr (members (p_ring q))" "m_config ring = m_config (p_ring q)" "m_done ring = m_done (p_ring q)" by auto
    then show ?thesis using q True by (auto simp: picker_set_def Let_def)
  qed
qed

subsection \<open>Events\<close>

text \<open>The members after an event, given whether the next call of \<open>NewClient\<close> succeeds.\<close>

fun event_members :: "string \<Rightarrow> string \<Rightarrow> bool \<Rightarrow> event \<Rightarrow> string set \<Rightarrow> string set" where
  "event_members self svcName ok (EventPut key addr) M =
     (if addr = [] \<or> addr = self then M else if ok then insert addr M else M - {addr})"
| "event_members self svcName ok (EventDelete key) M = M - {parseAddrFromKey key svcName}"

fun event_addr :: "event \<Rightarrow> string list" where
  "event_addr (EventPut key addr) = [addr]"
| "event_addr (EventDelete key) = []"

lemma handle_event_ok:
  assumes ok: "picker_ok A p" and A: "set (event_addr e) - {[]} \<subseteq> A"
  shows "\<exists>p'. handle_event dial e p = Ok p' \<and> picker_ok A p' \<and> p_selfAddr p' = p_selfAddr p \<and> p_svcName p' = p_svcName p
    \<and> m_config (p_ring p') = m_config (p_ring p) \<and> m_done (p_ring p') = m_done (p_ring p)
    \<and> (\<exists>b. members (p_ring p') = event_members (p_selfAddr p) (p_svcName p) b e (members (p_ring p))
          \<and> (b = dial (p_next p) (last (event_addr e))))"
proof (cases e)
  case (EventPut key addr)
  show ?thesis
  proof (cases "addr = [] \<or> addr = p_selfAddr p")
    case True
    then show ?thesis using ok EventPut by auto
  next
    case False
    then have "addr \<in> A" "addr \<noteq> []" "addr \<noteq> p_selfAddr p" using A EventPut by auto
    from picker_set_ok [OF ok this, of dial] EventPut False show ?thesis by auto
  qed
next
  case (EventDelete key)
  let ?addr = "parseAddrFromKey key (p_svcName p)"
  note d = picker_okD [OF ok]
  show ?thesis
  proof (cases "mget (p_clients p) ?addr")
    case None
    then have "?addr \<notin> members (p_ring p)" using d(5) by (metis domIff mget_dom)
    with None ok EventDelete show ?thesis by (auto simp: Let_def)
  next
    case (Some c)
    then have mem: "?addr \<in> members (p_ring p)" using mget_some_key [OF Some] d(5) by simp
    then have "?addr \<noteq> []" "?addr \<noteq> p_selfAddr p" using ring_okD(10) [OF d(1)] d(7) by auto
    moreover from picker_drop [OF ok Some] obtain ring where r: "Remove ?addr (p_ring p) = Ok (None, ring)"
        "picker_ok A (p\<lparr>p_closed_clients := p_closed_clients p @ [c], p_ring := ring, p_clients := mdel ?addr (p_clients p)\<rparr>)"
        "members ring = members (p_ring p) - {?addr}" "m_config ring = m_config (p_ring p)" "m_done ring = m_done (p_ring p)" by blast
    ultimately show ?thesis using Some EventDelete by (auto simp: Let_def picker_remove_def)
  qed
qed

text \<open>The members after some events when every dial succeeds.\<close>

abbreviation events_members :: "string \<Rightarrow> string \<Rightarrow> event list \<Rightarrow> string set \<Rightarrow> string set" where
  "events_members self svcName es M \<equiv> fold (event_members self svcName True) es M"

definition followed :: "string set \<Rightarrow> dial \<Rightarrow> event list \<Rightarrow> ClientPicker \<Rightarrow> ClientPicker \<Rightarrow> bool" where
  "followed A dial es p p' \<longleftrightarrow>
     picker_ok A p' \<and> p_selfAddr p' = p_selfAddr p \<and> p_svcName p' = p_svcName p
     \<and> m_config (p_ring p') = m_config (p_ring p) \<and> m_done (p_ring p') = m_done (p_ring p)
     \<and> ((\<forall>c a. dial c a) \<longrightarrow> members (p_ring p') = events_members (p_selfAddr p) (p_svcName p) es (members (p_ring p)))"

lemma followed_trans: "followed A dial es p q \<Longrightarrow> followed A dial es' q r \<Longrightarrow> followed A dial (es @ es') p r"
  by (simp add: followed_def)

lemma handle_event_followed:
  assumes "picker_ok A p" and "set (event_addr e) - {[]} \<subseteq> A"
  shows "\<exists>p'. handle_event dial e p = Ok p' \<and> followed A dial [e] p p'"
  using handle_event_ok [OF assms, of dial] by (auto simp: followed_def)

lemma handleWatchEvents_followed:
  assumes "picker_ok A p" and "\<forall>e \<in> set es. set (event_addr e) - {[]} \<subseteq> A"
  shows "\<exists>p'. handleWatchEvents dial es p = Ok p' \<and> followed A dial es p p'"
  using assms
proof (induction es arbitrary: p)
  case Nil
  then show ?case by (simp add: followed_def)
next
  case (Cons e es)
  obtain p1 where p1: "handle_event dial e p = Ok p1" "followed A dial [e] p p1"
    using handle_event_followed [OF Cons.prems(1), of e dial] Cons.prems(2) by auto
  have "picker_ok A p1" using p1(2) by (simp add: followed_def)
  moreover have "\<forall>e \<in> set es. set (event_addr e) - {[]} \<subseteq> A" using Cons.prems(2) by simp
  ultimately obtain p2 where p2: "handleWatchEvents dial es p1 = Ok p2" "followed A dial es p1 p2"
    using Cons.IH by blast
  have "followed A dial ([e] @ es) p p2" by (rule followed_trans [OF p1(2) p2(2)])
  with p1(1) p2(1) show ?case by simp
qed

text \<open>A full fetch is a put of each value; the events of a run are those up to its end.\<close>

lemma set_all_events: "set_all dial addrs = handleWatchEvents dial (map (EventPut []) addrs)"
proof (induction addrs)
  case Nil
  show ?case by (rule ext) simp
next
  case (Cons addr addrs)
  show ?case by (rule ext) (simp add: Cons.IH)
qed

fun watched :: "watch_message list \<Rightarrow> event list" where
  "watched [] = []"
| "watched (WatchCancelled # ms) = []"
| "watched (WatchClosed # ms) = []"
| "watched (WatchError # ms) = watched ms"
| "watched (WatchEvents es # ms) = es @ watched ms"

lemma watch_followed:
  assumes "picker_ok A p" and "\<forall>e \<in> set (watched ms). set (event_addr e) - {[]} \<subseteq> A"
  shows "\<exists>p'. watchServiceChanges dial ms p = Ok p' \<and> followed A dial (watched ms) p p'"
  using assms
proof (induction dial ms p rule: watchServiceChanges.induct)
  case (5 dial es ms p)
  obtain p1 where p1: "handleWatchEvents dial es p = Ok p1" "followed A dial es p p1"
    using handleWatchEvents_followed [OF "5.prems"(1), of es dial] "5.prems"(2) by auto
  have "picker_ok A p1" using p1(2) by (simp add: followed_def)
  moreover have "\<forall>e \<in> set (watched ms). set (event_addr e) - {[]} \<subseteq> A" using "5.prems"(2) by simp
  ultimately obtain p2 where p2: "watchServiceChanges dial ms p1 = Ok p2" "followed A dial (watched ms) p1 p2"
    using "5.IH" by blast
  have "followed A dial (es @ watched ms) p p2" by (rule followed_trans [OF p1(2) p2(2)])
  with p1(1) p2(1) show ?case by simp
qed (auto simp: followed_def)

text \<open>
  C29. Discovery: in a cluster whose virtual nodes do not collide, a picker that fetched the
  services and then watches them handles every sequence of messages (repeated puts, deletes of
  unknown addresses, failing dials and errors of the watch included) without a panic or a
  deadlock.  Afterwards the members of the ring are the addresses of the client table, without
  this node; no client in the table has been closed, none was closed twice; and, when the dials
  succeed, the members are what the fetched values and the events amount to.
\<close>

theorem discovery_follows_etcd:
  assumes "cluster_ok cfg A" and "set values - {[]} \<subseteq> A" and "\<forall>e \<in> set (watched ms). set (event_addr e) - {[]} \<subseteq> A"
  shows "\<exists>p p'. NewClientPicker dial cfg self opts True (Some values) = Ok (Inr p, False)
    \<and> watchServiceChanges (dial copts) ms p = Ok p'
    \<and> p_svcName p' = ps_svcName (fold apply_picker_option opts default_settings)
    \<and> set (mkeys (p_clients p')) = members (p_ring p') \<and> self \<notin> members (p_ring p')
    \<and> distinct (p_closed_clients p') \<and> (\<forall>addr c. mget (p_clients p') addr = Some c \<longrightarrow> c \<notin> set (p_closed_clients p'))
    \<and> ((\<forall>o' c a. dial o' c a) \<longrightarrow>
         members (p_ring p') = events_members self (p_svcName p') (map (EventPut []) values @ watched ms) {})"
proof -
  let ?s = "fold apply_picker_option opts default_settings"
  let ?p0 = "new_picker self (ps_svcName ?s) cfg"
  have 0: "picker_ok A ?p0" by (rule picker_ok_new [OF assms(1)])
  have puts: "\<forall>e \<in> set (map (EventPut []) values). set (event_addr e) - {[]} \<subseteq> A" using assms(2) by auto
  obtain p where p: "handleWatchEvents (dial (ps_clientOpts ?s)) (map (EventPut []) values) ?p0 = Ok p"
      "followed A (dial (ps_clientOpts ?s)) (map (EventPut []) values) ?p0 p"
    using handleWatchEvents_followed [OF 0 puts] by blast
  then have "picker_ok A p" by (simp add: followed_def)
  from watch_followed [OF this assms(3), of "dial copts"] obtain p' where
    p': "watchServiceChanges (dial copts) ms p = Ok p'" "followed A (dial copts) (watched ms) p p'" by blast
  have new: "NewClientPicker dial cfg self opts True (Some values) = Ok (Inr p, False)"
    using p(1) by (simp add: NewClientPicker_def fetchAllServices_def set_all_events Let_def)
  have ok: "picker_ok A p'" using p'(2) by (simp add: followed_def)
  note d = picker_okD [OF ok]
  have opn: "mget (p_clients p') addr = Some c \<Longrightarrow> c \<notin> set (p_closed_clients p')" for addr c
    using d(8) [of c] map_of_SomeD [of "p_clients p'" addr c] by force
  have self: "p_selfAddr p' = self" "p_svcName p' = ps_svcName ?s" "p_selfAddr p = self" "p_svcName p = ps_svcName ?s"
    using p(2) p'(2) by (simp_all add: followed_def new_picker_def)
  have "members (p_ring ?p0) = {}" by (simp add: new_picker_def New_def members_def)
  then have mem: "members (p_ring p') = events_members self (p_svcName p') (map (EventPut []) values @ watched ms) {}"
    if "\<forall>o' c a. dial o' c a"
    using p(2) p'(2) self that by (simp add: followed_def new_picker_def)
  have "self \<notin> members (p_ring p')" using d(7) self(1) by simp
  with new p'(1) self(2) d(5,11) opn mem show ?thesis by blast
qed

theorem discovery_follows_etcd_witness:
  "\<exists>p p'. NewClientPicker (\<lambda>_ _ _. True) toy_config ''a'' [WithClientOptions [()]] True (Some [''a'', ''bb'']) = Ok (Inr p, False)
     \<and> watchServiceChanges (\<lambda>_ _. True) [WatchError, WatchEvents [EventPut ''k'' ''bb'', EventDelete ''x''], WatchCancelled] p = Ok p'
     \<and> set (mkeys (p_clients p')) = members (p_ring p')"
proof -
  have "set [''a'', ''bb''] - {[]} \<subseteq> {''a'', ''bb''}" by auto
  moreover have "\<forall>e \<in> set (watched [WatchError, WatchEvents [EventPut ''k'' ''bb'', EventDelete ''x''], WatchCancelled]).
      set (event_addr e) - {[]} \<subseteq> {''a'', ''bb''}" by auto
  ultimately show ?thesis
    using discovery_follows_etcd [OF toy_cluster, of "[''a'', ''bb'']"
      "[WatchError, WatchEvents [EventPut ''k'' ''bb'', EventDelete ''x''], WatchCancelled]"
      "\<lambda>_ _ _. True" "''a''" "[WithClientOptions [()]]" "[]"] by blast
qed

subsection \<open>A picker at work\<close>

text \<open>A watch that is alone is the run of its messages.\<close>

lemma watch_alone:
  "picker_run dial (map Received ms) (True, b, p, out) =
     obind (watchServiceChanges dial ms p) (\<lambda>p. Ok (\<forall>m \<in> set ms. m \<noteq> WatchCancelled \<and> m \<noteq> WatchClosed, b, p, out))"
proof -
  have off: "picker_run dial (map Received ms) (False, b, p, out) = Ok (False, b, p, out)" for ms p
    by (induction ms) simp_all
  show ?thesis
  proof (induction ms arbitrary: p)
    case (Cons m ms)
    show ?case
    proof (cases m)
      case (WatchEvents es)
      then show ?thesis using Cons.IH by (cases "handleWatchEvents dial es p") simp_all
    qed (simp_all add: off Cons.IH)
  qed simp
qed

definition peers_asked :: "picker_event list \<Rightarrow> nat" where
  "peers_asked es = length (filter (\<lambda>e. case e of Picked _ \<Rightarrow> True | _ \<Rightarrow> False) es)"

fun heard :: "picker_event \<Rightarrow> event list" where
  "heard (Received (WatchEvents es)) = es"
| "heard _ = []"

text \<open>The clients that have been made and not dropped.\<close>

definition known :: "ClientPicker \<Rightarrow> nat set" where
  "known p = set (p_closed_clients p) \<union> set (map snd (p_clients p))"

definition work_ok :: "string set \<Rightarrow> nat \<Rightarrow> picker_state \<Rightarrow> bool" where
  "work_ok A n s \<longleftrightarrow>
     (case s of (on, b, p, out) \<Rightarrow>
        picker_ok A p \<and> set out \<subseteq> known p
        \<and> ring_inv (m_config (p_ring p)) A n (members (p_ring p), False) (b, p_ring p))"

lemma known_mdel:
  assumes "gomap_ok m" and "mget m k = Some v"
  shows "set (map snd m) \<subseteq> insert v (set (map snd (mdel k m)))"
proof
  fix w assume "w \<in> set (map snd m)"
  then obtain k' where k': "(k', w) \<in> set m" by auto
  show "w \<in> insert v (set (map snd (mdel k m)))"
  proof (cases "k' = k")
    case True
    then have "mget m k = Some w" using k' mget_in_set [OF assms(1), of k' w] by simp
    then show ?thesis using assms(2) by simp
  next
    case False
    then show ?thesis using k' by (force simp: mdel_filter)
  qed
qed

lemma known_mput:
  assumes "mget m k = None"
  shows "set (map snd m) \<subseteq> set (map snd (mput k v m))"
proof -
  have "k \<notin> set (mkeys m)" using assms by (metis domIff mget_dom)
  then show ?thesis by (simp add: distinct_snd_mput_new subset_insertI)
qed

lemma obind_Ok: "obind x f = Ok y \<longleftrightarrow> (\<exists>a. x = Ok a \<and> f a = Ok y)"
  by (cases x) simp_all

text \<open>No event counts a request, and no client that was made gets lost.\<close>

definition keeps :: "ClientPicker \<Rightarrow> ClientPicker \<Rightarrow> bool" where
  "keeps p p' \<longleftrightarrow> totalRequests (p_ring p') = totalRequests (p_ring p) \<and> known p \<subseteq> known p'"

lemma keeps_trans: "keeps p q \<Longrightarrow> keeps q r \<Longrightarrow> keeps p r"
  by (auto simp: keeps_def)

lemma keeps_drop:
  assumes "gomap_ok (p_clients p)" and "mget (p_clients p) addr = Some c" and "Remove addr (p_ring p) = Ok (e, ring)"
  shows "keeps p (p\<lparr>p_closed_clients := p_closed_clients p @ [c], p_ring := ring, p_clients := mdel addr (p_clients p)\<rparr>)"
  using known_mdel [OF assms(1,2)] Remove_keeps [OF assms(3)] by (auto simp: keeps_def known_def simp del: set_map)

lemma keeps_set:
  assumes g: "gomap_ok (p_clients p)" and set: "picker_set dial addr p = Ok p'"
  shows "keeps p p'"
proof -
  obtain q where q: "(case mget (p_clients p) addr of
          Some old \<Rightarrow>
            obind (Remove addr (p_ring p)) (\<lambda>(_, ring).
              Ok (p\<lparr>p_closed_clients := p_closed_clients p @ [old], p_ring := ring,
                    p_clients := mdel addr (p_clients p)\<rparr>))
        | None \<Rightarrow> Ok p) = Ok q"
    and rest: "(let client = p_next q; p = q\<lparr>p_next := Suc (p_next q)\<rparr> in
            if \<not> dial client addr then Ok p
            else obind (Add [addr] (p_ring p)) (\<lambda>(_, ring).
                   Ok (p\<lparr>p_ring := ring, p_clients := mput addr client (p_clients p)\<rparr>))) = Ok p'"
    using set unfolding picker_set_def obind_Ok by blast
  have pq: "keeps p q \<and> mget (p_clients q) addr = None"
  proof (cases "mget (p_clients p) addr")
    case None
    with q show ?thesis by (simp add: keeps_def)
  next
    case (Some old)
    with q obtain e ring where r: "Remove addr (p_ring p) = Ok (e, ring)"
      "q = p\<lparr>p_closed_clients := p_closed_clients p @ [old], p_ring := ring, p_clients := mdel addr (p_clients p)\<rparr>"
      by (auto simp: obind_Ok)
    with keeps_drop [OF g Some r(1)] show ?thesis by simp
  qed
  have "keeps q p'"
  proof (cases "dial (p_next q) addr")
    case False
    then show ?thesis using rest by (auto simp: keeps_def known_def Let_def)
  next
    case True
    with rest obtain e ring where r: "Add [addr] (p_ring q) = Ok (e, ring)"
      "p' = q\<lparr>p_next := Suc (p_next q), p_ring := ring, p_clients := mput addr (p_next q) (p_clients q)\<rparr>"
      by (auto simp: obind_Ok Let_def)
    with Add_keeps [OF r(1)] known_mput [of "p_clients q" addr "p_next q"] pq show ?thesis
      by (auto simp: keeps_def known_def simp del: set_map)
  qed
  with pq show ?thesis using keeps_trans by blast
qed

lemma handle_event_keeps:
  assumes g: "gomap_ok (p_clients p)" and e: "handle_event dial e p = Ok p'"
  shows "keeps p p'"
proof (cases e)
  case (EventPut key addr)
  then show ?thesis using e keeps_set [OF g] by (auto simp: keeps_def split: if_splits)
next
  case (EventDelete key)
  let ?addr = "parseAddrFromKey key (p_svcName p)"
  show ?thesis
  proof (cases "(?addr = [] \<or> ?addr = p_selfAddr p) \<or> mget (p_clients p) ?addr = None")
    case True
    then have "p' = p" using e EventDelete by (auto simp: Let_def split: if_splits)
    then show ?thesis by (simp add: keeps_def)
  next
    case False
    then obtain c where c: "mget (p_clients p) ?addr = Some c" by blast
    with False e EventDelete obtain err ring where "Remove ?addr (p_ring p) = Ok (err, ring)"
      "p' = p\<lparr>p_closed_clients := p_closed_clients p @ [c], p_ring := ring, p_clients := mdel ?addr (p_clients p)\<rparr>"
      by (auto simp: Let_def picker_remove_def obind_Ok)
    then show ?thesis using keeps_drop [OF g c] by simp
  qed
qed

lemma handleWatchEvents_keeps:
  assumes "picker_ok A p" and "\<forall>e \<in> set es. set (event_addr e) - {[]} \<subseteq> A" and "handleWatchEvents dial es p = Ok p'"
  shows "keeps p p'"
  using assms
proof (induction es arbitrary: p)
  case (Cons e es)
  obtain p1 where p1: "handle_event dial e p = Ok p1" "followed A dial [e] p p1"
    using handle_event_followed [OF Cons.prems(1), of e dial] Cons.prems(2) by auto
  then have "picker_ok A p1" by (simp add: followed_def)
  from Cons.IH [OF this] Cons.prems(2,3) p1(1) have "keeps p1 p'" by simp
  with handle_event_keeps [OF picker_okD(4) [OF Cons.prems(1)] p1(1)] show ?case by (rule keeps_trans)
qed (simp add: keeps_def)

text \<open>A step of the ring beside the table of clients.\<close>

lemma work_ring:
  assumes ok: "work_ok A n (on, b, p, out)" and e: "ring_plan A [e] (members (p_ring p), False) = Some (members (p_ring p), False)"
  shows "case ring_step e (b, p_ring p) of
      Ok (b', m) \<Rightarrow> work_ok A (n + asks [e]) (on, b', p\<lparr>p_ring := m\<rparr>, out) | Panic \<Rightarrow> False | Deadlock \<Rightarrow> 1000 \<le> n"
proof -
  have p: "picker_ok A p" "set out \<subseteq> known p" and inv: "ring_inv (m_config (p_ring p)) A n (members (p_ring p), False) (b, p_ring p)"
    using ok by (simp_all add: work_ok_def)
  note st = ring_step_inv [OF inv picker_okD(3) [OF p(1)] e refl]
  show ?thesis
  proof (cases "ring_step e (b, p_ring p)")
    case (Ok s)
    obtain b' m where s: "s = (b', m)" by fastforce
    with st Ok have r: "ring_inv (m_config (p_ring p)) A (n + asks [e]) (members (p_ring p), False) (b', m)" by simp
    then have m: "ring_ok m" "default_replicas m" "m_config m = m_config (p_ring p)" "members m = members (p_ring p)"
      by (simp_all add: ring_inv_def)
    have "picker_ok A (p\<lparr>p_ring := m\<rparr>)" using p(1) m unfolding picker_ok_def by simp
    then show ?thesis using p(2) r m(3,4) by (simp add: Ok s work_ok_def known_def)
  qed (use st in auto)
qed

lemma work_balance:
  assumes ok: "work_ok A n (on, b, p, out)" and e: "ring_plan A [e] (members (p_ring p), False) = Some (members (p_ring p), False)"
    and "\<not> is_ask e"
  shows "case balance e (on, b, p, out) of Ok s' \<Rightarrow> work_ok A n s' | Panic \<Rightarrow> False | Deadlock \<Rightarrow> 1000 \<le> n"
proof -
  note st = work_ring [OF ok e]
  show ?thesis
  proof (cases "ring_step e (b, p_ring p)")
    case (Ok s)
    with st assms(3) show ?thesis by (cases s) (simp add: balance_def)
  qed (use st in \<open>simp_all add: balance_def\<close>)
qed

lemma peers_asked_simps [simp]:
  "peers_asked [] = 0" "peers_asked (Picked key # es) = Suc (peers_asked es)" "peers_asked (Received m # es) = peers_asked es"
  "peers_asked (BalancerTicks # es) = peers_asked es" "peers_asked (BalancerRebalances # es) = peers_asked es" "peers_asked (BalancerEnds # es) = peers_asked es"
  by (simp_all add: peers_asked_def)

lemma picker_step_ok:
  assumes ok: "work_ok A n s" and A: "\<forall>ev \<in> set (heard e). set (event_addr ev) - {[]} \<subseteq> A"
  shows "case picker_step dial e s of Ok s' \<Rightarrow> work_ok A (n + peers_asked [e]) s' | Panic \<Rightarrow> False | Deadlock \<Rightarrow> 1000 \<le> n"
proof -
  obtain on b p out where s: "s = (on, b, p, out)" by (metis prod_cases4)
  have p: "picker_ok A p" "set out \<subseteq> known p" and inv: "ring_inv (m_config (p_ring p)) A n (members (p_ring p), False) (b, p_ring p)"
    using ok by (simp_all add: work_ok_def s)
  note ring = work_ring [OF ok [unfolded s]]
  show ?thesis
  proof (cases e)
    case (Received m)
    show ?thesis
    proof (cases "\<exists>es. on \<and> m = WatchEvents es")
      case True
      then obtain es where es: "on" "m = WatchEvents es" by blast
      with A Received have A': "\<forall>ev \<in> set es. set (event_addr ev) - {[]} \<subseteq> A" by simp
      obtain p' where p': "handleWatchEvents dial es p = Ok p'" "followed A dial es p p'"
        using handleWatchEvents_followed [OF p(1) A'] by blast
      note k = handleWatchEvents_keeps [OF p(1) A' p'(1)]
      have ok': "picker_ok A p'" "m_config (p_ring p') = m_config (p_ring p)" "m_done (p_ring p') = m_done (p_ring p)"
        using p'(2) by (simp_all add: followed_def)
      have "ring_inv (m_config (p_ring p')) A n (members (p_ring p'), False) (b, p_ring p')"
        using inv k ok'(2,3) picker_okD(1,2,6) [OF ok'(1)] by (simp add: ring_inv_def keeps_def)
      with ok'(1) p(2) k p'(1) es Received show ?thesis by (auto simp: s work_ok_def keeps_def)
    next
      case False
      with ok Received show ?thesis by (cases m) (auto simp: s work_ok_def)
    qed
  next
    case (Picked key)
    obtain a m where g: "Get key (p_ring p) = Ok (a, m)" using Get_keeps [OF picker_okD(1) [OF p(1)]] by blast
    from ring [of "Ask key"] have w: "work_ok A (Suc n) (on, b, p\<lparr>p_ring := m\<rparr>, out)" by (simp add: call_ring_def g)
    have "\<exists>client f i. PickPeer key p = Ok ((client, f, i), p\<lparr>p_ring := m\<rparr>)
        \<and> (\<forall>c. client = Some c \<longrightarrow> mget (p_clients p) a = Some c)"
      by (cases "a = []"; cases "mget (p_clients p) a") (auto simp: PickPeer_def g Let_def intro: exI [of _ False])
    then obtain client f i where pk: "PickPeer key p = Ok ((client, f, i), p\<lparr>p_ring := m\<rparr>)"
        "\<forall>c. client = Some c \<longrightarrow> mget (p_clients p) a = Some c" by blast
    have "c \<in> known p" if "client = Some c" for c
      using pk(2) that map_of_SomeD [of "p_clients p" a c] by (force simp: known_def)
    with w pk(1) Picked show ?thesis by (auto simp: s work_ok_def known_def split: option.split)
  next
    case BalancerTicks
    from work_balance [OF ok [unfolded s], of Ticked] show ?thesis by (simp add: s BalancerTicks cong: outcome.case_cong)
  next
    case BalancerRebalances
    from work_balance [OF ok [unfolded s], of Rebalance] show ?thesis by (simp add: s BalancerRebalances cong: outcome.case_cong)
  next
    case BalancerEnds
    from work_balance [OF ok [unfolded s], of DoneSeen] show ?thesis by (simp add: s BalancerEnds cong: outcome.case_cong)
  qed
qed

lemma peers_asked_Cons: "peers_asked (e # es) = peers_asked [e] + peers_asked es"
  by (cases e) simp_all

lemma picker_run_ok:
  assumes "work_ok A n s" and "\<forall>e \<in> set es. \<forall>ev \<in> set (heard e). set (event_addr ev) - {[]} \<subseteq> A"
  shows "case picker_run dial es s of Ok s' \<Rightarrow> work_ok A (n + peers_asked es) s' | Panic \<Rightarrow> False | Deadlock \<Rightarrow> 1000 \<le> n + peers_asked es"
  using assms
proof (induction es arbitrary: n s)
  case (Cons e es)
  from picker_step_ok [OF Cons.prems(1), of e dial] Cons.prems(2)
  have st: "case picker_step dial e s of Ok s' \<Rightarrow> work_ok A (n + peers_asked [e]) s' | Panic \<Rightarrow> False | Deadlock \<Rightarrow> 1000 \<le> n" by simp
  show ?case
  proof (cases "picker_step dial e s")
    case (Ok s1)
    with st have "work_ok A (n + peers_asked [e]) s1" by simp
    from Cons.IH [OF this] Cons.prems(2) have
      "case picker_run dial es s1 of Ok s' \<Rightarrow> work_ok A (n + peers_asked (e # es)) s' | Panic \<Rightarrow> False | Deadlock \<Rightarrow> 1000 \<le> n + peers_asked (e # es)"
      unfolding peers_asked_Cons [of e es] add.assoc by simp
    with Ok show ?thesis by simp
  qed (use st in auto)
qed simp

text \<open>A picker that is closed while its goroutine holds a message that it has received already.\<close>

lemma event_after_close_leaks:
  "\<exists>p p'. picker_Close (\<lambda>_. False) False (new_picker ''a'' ''svc'' toy_config) = Ok (False, p)
     \<and> handleWatchEvents (\<lambda>_ _. True) [EventPut ''k'' ''bb''] p = Ok p'
     \<and> mget (p_clients p') ''bb'' = Some 0 \<and> p_closed_clients p' = []"
  by (simp add: picker_Close_def new_picker_def Close_def New_def picker_set_def Add_def addNode_def toy_config_def getd_def
      vhash_def dec_small Let_def)

subsection \<open>Picking\<close>

text \<open>
  \<open>PickPeer\<close> on a picker with members finds, for every key, the client of the member that
  owns the key on the ring, which is open, and never says that the node is this one.
\<close>

theorem pick_peer_owner:
  assumes "picker_ok A p" and "m_keys (p_ring p) \<noteq> []" and "key \<noteq> []"
  shows "\<exists>c p'. PickPeer key p = Ok ((Some c, True, False), p') \<and> picker_ok A p'
    \<and> mget (p_clients p) (owner (p_ring p) key) = Some c \<and> c \<notin> set (p_closed_clients p)"
proof -
  note d = picker_okD [OF assms(1)]
  obtain m' cnt where g: "Get key (p_ring p) = Ok (owner (p_ring p) key, m')" "ring_ok m'"
      "owner (p_ring p) key \<in> members (p_ring p)"
      "m' = (p_ring p)\<lparr>nodeCounts := mput (owner (p_ring p) key) (cnt + 1) (nodeCounts (p_ring p)),
                       totalRequests := totalRequests (p_ring p) + 1\<rparr>"
    using Get_owner [OF d(1) assms(2,3)] by blast
  let ?a = "owner (p_ring p) key"
  have a: "?a \<noteq> []" "?a \<noteq> p_selfAddr p" using g(3) ring_okD(10) [OF d(1)] d(7) by auto
  obtain c where c: "mget (p_clients p) ?a = Some c" using g(3) d(5) by (metis domD mget_dom)
  have "c \<in> set (map snd (p_clients p))" using map_of_SomeD [OF c] by force
  then have opn: "c \<notin> set (p_closed_clients p)" using d(8) by blast
  have "picker_ok A (p\<lparr>p_ring := m'\<rparr>)"
    using assms(1) g(2,4) by (simp add: picker_ok_def default_replicas_def members_def)
  moreover have "PickPeer key p = Ok ((Some c, True, False), p\<lparr>p_ring := m'\<rparr>)"
    using g(1) a c by (simp add: PickPeer_def Let_def)
  ultimately show ?thesis using c opn by blast
qed

text \<open>A ring with a member has positions.\<close>

lemma members_keys:
  assumes ok: "ring_ok m" and mem: "n \<in> members m"
  shows "m_keys m \<noteq> []"
proof -
  have "0 < getd 0 (nodeReplicas m) n" by (rule ring_okD(9) [OF ok mem])
  then have "is_vnode m n (vhash (m_config m) n 0)" unfolding is_vnode_def by (intro exI [of _ 0]) simp
  then have "mget (hashMap m) (vhash (m_config m) n 0) = Some n" using ring_okD(7) [OF ok] mem by simp
  then have "vhash (m_config m) n 0 \<in> set (m_keys m)" using ring_okD(6) [OF ok] by blast
  then show ?thesis by auto
qed

lemma pair_found:
  assumes "{self, other} = {''a'', ''bb''}" and "self \<noteq> other"
  shows "\<exists>p. fetchAllServices (\<lambda>_ _. True) (Some [''a'', ''bb'']) (new_picker self ''svc'' toy_config) = Ok (True, p)
    \<and> picker_ok {''a'', ''bb''} p \<and> members (p_ring p) = {other} \<and> m_keys (p_ring p) \<noteq> []"
proof -
  let ?A = "{''a'', ''bb''}" and ?p = "new_picker self ''svc'' toy_config"
  have ok: "picker_ok ?A ?p" by (rule picker_ok_new [OF toy_cluster])
  have other: "other \<in> ?A" "other \<noteq> []" "other \<noteq> p_selfAddr ?p" using assms by (auto simp: new_picker_def)
  from picker_set_ok [OF ok other, of "\<lambda>_ _. True"] obtain p where
    p: "picker_set (\<lambda>_ _. True) other ?p = Ok p" "picker_ok ?A p" "members (p_ring p) = insert other (members (p_ring ?p))"
      "p_selfAddr p = p_selfAddr ?p" by auto
  have mem: "members (p_ring p) = {other}" using p(3) by (simp add: new_picker_def New_def members_def)
  have "m_keys (p_ring p) \<noteq> []" using members_keys [OF picker_okD(1) [OF p(2)]] mem by simp
  moreover have self: "p_selfAddr ?p = self" by (simp add: new_picker_def)
  have "self = ''a'' \<and> other = ''bb'' \<or> self = ''bb'' \<and> other = ''a''"
    using assms(1) by (simp only: doubleton_eq_iff)
  then have "set_all (\<lambda>_ _. True) [''a'', ''bb''] ?p = Ok p"
    using p(1) p(4) [unfolded self] self by (elim disjE conjE) simp_all
  ultimately show ?thesis using p(2) mem by (simp add: fetchAllServices_def)
qed

theorem pick_peer_owner_witness:
  "\<exists>p c p'. fetchAllServices (\<lambda>_ _. True) (Some [''a'', ''bb'']) (new_picker ''a'' ''svc'' toy_config) = Ok (True, p)
     \<and> PickPeer ''key'' p = Ok ((Some c, True, False), p')"
proof -
  obtain p where p: "fetchAllServices (\<lambda>_ _. True) (Some [''a'', ''bb'']) (new_picker ''a'' ''svc'' toy_config) = Ok (True, p)"
      "picker_ok {''a'', ''bb''} p" "m_keys (p_ring p) \<noteq> []"
    using pair_found [of "''a''" "''bb''"] by auto
  have "''key'' \<noteq> []" by simp
  from pick_peer_owner [OF p(2,3) this] p(1) show ?thesis by blast
qed

text \<open>
  In a cluster of two nodes that know each other, each node sends every key to the other:
  a node is never on its own ring, so a key that misses on both is forwarded back and forth.
\<close>

theorem two_nodes_forward_to_each_other:
  assumes "key \<noteq> []"
  shows "\<exists>pa pb ca cb pa' pb'.
     fetchAllServices (\<lambda>_ _. True) (Some [''a'', ''bb'']) (new_picker ''a'' ''svc'' toy_config) = Ok (True, pa)
   \<and> fetchAllServices (\<lambda>_ _. True) (Some [''a'', ''bb'']) (new_picker ''bb'' ''svc'' toy_config) = Ok (True, pb)
   \<and> PickPeer key pa = Ok ((Some ca, True, False), pa') \<and> mget (p_clients pa) ''bb'' = Some ca
   \<and> PickPeer key pb = Ok ((Some cb, True, False), pb') \<and> mget (p_clients pb) ''a'' = Some cb"
proof -
  have pick: "\<exists>p c p'. fetchAllServices (\<lambda>_ _. True) (Some [''a'', ''bb'']) (new_picker self ''svc'' toy_config) = Ok (True, p)
      \<and> PickPeer key p = Ok ((Some c, True, False), p') \<and> mget (p_clients p) other = Some c"
    if s: "{self, other} = {''a'', ''bb''}" "self \<noteq> other" for self other
  proof -
    from pair_found [OF s] obtain p where p:
      "fetchAllServices (\<lambda>_ _. True) (Some [''a'', ''bb'']) (new_picker self ''svc'' toy_config) = Ok (True, p)"
      "picker_ok {''a'', ''bb''} p" "members (p_ring p) = {other}" "m_keys (p_ring p) \<noteq> []" by blast
    have "owner (p_ring p) key = other"
      using owner_member(2) [OF picker_okD(1) [OF p(2)] p(4)] p(3) by (simp add: owner_def)
    moreover obtain c p' where "PickPeer key p = Ok ((Some c, True, False), p')"
        "mget (p_clients p) (owner (p_ring p) key) = Some c"
    proof -
      note d = picker_okD [OF p(2)]
      obtain m' cnt where g: "Get key (p_ring p) = Ok (owner (p_ring p) key, m')"
          "owner (p_ring p) key \<in> members (p_ring p)" using Get_owner [OF d(1) p(4) assms] by blast
      have a: "owner (p_ring p) key \<noteq> []" "owner (p_ring p) key \<noteq> p_selfAddr p"
        using g(2) ring_okD(10) [OF d(1)] d(7) by auto
      obtain c where c: "mget (p_clients p) (owner (p_ring p) key) = Some c" using g(2) d(5) by (metis domD mget_dom)
      from that [of c] g(1) a c show ?thesis by (simp add: PickPeer_def Let_def)
    qed
    ultimately show ?thesis using p(1) by blast
  qed
  have "{''bb'', ''a''} = {''a'', ''bb''}" by (rule insert_commute)
  moreover have "''a'' \<noteq> ''bb''" "''bb'' \<noteq> ''a''" by simp_all
  ultimately show ?thesis using pick [of "''a''" "''bb''"] pick [of "''bb''" "''a''"] by blast
qed

theorem two_nodes_forward_to_each_other_witness:
  "\<exists>p c p'. fetchAllServices (\<lambda>_ _. True) (Some [''a'', ''bb'']) (new_picker ''bb'' ''svc'' toy_config) = Ok (True, p)
     \<and> PickPeer ''key'' p = Ok ((Some c, True, False), p') \<and> mget (p_clients p) ''a'' = Some c"
  using two_nodes_forward_to_each_other [of "''key''"] by auto

subsection \<open>Keys\<close>

text \<open>
  Round trip: the address under which a node registers is what the watcher parses back
  from the key, for every service name.
\<close>

theorem register_key_roundtrip: "parseAddrFromKey (register_key svcName addr) svcName = addr"
  by (simp add: parseAddrFromKey_def register_key_def has_prefix_def Let_def)

text \<open>
  The watched prefix has no final slash, so it also covers the services whose name starts
  with this one's: their puts add members, and their deletes are ignored.
\<close>

theorem foreign_service_never_leaves:
  assumes "suffix \<noteq> []" and "hd suffix \<noteq> CHR ''/''"
  shows "has_prefix (register_key (svcName @ suffix) addr) (service_prefix svcName)
    \<and> (\<forall>dial p. p_svcName p = svcName \<longrightarrow>
          handle_event dial (EventPut (register_key (svcName @ suffix) addr) addr) p =
            (if addr = [] \<or> addr = p_selfAddr p then Ok p else picker_set dial addr p)
        \<and> handle_event dial (EventDelete (register_key (svcName @ suffix) addr)) p = Ok p)"
  using assms by (cases suffix) (auto simp: register_key_def service_prefix_def has_prefix_def parseAddrFromKey_def Let_def)

theorem foreign_service_never_leaves_witness:
  "has_prefix (register_key ''svc2'' ''bb'') (service_prefix ''svc'')
   \<and> handle_event (\<lambda>_ _. True) (EventDelete (register_key ''svc2'' ''bb'')) (new_picker ''a'' ''svc'' toy_config)
     = Ok (new_picker ''a'' ''svc'' toy_config)"
proof -
  have "p_svcName (new_picker ''a'' ''svc'' toy_config) = ''svc''" by (simp add: new_picker_def)
  moreover have "''2'' \<noteq> []" "hd ''2'' \<noteq> CHR ''/''" by simp_all
  note foreign_service_never_leaves [OF this, of "''svc''" "''bb''"]
  ultimately show ?thesis by (simp only: append.simps)
qed

end
