(* ===== verification/Registration.thy ===== *)
theory Registration
  imports Peer_Picker
begin

text \<open>
  \<open>registry/register.go\<close>: how a node registers in etcd and keeps its lease.  etcd and the
  network interfaces are not under \<open>src/\<close>: what each call on them answers is an argument, and
  the calls made are the list that comes back.
\<close>

subsection \<open>The local address\<close>

text \<open>
  An address of an interface: whether it is an \<open>IPNet\<close>, whether it is the loopback, and the
  text of the IP when it is an IPv4 one.
\<close>

record interface_addr =
  ia_ipnet :: bool
  ia_loopback :: bool
  ia_ip4 :: "string option"

fun first_ip :: "interface_addr list \<Rightarrow> string option" where
  "first_ip [] = None"
| "first_ip (a # as) =
     (if ia_ipnet a \<and> \<not> ia_loopback a \<and> ia_ip4 a \<noteq> None then ia_ip4 a else first_ip as)"

text \<open>\<open>None\<close> as the argument is an error of \<open>net.InterfaceAddrs\<close>.\<close>

definition getLocalIP :: "interface_addr list option \<Rightarrow> string option" where
  "getLocalIP addrs = (case addrs of None \<Rightarrow> None | Some as \<Rightarrow> first_ip as)"

subsection \<open>Registering\<close>

record RegistryConfig =
  rc_Endpoints :: "string list"
  rc_DialTimeout :: int

definition second :: int where "second = 1000000000"

definition DefaultRegistryConfig :: RegistryConfig where
  "DefaultRegistryConfig = \<lparr>rc_Endpoints = [''localhost:2379''], rc_DialTimeout = 5 * second\<rparr>"

datatype etcd_call =
    EtcdNew "string list" int
  | EtcdGrant int
  | EtcdPut string string
  | EtcdKeepAlive
  | EtcdRevoke
  | EtcdClose

datatype register_error = NoClient | NoLocalIP | NoLease | NoPut | NoKeepAlive

text \<open>Which calls succeed.\<close>

record register_env =
  re_new :: bool
  re_addrs :: "interface_addr list option"
  re_grant :: bool
  re_put :: bool
  re_keepalive :: bool

text \<open>The error, if any, and the calls on etcd; without an error the goroutine of the lease runs.\<close>

definition Register ::
    "string \<Rightarrow> string \<Rightarrow> string \<Rightarrow> string list \<Rightarrow> int \<Rightarrow> register_env \<Rightarrow> register_error option \<times> etcd_call list" where
  "Register svcName listenAddr advertiseAddr endpoints dialTimeout e =
     (let endpoints = (if endpoints = [] then rc_Endpoints DefaultRegistryConfig else endpoints);
          dialTimeout = (if dialTimeout \<le> 0 then rc_DialTimeout DefaultRegistryConfig else dialTimeout);
          new = [EtcdNew endpoints dialTimeout]
      in if \<not> re_new e then (Some NoClient, new)
         else
           (case registered_addr listenAddr advertiseAddr (getLocalIP (re_addrs e)) of
              None \<Rightarrow> (Some NoLocalIP, new @ [EtcdClose])
            | Some addr \<Rightarrow>
                let grant = new @ [EtcdGrant 10] in
                if \<not> re_grant e then (Some NoLease, grant @ [EtcdClose])
                else
                  let put = grant @ [EtcdPut (register_key svcName addr) addr] in
                  if \<not> re_put e then (Some NoPut, put @ [EtcdClose])
                  else if \<not> re_keepalive e then (Some NoKeepAlive, put @ [EtcdKeepAlive, EtcdClose])
                  else (None, put @ [EtcdKeepAlive])))"

text \<open>The goroutine: what it receives, until the stop signal or the end of the keep-alive channel.\<close>

datatype lease_event = LeaseStop | LeaseRenewed | LeaseLost

fun lease_loop :: "lease_event list \<Rightarrow> etcd_call list" where
  "lease_loop [] = []"
| "lease_loop (LeaseStop # es) = [EtcdRevoke, EtcdClose]"
| "lease_loop (LeaseLost # es) = [EtcdClose]"
| "lease_loop (LeaseRenewed # es) = lease_loop es"

subsection \<open>Properties\<close>

definition etcd_closes :: "etcd_call list \<Rightarrow> nat" where
  "etcd_closes cs = length (filter (\<lambda>c. c = EtcdClose) cs)"

text \<open>
  C39. Registering leaks no client: a client that was made is closed exactly once, at the end,
  on every path that fails, and is left open exactly when registration succeeds; the goroutine
  closes it once, whenever it ends.
\<close>

theorem register_closes_once:
  "(fst (Register svc listen adv eps t e) = None \<longrightarrow> etcd_closes (snd (Register svc listen adv eps t e)) = 0)
   \<and> (fst (Register svc listen adv eps t e) \<noteq> None \<and> re_new e \<longrightarrow>
        etcd_closes (snd (Register svc listen adv eps t e)) = 1 \<and> last (snd (Register svc listen adv eps t e)) = EtcdClose)
   \<and> (\<forall>es. LeaseStop \<in> set es \<or> LeaseLost \<in> set es \<longrightarrow> etcd_closes (lease_loop es) = 1 \<and> last (lease_loop es) = EtcdClose)"
proof (intro conjI allI impI)
  show "etcd_closes (snd (Register svc listen adv eps t e)) = 0" if "fst (Register svc listen adv eps t e) = None"
    using that by (auto simp: Register_def Let_def etcd_closes_def split: if_splits option.splits)
  show "etcd_closes (snd (Register svc listen adv eps t e)) = 1" "last (snd (Register svc listen adv eps t e)) = EtcdClose"
    if "fst (Register svc listen adv eps t e) \<noteq> None \<and> re_new e"
    using that by (auto simp: Register_def Let_def etcd_closes_def split: if_splits option.splits)
  show "etcd_closes (lease_loop es) = 1" "last (lease_loop es) = EtcdClose"
    if "LeaseStop \<in> set es \<or> LeaseLost \<in> set es" for es
    using that by (induction es rule: lease_loop.induct) (auto simp: etcd_closes_def)
qed

definition good_env :: register_env where
  "good_env = \<lparr>re_new = True, re_addrs = Some [\<lparr>ia_ipnet = True, ia_loopback = False, ia_ip4 = Some ''10.0.0.1''\<rparr>],
     re_grant = True, re_put = True, re_keepalive = True\<rparr>"

theorem register_closes_once_witness:
  "etcd_closes (snd (Register ''svc'' '':8001'' [] [] 0 (good_env\<lparr>re_put := False\<rparr>))) = 1"
proof -
  have "fst (Register ''svc'' '':8001'' [] [] 0 (good_env\<lparr>re_put := False\<rparr>)) \<noteq> None"
    by (simp add: Register_def good_env_def registered_addr_def getLocalIP_def Let_def)
  then show ?thesis using register_closes_once [of "''svc''" "'':8001''" "[]" "[]" 0 "good_env\<lparr>re_put := False\<rparr>"]
    by (simp add: good_env_def)
qed

text \<open>
  A node that registers is discovered: the put that \<open>Register\<close> makes, watched by a picker of
  the same service on another address, adds the address it registered, and the delete of the
  same key, when the lease ends, removes it.
\<close>

theorem registered_node_is_discovered:
  assumes "fst (Register (p_svcName p) listen adv eps t e) = None"
  shows "\<exists>key addr. EtcdPut key addr \<in> set (snd (Register (p_svcName p) listen adv eps t e))
    \<and> registered_addr listen adv (getLocalIP (re_addrs e)) = Some addr
    \<and> has_prefix key (service_prefix (p_svcName p))
    \<and> (addr \<noteq> [] \<and> addr \<noteq> p_selfAddr p \<longrightarrow>
        handle_event dial (EventPut key addr) p = picker_set dial addr p
        \<and> (\<forall>c. mget (p_clients p) addr = Some c \<longrightarrow>
             handle_event dial (EventDelete key) p = picker_remove addr (p\<lparr>p_closed_clients := p_closed_clients p @ [c]\<rparr>)))"
proof -
  obtain addr where addr: "registered_addr listen adv (getLocalIP (re_addrs e)) = Some addr"
    using assms by (auto simp: Register_def Let_def split: if_splits option.splits)
  let ?key = "register_key (p_svcName p) addr"
  have put: "EtcdPut ?key addr \<in> set (snd (Register (p_svcName p) listen adv eps t e))"
    using assms addr by (auto simp: Register_def Let_def split: if_splits)
  have "parseAddrFromKey ?key (p_svcName p) = addr" "has_prefix ?key (service_prefix (p_svcName p))"
    by (simp_all add: parseAddrFromKey_def register_key_def service_prefix_def has_prefix_def Let_def)
  with put addr show ?thesis by (intro exI [of _ ?key] exI [of _ addr]) simp
qed

theorem registered_node_is_discovered_witness:
  "\<exists>key. handle_event (\<lambda>_ _. True) (EventPut key ''10.0.0.1:8001'') (new_picker ''10.0.0.2:8001'' ''svc'' DefaultConfig)
     = picker_set (\<lambda>_ _. True) ''10.0.0.1:8001'' (new_picker ''10.0.0.2:8001'' ''svc'' DefaultConfig)"
proof -
  let ?p = "new_picker ''10.0.0.2:8001'' ''svc'' DefaultConfig"
  have "fst (Register (p_svcName ?p) '':8001'' [] [] 0 good_env) = None"
    "registered_addr '':8001'' [] (getLocalIP (re_addrs good_env)) = Some ''10.0.0.1:8001''" "p_selfAddr ?p = ''10.0.0.2:8001''"
    by (simp_all add: Register_def good_env_def registered_addr_def getLocalIP_def new_picker_def Let_def)
  with registered_node_is_discovered [OF this(1), of "\<lambda>_ _. True"] show ?thesis by auto
qed

end
