(* ===== verification/Cache_Group.thy ===== *)
theory Cache_Group
  imports Cache_Props Single_Flight
begin

text \<open>
  \<open>group.go\<close>: the operations of a \<open>Group\<close>, and the global table of groups.  As for \<open>Cache\<close>,
  a call is a sequence of sections: the sections of the calls it makes on its \<open>Cache\<close> and on
  its \<open>singleflight.Group\<close>, and its own.  The data source, the peers and the clock are not
  under \<open>src/\<close> or are reached through an interface: their answers are the environment of a
  section.  \<open>None\<close> is a section that waits or that panics in the cache; a panic of the data
  source is a result.  Counters are unbounded.
\<close>

subsection \<open>State\<close>

record group_stats =
  gs_loads :: int
  gs_localHits :: int
  gs_localMisses :: int
  gs_peerHits :: int
  gs_peerMisses :: int
  gs_loaderHits :: int
  gs_loaderErrors :: int
  gs_loadDuration :: int

definition zero_stats :: group_stats where
  "zero_stats = \<lparr>gs_loads = 0, gs_localHits = 0, gs_localMisses = 0, gs_peerHits = 0,
     gs_peerMisses = 0, gs_loaderHits = 0, gs_loaderErrors = 0, gs_loadDuration = 0\<rparr>"

text \<open>\<open>g_peers\<close> says whether the field \<open>peers\<close> is set.\<close>

record Group =
  g_name :: string
  g_mainCache :: Cache
  g_peers :: bool
  g_loader :: sf_group
  g_expiration :: int
  g_closed :: bool
  g_stats :: group_stats

datatype group_error = ErrKeyRequired | ErrValueRequired | ErrGroupClosed | LoadError sf_error

subsection \<open>The environment\<close>

datatype getter_outcome = GetterReturn bytes "string option" | GetterPanic string

text \<open>
  What the interfaces answer while a load runs: the choice of the \<open>PeerPicker\<close> (a peer or
  \<open>nil\<close>, whether it is found, whether it is this node), the answer of a \<open>Peer\<close> for a group
  and a key, and what the \<open>Getter\<close> does.
\<close>

record load_env =
  le_pick :: "key \<Rightarrow> nat option \<times> bool \<times> bool"
  le_peer :: "nat \<Rightarrow> string \<Rightarrow> key \<Rightarrow> string + bytes"
  le_getter :: "key \<Rightarrow> getter_outcome"

text \<open>
  The readings a section may take: the clock of the store, \<open>time.Now\<close> for a deadline, the
  reading of \<open>time.Until\<close>, and the time a load took.
\<close>

record group_env =
  ge_clk :: clk
  ge_now :: int
  ge_until :: int
  ge_elapsed :: int
  ge_load :: load_env

subsection \<open>Loading\<close>

definition getFromPeer :: "load_env \<Rightarrow> nat \<Rightarrow> string \<Rightarrow> key \<Rightarrow> string + byteview" where
  "getFromPeer e peer name k =
     (case le_peer e peer name k of
        Inl err \<Rightarrow> Inl (''failed to get from peer: '' @ err)
      | Inr b \<Rightarrow> Inr (ByteView b))"

definition from_getter :: "load_env \<Rightarrow> key \<Rightarrow> group_stats \<Rightarrow> fn_outcome \<times> group_stats" where
  "from_getter e k s =
     (case le_getter e k of
        GetterPanic r \<Rightarrow> (FnPanic r, s)
      | GetterReturn b (Some err) \<Rightarrow> (FnReturn (Some empty_view) (Some (''failed to get data: '' @ err)), s)
      | GetterReturn b None \<Rightarrow> (FnReturn (Some (ByteView b)) None, s\<lparr>gs_loaderHits := gs_loaderHits s + 1\<rparr>))"

text \<open>A call on a \<open>nil\<close> peer that was said to be found is a nil dereference.\<close>

definition loadData :: "bool \<Rightarrow> string \<Rightarrow> load_env \<Rightarrow> key \<Rightarrow> group_stats \<Rightarrow> fn_outcome \<times> group_stats" where
  "loadData peers name e k s =
     (if peers then
        (let (peer, found, isSelf) = le_pick e k in
         if found \<and> \<not> isSelf then
           (case peer of
              None \<Rightarrow> (FnPanic ''nil pointer dereference'', s)
            | Some p \<Rightarrow>
                (case getFromPeer e p name k of
                   Inr v \<Rightarrow> (FnReturn (Some v) None, s\<lparr>gs_peerHits := gs_peerHits s + 1\<rparr>)
                 | Inl _ \<Rightarrow> from_getter e k (s\<lparr>gs_peerMisses := gs_peerMisses s + 1\<rparr>)))
         else from_getter e k s)
      else from_getter e k s)"

subsection \<open>Calls and their sections\<close>

text \<open>\<open>from_peer\<close> is the mark in the context of a call.\<close>

datatype group_call =
    GGet key
  | GSet key bytes bool
  | GDelete key bool
  | GClear
  | GClose

datatype sync = SyncSet key bytes | SyncDelete key

text \<open>What a call returns; \<open>GDone\<close> carries the goroutine \<open>syncToPeers\<close> that the call starts.\<close>

datatype group_result = GView byteview | GError group_error | GDone "sync option"

datatype group_pc =
    GStart
  | GCache call pc
  | GLoad sf_pc
  | GReturn group_result
  | GPanic string

type_synonym group_section_result = "(group_pc \<times> Group) option"

text \<open>A section of a call on \<open>mainCache\<close>.\<close>

definition in_cache :: "call \<Rightarrow> pc \<Rightarrow> Group \<Rightarrow> group_section_result" where
  "in_cache x pc g =
     do { (pc', c) \<leftarrow> cache_section x pc (g_mainCache g);
          Some (GCache x pc', g\<lparr>g_mainCache := c\<rparr>) }"

text \<open>The call that stores a value, with the deadline the group's expiration gives.\<close>

definition cache_write :: "group_env \<Rightarrow> Group \<Rightarrow> key \<Rightarrow> byteview \<Rightarrow> call" where
  "cache_write e g k v =
     (if g_expiration g > 0
      then CAddExp (ge_clk e) (ge_until e) k v (ge_now e + g_expiration g)
      else CAdd (ge_clk e) k v)"

text \<open>
  \<open>load\<close>: the sections of \<open>loader.Do\<close>, of which the one that runs \<open>fn\<close> runs \<open>loadData\<close>, and the
  section after it.  A panic goes through \<open>load\<close>, which then records nothing.
\<close>

fun group_load :: "group_env \<Rightarrow> key \<Rightarrow> sf_pc \<Rightarrow> Group \<Rightarrow> group_section_result" where
  "group_load e k (SfRun c) g =
     (let (fn, s) = loadData (g_peers g) (g_name g) (ge_load e) k (g_stats g) in
      do { (pc, l) \<leftarrow> Do k fn (SfRun c) (g_loader g);
           Some (GLoad pc, g\<lparr>g_loader := l, g_stats := s\<rparr>) })"
| "group_load e k (SfReturn v err) g =
     (let s = g_stats g;
          s = s\<lparr>gs_loadDuration := gs_loadDuration s + ge_elapsed e, gs_loads := gs_loads s + 1\<rparr>
      in (case err of
            Some x \<Rightarrow> Some (GReturn (GError (LoadError x)), g\<lparr>g_stats := s\<lparr>gs_loaderErrors := gs_loaderErrors s + 1\<rparr>\<rparr>)
          | None \<Rightarrow>
              (case v of
                 Some view \<Rightarrow> Some (GCache (cache_write e g k view) Load_closed, g\<lparr>g_stats := s\<rparr>)
               | None \<Rightarrow> Some (GPanic ''interface conversion'', g\<lparr>g_stats := s\<rparr>))))"
| "group_load e k (SfPanic r) g = Some (GPanic r, g)"
| "group_load e k pc g =
     do { (pc', l) \<leftarrow> Do k (FnReturn None None) pc (g_loader g);
          Some (GLoad pc', g\<lparr>g_loader := l\<rparr>) }"

fun group_Get :: "group_env \<Rightarrow> key \<Rightarrow> group_pc \<Rightarrow> Group \<Rightarrow> group_section_result" where
  "group_Get e k GStart g =
     Some (if g_closed g then GReturn (GError ErrGroupClosed)
           else if k = [] then GReturn (GError ErrKeyRequired)
           else GCache (CGet (ge_clk e) k) Load_closed, g)"
| "group_Get e k (GCache x (Return r)) g =
     (let s = g_stats g in
      case x of
        CGet t k' \<Rightarrow>
          (case r of
             RGet view ok \<Rightarrow>
               if ok then Some (GReturn (GView view), g\<lparr>g_stats := s\<lparr>gs_localHits := gs_localHits s + 1\<rparr>\<rparr>)
               else Some (GLoad SfLoad, g\<lparr>g_stats := s\<lparr>gs_localMisses := gs_localMisses s + 1\<rparr>\<rparr>)
           | _ \<Rightarrow> None)
      | CAdd t k' view \<Rightarrow> Some (GReturn (GView view), g)
      | CAddExp t n k' view d \<Rightarrow> Some (GReturn (GView view), g)
      | _ \<Rightarrow> None)"
| "group_Get e k (GCache x pc) g = in_cache x pc g"
| "group_Get e k (GLoad pc) g = group_load e k pc g"
| "group_Get e k pc g = None"

definition started :: "bool \<Rightarrow> Group \<Rightarrow> sync \<Rightarrow> sync option" where
  "started from_peer g y = (if \<not> from_peer \<and> g_peers g then Some y else None)"

fun group_Set :: "group_env \<Rightarrow> key \<Rightarrow> bytes \<Rightarrow> bool \<Rightarrow> group_pc \<Rightarrow> Group \<Rightarrow> group_section_result" where
  "group_Set e k value from_peer GStart g =
     Some (if g_closed g then GReturn (GError ErrGroupClosed)
           else if k = [] then GReturn (GError ErrKeyRequired)
           else if value = [] then GReturn (GError ErrValueRequired)
           else GCache (cache_write e g k (ByteView value)) Load_closed, g)"
| "group_Set e k value from_peer (GCache x (Return r)) g =
     Some (GReturn (GDone (started from_peer g (SyncSet k value))), g)"
| "group_Set e k value from_peer (GCache x pc) g = in_cache x pc g"
| "group_Set e k value from_peer pc g = None"

fun group_Delete :: "key \<Rightarrow> bool \<Rightarrow> group_pc \<Rightarrow> Group \<Rightarrow> group_section_result" where
  "group_Delete k from_peer GStart g =
     Some (if g_closed g then GReturn (GError ErrGroupClosed)
           else if k = [] then GReturn (GError ErrKeyRequired)
           else GCache (CDelete k) Load_closed, g)"
| "group_Delete k from_peer (GCache x (Return r)) g =
     Some (GReturn (GDone (started from_peer g (SyncDelete k))), g)"
| "group_Delete k from_peer (GCache x pc) g = in_cache x pc g"
| "group_Delete k from_peer pc g = None"

fun group_Clear :: "group_pc \<Rightarrow> Group \<Rightarrow> group_section_result" where
  "group_Clear GStart g = Some (if g_closed g then GReturn (GDone None) else GCache CClear Load_closed, g)"
| "group_Clear (GCache x (Return r)) g = Some (GReturn (GDone None), g)"
| "group_Clear (GCache x pc) g = in_cache x pc g"
| "group_Clear pc g = None"

text \<open>\<open>close\<close>: the first section is the compare-and-swap.\<close>

fun group_close :: "group_pc \<Rightarrow> Group \<Rightarrow> group_section_result" where
  "group_close GStart g =
     (if g_closed g then Some (GReturn (GDone None), g)
      else Some (GCache CClear Load_closed, g\<lparr>g_closed := True\<rparr>))"
| "group_close (GCache x (Return r)) g =
     Some (case x of CClear \<Rightarrow> GCache CClose Load_closed | _ \<Rightarrow> GReturn (GDone None), g)"
| "group_close (GCache x pc) g = in_cache x pc g"
| "group_close pc g = None"

text \<open>
  A section of a call.  \<open>None\<close> is a call that cannot go on there: it waits for a load
  (\<open>group_waits\<close>), or its section in the cache or in the store panics.  A property that excludes
  panics therefore shows that a call which neither has ended nor waits has its next section, and
  not only that it is not at \<open>GPanic\<close>, where a panic of the data source or of a peer ends.
\<close>

fun group_section :: "group_env \<Rightarrow> group_call \<Rightarrow> group_pc \<Rightarrow> Group \<Rightarrow> group_section_result" where
  "group_section e (GGet k) pc g = group_Get e k pc g"
| "group_section e (GSet k v p) pc g = group_Set e k v p pc g"
| "group_section e (GDelete k p) pc g = group_Delete k p pc g"
| "group_section e GClear pc g = group_Clear pc g"
| "group_section e GClose pc g = group_close pc g"

subsection \<open>\<open>syncToPeers\<close>\<close>

text \<open>The request the goroutine sends; its context always carries the mark.\<close>

datatype peer_request = PeerSet nat string key bytes | PeerDelete nat string key

fun sync_request :: "nat \<Rightarrow> string \<Rightarrow> sync \<Rightarrow> peer_request" where
  "sync_request p name (SyncSet k v) = PeerSet p name k v"
| "sync_request p name (SyncDelete k) = PeerDelete p name k"

fun sync_key :: "sync \<Rightarrow> key" where
  "sync_key (SyncSet k v) = k"
| "sync_key (SyncDelete k) = k"

text \<open>\<open>None\<close> is a call on a nil peer.\<close>

definition syncToPeers :: "load_env \<Rightarrow> Group \<Rightarrow> sync \<Rightarrow> peer_request list option" where
  "syncToPeers e g y =
     (if \<not> g_peers g then Some []
      else
        (let (peer, found, isSelf) = le_pick e (sync_key y) in
         if \<not> found \<or> isSelf then Some []
         else map_option (\<lambda>p. [sync_request p (g_name g) y]) peer))"

subsection \<open>A call that runs alone\<close>

fun group_run :: "nat \<Rightarrow> group_env \<Rightarrow> group_call \<Rightarrow> group_pc \<Rightarrow> Group \<Rightarrow> (group_result \<times> Group) option" where
  "group_run 0 e x pc g = None"
| "group_run (Suc n) e x pc g =
     (case pc of
        GReturn r \<Rightarrow> Some (r, g)
      | _ \<Rightarrow> do { (pc', g') \<leftarrow> group_section e x pc g; group_run n e x pc' g' })"

definition group_fuel :: nat where "group_fuel = 40"

definition group_do :: "group_env \<Rightarrow> group_call \<Rightarrow> Group \<Rightarrow> (group_result \<times> Group) option" where
  "group_do e x g = group_run group_fuel e x GStart g"

text \<open>\<open>Stats\<close>; a rate is the quotient of its two components.\<close>

record GroupStats =
  st_name :: string
  st_closed :: bool
  st_expiration :: int
  st_loads :: int
  st_local_hits :: int
  st_local_misses :: int
  st_peer_hits :: int
  st_peer_misses :: int
  st_loader_hits :: int
  st_loader_errors :: int
  st_hit_rate :: "(int \<times> int) option"
  st_avg_load_time_ms :: "(int \<times> int) option"
  st_cache :: CacheStats

definition group_Stats :: "Group \<Rightarrow> GroupStats option" where
  "group_Stats g =
     (let s = g_stats g; totalGets = gs_localHits s + gs_localMisses s in
      map_option (\<lambda>cache. \<lparr>st_name = g_name g, st_closed = g_closed g, st_expiration = g_expiration g,
          st_loads = gs_loads s, st_local_hits = gs_localHits s, st_local_misses = gs_localMisses s,
          st_peer_hits = gs_peerHits s, st_peer_misses = gs_peerMisses s,
          st_loader_hits = gs_loaderHits s, st_loader_errors = gs_loaderErrors s,
          st_hit_rate = (if totalGets > 0 then Some (gs_localHits s, totalGets) else None),
          st_avg_load_time_ms = (if gs_loads s > 0 then Some (gs_loadDuration s, gs_loads s * 1000000) else None),
          st_cache = cache\<rparr>)
        (Cache_Stats (g_mainCache g)))"

end
