(* ===== verification/Cache_Group_Correct.thy ===== *)
theory Cache_Group_Correct
  imports Cache_Group
begin

text \<open>
  \<open>group.go\<close>: the concurrent executions of the calls of one group.  An execution of the group
  projects to an execution of its \<open>Cache\<close> and to one of its \<open>singleflight.Group\<close>, whose
  invariants then hold of the parts; the invariant of the group adds where each value is from.
\<close>

subsection \<open>Executions\<close>

type_synonym group_threads = "nat \<Rightarrow> (group_call \<times> group_pc) option"

fun group_finished :: "group_pc \<Rightarrow> bool" where
  "group_finished (GReturn r) = True"
| "group_finished (GPanic r) = True"
| "group_finished _ = False"

text \<open>
  Threads start a call, run one section in some environment, or end; the store's cleanup may
  come at any moment.  \<open>calls\<close> and \<open>envs\<close> restrict the calls and the environments.
\<close>

inductive group_step :: "(group_call \<Rightarrow> bool) \<Rightarrow> (group_env \<Rightarrow> bool) \<Rightarrow> Group \<times> group_threads \<Rightarrow> Group \<times> group_threads \<Rightarrow> bool"
  for calls envs where
  group_begin: "ts i = None \<Longrightarrow> calls x \<Longrightarrow> group_step calls envs (g, ts) (g, ts(i \<mapsto> (x, GStart)))"
| group_one: "ts i = Some (x, pc) \<Longrightarrow> envs e \<Longrightarrow> group_section e x pc g = Some (pc', g')
    \<Longrightarrow> group_step calls envs (g, ts) (g', ts(i \<mapsto> (x, pc')))"
| group_end: "ts i = Some (x, pc) \<Longrightarrow> group_finished pc \<Longrightarrow> group_step calls envs (g, ts) (g, ts(i := None))"
| group_cleanup: "c_store (g_mainCache g) = Some st \<Longrightarrow> store_step (OpTick now) st = Some (out, st')
    \<Longrightarrow> group_step calls envs (g, ts) (g\<lparr>g_mainCache := (g_mainCache g)\<lparr>c_store := Some st'\<rparr>\<rparr>, ts)"

inductive_cases group_stepE: "group_step calls envs (g, ts) q"

subsection \<open>The parts\<close>

fun cache_thread :: "(group_call \<times> group_pc) option \<Rightarrow> (call \<times> pc) option" where
  "cache_thread (Some (x, GCache y pc)) = Some (y, pc)"
| "cache_thread _ = None"

fun sf_thread :: "(group_call \<times> group_pc) option \<Rightarrow> (key \<times> sf_pc) option" where
  "sf_thread (Some (GGet k, GLoad pc)) = Some (k, pc)"
| "sf_thread _ = None"

definition cache_part :: "Group \<times> group_threads \<Rightarrow> Cache \<times> threads" where
  "cache_part q = (g_mainCache (fst q), cache_thread \<circ> snd q)"

definition sf_part :: "Group \<times> group_threads \<Rightarrow> sf_group \<times> sf_threads" where
  "sf_part q = (g_loader (fst q), sf_thread \<circ> snd q)"

lemma part_update:
  "cache_thread \<circ> ts(i := t) = (cache_thread \<circ> ts)(i := cache_thread t)"
  "sf_thread \<circ> ts(i := t) = (sf_thread \<circ> ts)(i := sf_thread t)"
  by (simp_all add: fun_eq_iff)

lemma parts: "cache_part (g, ts) = (g_mainCache g, cache_thread \<circ> ts)" "sf_part (g, ts) = (g_loader g, sf_thread \<circ> ts)"
  by (simp_all add: cache_part_def sf_part_def)

lemma cache_thread_eq: "cache_thread t = Some (y, pc) \<longleftrightarrow> (\<exists>x. t = Some (x, GCache y pc))"
  by (cases t rule: cache_thread.cases) auto

lemma sf_thread_eq: "sf_thread t = Some (k, pc) \<longleftrightarrow> t = Some (GGet k, GLoad pc)"
  by (cases t rule: sf_thread.cases) auto

lemma cache_thread_none: "\<forall>y cpc. pc \<noteq> GCache y cpc \<Longrightarrow> cache_thread (Some (x, pc)) = None"
  by (cases pc) auto

lemma sf_thread_none: "\<forall>spc. pc \<noteq> GLoad spc \<Longrightarrow> sf_thread (Some (x, pc)) = None"
  by (cases pc; cases x) auto

text \<open>A section of a load is a section of \<open>Do\<close>, or the one after it.\<close>

lemma group_load_sections:
  assumes "group_load e k spc g = Some (pc', g')"
  shows "g_mainCache g' = g_mainCache g \<and>
     ((\<exists>spc' fn. pc' = GLoad spc' \<and> Do k fn spc (g_loader g) = Some (spc', g_loader g')
        \<and> (\<forall>c. spc = SfRun c \<longrightarrow> fn = fst (loadData (g_peers g) (g_name g) (ge_load e) k (g_stats g))))
      \<or> (g_loader g' = g_loader g \<and>
          ((\<exists>v err. spc = SfReturn v (Some err) \<and> pc' = GReturn (GError (LoadError err)))
           \<or> (\<exists>v. spc = SfReturn (Some v) None \<and> pc' = GCache (cache_write e g k v) Load_closed)
           \<or> (spc = SfReturn None None \<and> pc' = GPanic ''interface conversion'')
           \<or> (\<exists>r. spc = SfPanic r \<and> pc' = GPanic r))))"
  using assms
  by (cases spc) (auto simp: Let_def case_prod_beta simp del: Do.simps split: Option.bind_splits option.splits)

text \<open>A section of the group is a section of a call on its cache, of a load, or its own.\<close>

lemma group_section_cache:
  assumes "\<nexists>r. cpc = Return r"
  shows "group_section e x (GCache y cpc) g = in_cache y cpc g"
  using assms by (cases x; cases cpc) auto

lemma group_section_load:
  "group_section e x (GLoad spc) g = (case x of GGet k \<Rightarrow> group_load e k spc g | _ \<Rightarrow> None)"
  by (cases x) auto

lemma group_section_own:
  assumes "group_section e x pc g = Some (pc', g')" and "pc = GStart \<or> (\<exists>y r. pc = GCache y (Return r))"
  shows "g_mainCache g' = g_mainCache g \<and> g_loader g' = g_loader g
    \<and> (\<forall>y cpc. pc' = GCache y cpc \<longrightarrow> cpc = Load_closed) \<and> (\<forall>spc. pc' = GLoad spc \<longrightarrow> spc = SfLoad)"
  using assms
  by (cases x) (auto simp: Let_def split: if_splits call.splits result.splits)

lemma group_section_end: "group_finished pc \<Longrightarrow> group_section e x pc g = None"
  by (cases pc; cases x) auto

lemma group_section_cases [consumes 1, case_names cache load own]:
  assumes "group_section e x pc g = Some (pc', g')"
  obtains y cpc cpc' c' where "pc = GCache y cpc" "\<nexists>r. cpc = Return r" "pc' = GCache y cpc'"
      "cache_section y cpc (g_mainCache g) = Some (cpc', c')" "g' = g\<lparr>g_mainCache := c'\<rparr>"
    | k spc where "x = GGet k" "pc = GLoad spc" "group_load e k spc g = Some (pc', g')"
    | "pc = GStart \<or> (\<exists>y r. pc = GCache y (Return r))"
proof (cases pc)
  case GStart
  then show thesis using that(3) by simp
next
  case (GCache y cpc)
  show thesis
  proof (cases "\<exists>r. cpc = Return r")
    case True
    then show thesis using that(3) GCache by blast
  next
    case False
    then show thesis using assms GCache that(1)
      by (auto simp: group_section_cache in_cache_def split: Option.bind_splits)
  qed
next
  case (GLoad spc)
  then show thesis using assms that(2) by (auto simp: group_section_load split: group_call.splits)
qed (use assms group_section_end in auto)

text \<open>Steps of the group are steps of its parts, or skips.\<close>

lemma cache_return_step:
  "ts i = None \<or> (\<exists>y r. ts i = Some (y, Return r)) \<Longrightarrow> cache_step\<^sup>*\<^sup>* (c, ts) (c, ts(i := None))"
  by (auto intro: call_return simp: fun_upd_idem)

lemma cache_enter:
  assumes "ts i = None \<or> (\<exists>y r. ts i = Some (y, Return r))" and "t = None \<or> (\<exists>y. t = Some (y, Load_closed))"
  shows "cache_step\<^sup>*\<^sup>* (c, ts) (c, ts(i := t))"
proof (cases t)
  case None
  then show ?thesis using cache_return_step [of ts i c] assms(1) by simp
next
  case (Some p)
  then obtain y where "t = Some (y, Load_closed)" using assms(2) by auto
  then have "cache_step (c, ts(i := None)) (c, ts(i := t))"
    using call_start [of "ts(i := None)" i c y] by simp
  moreover have "cache_step\<^sup>*\<^sup>* (c, ts) (c, ts(i := None))" using cache_return_step assms(1) by blast
  ultimately show ?thesis by (simp add: rtranclp.rtrancl_into_rtrancl)
qed

lemma sf_enter:
  assumes "ts i = None \<or> (\<exists>k pc. ts i = Some (k, pc) \<and> sf_finished pc)" and "t = None \<or> (\<exists>k. t = Some (k, SfLoad))"
  shows "sf_step\<^sup>*\<^sup>* (g, ts) (g, ts(i := t))"
proof -
  have 1: "sf_step\<^sup>*\<^sup>* (g, ts) (g, ts(i := None))"
    using assms(1) by (auto intro: sf_finish simp: fun_upd_idem)
  show ?thesis
  proof (cases t)
    case None
    then show ?thesis using 1 by simp
  next
    case (Some p)
    then obtain k where "t = Some (k, SfLoad)" using assms(2) by auto
    then have "sf_step (g, ts(i := None)) (g, ts(i := t))"
      using sf_start [of "ts(i := None)" i g k] by simp
    with 1 show ?thesis by (rule rtranclp.rtrancl_into_rtrancl)
  qed
qed

lemma section_parts:
  assumes sec: "group_section e x pc g = Some (pc', g')" and i: "ts i = Some (x, pc)"
  shows "cache_step\<^sup>*\<^sup>* (cache_part (g, ts)) (cache_part (g', ts(i \<mapsto> (x, pc'))))
    \<and> sf_step\<^sup>*\<^sup>* (sf_part (g, ts)) (sf_part (g', ts(i \<mapsto> (x, pc'))))"
  using sec
proof (cases rule: group_section_cases)
  case (cache y cpc cpc' c')
  have "cache_step (cache_part (g, ts)) (cache_part (g', ts(i \<mapsto> (x, pc'))))"
    unfolding parts part_update using cache i by (auto intro!: call_section)
  moreover have "sf_part (g', ts(i \<mapsto> (x, pc'))) = sf_part (g, ts)"
    unfolding parts part_update using cache i sf_thread_none [of "GCache y cpc" x] sf_thread_none [of "GCache y cpc'" x]
    by (simp add: fun_upd_idem)
  ultimately show ?thesis by auto
next
  case (load k spc)
  note l = group_load_sections [OF load(3)]
  have none: "(cache_thread \<circ> ts) i = None" and some: "(sf_thread \<circ> ts) i = Some (k, spc)"
    using load i by simp_all
  have "cache_thread (Some (x, pc')) = None \<or> (\<exists>y. cache_thread (Some (x, pc')) = Some (y, Load_closed))"
    using l by auto
  then have c: "cache_step\<^sup>*\<^sup>* (cache_part (g, ts)) (cache_part (g', ts(i \<mapsto> (x, pc'))))"
    unfolding parts part_update conjunct1 [OF l] using none by (intro cache_enter) auto
  have "sf_step\<^sup>*\<^sup>* (sf_part (g, ts)) (sf_part (g', ts(i \<mapsto> (x, pc'))))"
  proof (cases "\<exists>spc'. pc' = GLoad spc'")
    case True
    then obtain spc' fn where s: "pc' = GLoad spc'" "Do k fn spc (g_loader g) = Some (spc', g_loader g')"
      using l by auto
    have "sf_step (sf_part (g, ts)) (sf_part (g', ts(i \<mapsto> (x, pc'))))"
      unfolding parts part_update using sf_section [where ts = "sf_thread \<circ> ts" and i = i, OF some s(2)] s(1) load(1) by simp
    then show ?thesis by blast
  next
    case False
    with l have f: "g_loader g' = g_loader g" "sf_finished spc" by auto
    show ?thesis
      unfolding parts part_update f(1) using some f(2) False sf_thread_none [of pc' x]
      by (intro sf_enter) auto
  qed
  with c show ?thesis ..
next
  case own
  note o = group_section_own [OF sec own]
  have "(cache_thread \<circ> ts) i = None \<or> (\<exists>y r. (cache_thread \<circ> ts) i = Some (y, Return r))" "(sf_thread \<circ> ts) i = None"
    using own i sf_thread_none [of pc x] by auto
  moreover have "cache_thread (Some (x, pc')) = None \<or> (\<exists>y. cache_thread (Some (x, pc')) = Some (y, Load_closed))"
    using o by (cases pc') auto
  moreover have "sf_thread (Some (x, pc')) = None \<or> (\<exists>k. sf_thread (Some (x, pc')) = Some (k, SfLoad))"
    using o sf_thread_none [of pc' x] by (cases "sf_thread (Some (x, pc'))") (auto simp: sf_thread_eq)
  ultimately show ?thesis
    unfolding parts part_update using o by (simp add: cache_enter sf_enter)
qed

lemma group_step_parts:
  assumes "group_step calls envs q q'"
  shows "cache_step\<^sup>*\<^sup>* (cache_part q) (cache_part q') \<and> sf_step\<^sup>*\<^sup>* (sf_part q) (sf_part q')"
  using assms
proof cases
  case (group_begin ts i x g)
  then show ?thesis
    using sf_thread_none [of GStart x] by (simp add: parts part_update fun_upd_idem)
next
  case (group_one ts i x pc e g pc' g')
  then show ?thesis using section_parts by simp
next
  case (group_end ts i x pc g)
  then have "cache_thread (ts i) = None" "sf_thread (ts i) = None"
    using cache_thread_none [of pc x] sf_thread_none [of pc x] by (cases pc; simp)+
  with group_end show ?thesis by (simp add: parts part_update fun_upd_idem)
next
  case (group_cleanup g st now out st' ts)
  then have "cache_step (cache_part q) (cache_part q')"
    using store_cleanup [of "g_mainCache g" st now out st'] by (simp add: parts)
  moreover have "sf_part q' = sf_part q" using group_cleanup by (simp add: parts)
  ultimately show ?thesis by auto
qed

lemma group_reach_parts:
  assumes "(group_step calls envs)\<^sup>*\<^sup>* q q'"
  shows "cache_step\<^sup>*\<^sup>* (cache_part q) (cache_part q') \<and> sf_step\<^sup>*\<^sup>* (sf_part q) (sf_part q')"
  using assms
proof (induction rule: rtranclp_induct)
  case (step y z)
  then show ?case using group_step_parts [OF step.hyps(2)] by (meson rtranclp_trans)
qed simp

end
