(* ===== verification/Cache_Group_Values.thy ===== *)
theory Cache_Group_Values
  imports Cache_Group_Correct
begin

text \<open>
  \<open>group.go\<close>: where the values in a concurrent execution of a group come from.  For any
  relation \<open>P\<close> between keys and values that the values of the \<open>Set\<close> calls and the answers of
  the peers and of the data source respect, the cache, the loads in progress and every answer
  respect it.
\<close>

subsection \<open>Values in a cache\<close>

definition held_in :: "(key \<Rightarrow> byteview \<Rightarrow> bool) \<Rightarrow> Cache \<Rightarrow> bool" where
  "held_in P c \<longleftrightarrow> (\<forall>k v. v \<in> cache_held c k \<longrightarrow> P k v)"

definition writes_in :: "(key \<Rightarrow> byteview \<Rightarrow> bool) \<Rightarrow> call \<Rightarrow> bool" where
  "writes_in P y \<longleftrightarrow>
     (case y of CAdd t k v \<Rightarrow> P k v | CAddExp t n k v e \<Rightarrow> P k v | _ \<Rightarrow> True)"

lemma held_in_store:
  assumes "store_inv st" and "store_step y st = Some (out, st')"
    and "\<And>k v. BV v \<in> store_held st k \<Longrightarrow> P k v" and "\<And>t k v d. y = OpSet t k (Some (BV v)) d \<Longrightarrow> P k v"
    and "BV v \<in> store_held st' k"
  shows "P k v"
proof -
  have "BV v \<in> keeps y k (store_held st k)" using store.held_step [OF assms(1,2), of k] assms(5) by blast
  with assms(3,4) show ?thesis by (cases "(y, k, store_held st k)" rule: keeps.cases) (auto split: if_splits)
qed

lemma held_in_locked:
  assumes inv: "cache_inv c" and sec: "cache_section y Locked c = Some (pc', c')" and held: "held_in P c"
    and w: "writes_in P y"
  shows "held_in P c'"
proof (cases "c_closed c \<or> y = CClose")
  case True
  with sec held show ?thesis
    by (cases y) (auto simp: held_in_def cache_held_def split: option.splits Option.bind_splits)
next
  case False
  obtain r where "pc' = Return r" using locked_returns [OF sec] by blast
  then have "last_section y c = Some (r, c')" using sec by (simp add: last_section_def)
  from last_section_store [OF this] False obtain st out st' where
    st: "c_store c = Some st" "store_step (store_call y) st = Some (out, st')" "c_store c' = Some st'"
      "c_closed c' = c_closed c" by blast
  have "store_inv st" using inv st(1) by (simp add: cache_inv_def store_ok_def)
  moreover have "P k v" if "BV v \<in> store_held st k" for k v
    using held that st(1) False by (auto simp: held_in_def cache_held_def)
  moreover have "P k v" if "store_call y = OpSet t k (Some (BV v)) d" for t k v d
    using that w by (cases y) (auto simp: store_call_def writes_in_def)
  ultimately have "P k v" if "BV v \<in> store_held st' k" for k v
    using held_in_store [OF _ st(2) _ _ that] by blast
  then show ?thesis using st by (auto simp: held_in_def cache_held_def)
qed

lemma held_in_section:
  assumes inv: "cache_inv c" and sec: "cache_section y pc c = Some (pc', c')" and held: "held_in P c"
    and w: "writes_in P y"
  shows "held_in P c'"
proof (cases "pc = Locked")
  case True
  then show ?thesis using held_in_locked [OF inv] sec held w by simp
next
  case False
  have "store_options_ok (co_CacheType (c_opts c)) (store_options (c_opts c))" using inv by (simp add: cache_inv_def)
  note new = new_store(2) [OF this]
  from sec False have "c' = c\<lparr>c_misses := c_misses c + 1\<rparr> \<or> c' = c \<or> c' = c\<lparr>c_closed := True\<rparr>
      \<or> c' = c\<lparr>c_store := Some (NewStore (co_CacheType (c_opts c)) (store_options (c_opts c))), c_initialized := True\<rparr>"
    by (cases y; cases pc) (auto split: if_splits)
  with held new show ?thesis by (auto simp: held_in_def cache_held_def)
qed

lemma held_in_cleanup:
  assumes "cache_inv c" and "c_store c = Some st" and "store_step (OpTick now) st = Some (out, st')" and "held_in P c"
  shows "held_in P (c\<lparr>c_store := Some st'\<rparr>)"
proof (cases "c_closed c")
  case True
  then show ?thesis by (simp add: held_in_def cache_held_def)
next
  case False
  have "store_inv st" using assms(1,2) by (simp add: cache_inv_def store_ok_def)
  with held_in_store [OF this assms(3), of P] assms(2,4) False show ?thesis
    by (auto simp: held_in_def cache_held_def)
qed

text \<open>A read that hits answers with a value of its key; a call returns what belongs to it.\<close>

lemma read_held:
  assumes inv: "cache_inv c" and sec: "cache_section (CGet t k) pc c = Some (Return (RGet v True), c')"
    and pc: "\<nexists>r. pc = Return r"
  shows "v \<in> cache_held c k"
proof -
  have pc: "pc = Locked" using sec pc by (cases pc) (auto split: if_splits)
  with sec obtain st st' v' ok where st: "c_store c = Some st" "store_step (OpGet t k) st = Some (OVal v' ok, st')"
      "v' = Some (BV v)" "\<not> c_closed c"
    by (auto simp: Let_def dest!: on_storeD split: if_splits Option.bind_splits store_out.splits option.splits svalue.splits)
  have "store_inv st" using inv st(1) by (simp add: cache_inv_def store_ok_def)
  with store.get_held [of st t k "BV v" ok st'] st show ?thesis by (simp add: cache_held_def)
qed

lemma get_result_shape:
  assumes "cache_section (CGet t k) pc c = Some (Return r, c')" and "\<nexists>r. pc = Return r"
  shows "case r of RGet v b \<Rightarrow> True | _ \<Rightarrow> False"
  using assms by (cases pc) (auto simp: Let_def dest!: on_storeD
      split: if_splits Option.bind_splits store_out.splits option.splits svalue.splits)

subsection \<open>Values in flight\<close>

definition refs :: "key \<Rightarrow> nat \<Rightarrow> sf_group \<times> sf_threads \<Rightarrow> bool" where
  "refs k c q \<longleftrightarrow> mget (sf_map (fst q)) k = Some c
     \<or> (\<exists>i pc. snd q i = Some (k, pc) \<and> (owns pc = Some c \<or> waits pc = Some c))"

text \<open>A call that has run carries an error, or a value of its key.\<close>

definition settled :: "(key \<Rightarrow> byteview \<Rightarrow> bool) \<Rightarrow> key \<Rightarrow> sf_call \<Rightarrow> bool" where
  "settled P k x \<longleftrightarrow> sc_err x \<noteq> None \<or> (\<exists>v. sc_val x = Some v \<and> P k v)"

fun sf_at_ok :: "(key \<Rightarrow> byteview \<Rightarrow> bool) \<Rightarrow> key \<Rightarrow> sf_pc \<Rightarrow> sf_group \<Rightarrow> bool" where
  "sf_at_ok P k (SfDone c p) g = settled P k (sf_calls g c)"
| "sf_at_ok P k (SfDelete c p) g = settled P k (sf_calls g c)"
| "sf_at_ok P k (SfReturn v e) g = (e \<noteq> None \<or> (\<exists>w. v = Some w \<and> P k w))"
| "sf_at_ok P k _ g = True"

definition sf_keyed :: "(key \<Rightarrow> byteview \<Rightarrow> bool) \<Rightarrow> sf_group \<times> sf_threads \<Rightarrow> bool" where
  "sf_keyed P q \<longleftrightarrow>
     (\<forall>k k' c. refs k c q \<and> refs k' c q \<longrightarrow> k = k')
     \<and> (\<forall>k c. refs k c q \<and> sc_done (sf_calls (fst q) c) \<longrightarrow> settled P k (sf_calls (fst q) c))
     \<and> (\<forall>i k pc. snd q i = Some (k, pc) \<longrightarrow> sf_at_ok P k pc (fst q))"

definition fn_good :: "(key \<Rightarrow> byteview \<Rightarrow> bool) \<Rightarrow> key \<Rightarrow> fn_outcome \<Rightarrow> bool" where
  "fn_good P k fn \<longleftrightarrow> (case fn of FnReturn v e \<Rightarrow> e \<noteq> None \<or> (\<exists>w. v = Some w \<and> P k w) | FnPanic r \<Rightarrow> True)"

lemma refs_bound:
  assumes inv: "sf_inv (g, ts)" and "refs k c (g, ts)"
  shows "c < sf_next g"
proof -
  note d = sf_invD [OF inv]
  from assms(2) consider "mget (sf_map g) k = Some c"
    | i pc where "ts i = Some (k, pc)" "owns pc = Some c" | i pc where "ts i = Some (k, pc)" "waits pc = Some c"
    by (auto simp: refs_def)
  then show ?thesis
  proof cases
    case 1
    then show ?thesis using d(1) d(4) by blast
  qed (use d(4,6) in blast)+
qed

lemma sf_keyedD:
  assumes "sf_keyed P (g, ts)"
  shows "\<And>k k' c. refs k c (g, ts) \<Longrightarrow> refs k' c (g, ts) \<Longrightarrow> k = k'"
    "\<And>k c. refs k c (g, ts) \<Longrightarrow> sc_done (sf_calls g c) \<Longrightarrow> settled P k (sf_calls g c)"
    "\<And>i k pc. ts i = Some (k, pc) \<Longrightarrow> sf_at_ok P k pc g"
  using assms unfolding sf_keyed_def fst_conv snd_conv by blast+

lemma sf_keyedI:
  assumes "\<And>k k' c. refs k c (g, ts) \<Longrightarrow> refs k' c (g, ts) \<Longrightarrow> k = k'"
    "\<And>k c. refs k c (g, ts) \<Longrightarrow> sc_done (sf_calls g c) \<Longrightarrow> settled P k (sf_calls g c)"
    "\<And>i k pc. ts i = Some (k, pc) \<Longrightarrow> sf_at_ok P k pc g"
  shows "sf_keyed P (g, ts)"
  unfolding sf_keyed_def fst_conv snd_conv using assms by blast

lemma sf_at_ok_calls:
  "(\<And>c. owns pc = Some c \<Longrightarrow> sf_calls g' c = sf_calls g c) \<Longrightarrow> sf_at_ok P k pc g' = sf_at_ok P k pc g"
  by (cases pc) auto

text \<open>A step that refers to nothing new and leaves the calls as they are.\<close>

lemma sf_keyed_sub:
  assumes kd: "sf_keyed P (g, ts)" and sub: "\<And>k c. refs k c (g', ts') \<Longrightarrow> refs k c (g, ts)"
    and calls: "sf_calls g' = sf_calls g"
    and at: "\<And>j k pc. ts' j = Some (k, pc) \<Longrightarrow> ts j = Some (k, pc) \<or> sf_at_ok P k pc g"
  shows "sf_keyed P (g', ts')"
proof (rule sf_keyedI)
  note d = sf_keyedD [OF kd]
  show "refs k c (g', ts') \<Longrightarrow> refs k' c (g', ts') \<Longrightarrow> k = k'" for k k' c using sub d(1) by blast
  show "refs k c (g', ts') \<Longrightarrow> sc_done (sf_calls g' c) \<Longrightarrow> settled P k (sf_calls g' c)" for k c
    using sub d(2) calls by simp
  show "ts' j = Some (k, pc) \<Longrightarrow> sf_at_ok P k pc g'" for j k pc
    using at [of j k pc] d(3) [of j k pc] sf_at_ok_calls [of pc g' g P k] calls by auto
qed

text \<open>The owner of a call writes it.\<close>

lemma sf_keyed_owner:
  assumes inv: "sf_inv (g, ts)" and kd: "sf_keyed P (g, ts)" and i: "ts i = Some (k, pc)" "owns pc = Some c"
    and pc': "owns pc' = Some c" "sf_at_ok P k pc' g'"
    and g': "sf_map g' = sf_map g" "sf_calls g' = (sf_calls g)(c := x)" and x: "settled P k x"
  shows "sf_keyed P (g', ts(i \<mapsto> (k, pc')))"
proof (rule sf_keyedI)
  note d = sf_keyedD [OF kd] and e = sf_invD [OF inv]
  have refs: "refs l b (g', ts(i \<mapsto> (k, pc'))) \<Longrightarrow> refs l b (g, ts)" for l b
    using i pc'(1) g'(1) by (cases pc') (auto simp: refs_def split: if_splits)
  have own: "refs k c (g, ts)" using i by (auto simp: refs_def)
  show "refs l b (g', ts(i \<mapsto> (k, pc'))) \<Longrightarrow> refs l' b (g', ts(i \<mapsto> (k, pc'))) \<Longrightarrow> l = l'" for l l' b
    using refs d(1) by blast
  show "settled P l (sf_calls g' b)" if "refs l b (g', ts(i \<mapsto> (k, pc')))" "sc_done (sf_calls g' b)" for l b
    using refs [OF that(1)] d(1) [OF own, of l] d(2) [of l b] that(2) g'(2) x by (cases "b = c") auto
  show "sf_at_ok P l p g'" if "(ts(i \<mapsto> (k, pc'))) j = Some (l, p)" for j l p
  proof (cases "j = i")
    case True
    then show ?thesis using that pc'(2) by simp
  next
    case False
    then have j: "ts j = Some (l, p)" using that by simp
    have "owns p \<noteq> Some c" using e(3) [OF i j] False by blast
    then have "sf_at_ok P l p g' = sf_at_ok P l p g" using g'(2) by (intro sf_at_ok_calls) auto
    then show ?thesis using d(3) [OF j] by simp
  qed
qed

lemma sf_keyed_store:
  assumes inv: "sf_inv (g, ts)" and kd: "sf_keyed P (g, ts)" and i: "ts i = Some (k, SfStore)"
    and sec: "Do k fn SfStore g = Some (pc', g')"
  shows "sf_keyed P (g', ts(i \<mapsto> (k, pc')))"
proof (rule sf_keyedI)
  note d = sf_keyedD [OF kd] and e = sf_invD [OF inv]
  let ?c = "sf_next g" and ?ts = "ts(i \<mapsto> (k, pc'))"
  have g': "pc' = SfRun ?c" "sf_map g' = mput k ?c (sf_map g)"
      "sf_calls g' = (sf_calls g)(?c := \<lparr>sc_done = False, sc_val = None, sc_err = None\<rparr>)"
    using sec by (simp_all add: Let_def) auto
  have old: "refs l b (g, ts) \<Longrightarrow> b \<noteq> ?c" for l b using refs_bound [OF inv] by blast
  have refs: "refs l b (g', ?ts) \<Longrightarrow> l = k \<and> b = ?c \<or> refs l b (g, ts)" for l b
    using g'(1,2) by (auto simp: refs_def split: if_splits)
  show "refs l b (g', ?ts) \<Longrightarrow> refs l' b (g', ?ts) \<Longrightarrow> l = l'" for l l' b
    using refs [of l b] refs [of l' b] d(1) old by blast
  show "settled P l (sf_calls g' b)" if "refs l b (g', ?ts)" "sc_done (sf_calls g' b)" for l b
    using refs [OF that(1)] old [of l b] d(2) [of l b] that(2) g'(3) by auto
  show "sf_at_ok P l p g'" if "?ts j = Some (l, p)" for j l p
  proof (cases "j = i")
    case True
    then have "p = SfRun ?c" using that g'(1) by simp
    then show ?thesis by simp
  next
    case False
    then have j: "ts j = Some (l, p)" using that by simp
    have "owns p \<noteq> Some ?c" using e(4) [OF j] by blast
    then have "sf_at_ok P l p g' = sf_at_ok P l p g" using g'(3) by (intro sf_at_ok_calls) auto
    then show ?thesis using d(3) [OF j] by simp
  qed
qed

lemma sf_keyed_section:
  assumes inv: "sf_inv (g, ts)" and kd: "sf_keyed P (g, ts)" and i: "ts i = Some (k, pc)"
    and sec: "Do k fn pc g = Some (pc', g')" and good: "\<And>c. pc = SfRun c \<Longrightarrow> fn_good P k fn"
  shows "sf_keyed P (g', ts(i \<mapsto> (k, pc')))"
proof (cases pc)
  note d = sf_keyedD [OF kd]
  {
    case SfLoad
    have "refs k c (g, ts)" if "mget (sf_map g) k = Some c" for c using that by (auto simp: refs_def)
    then show ?thesis using sec SfLoad
      by (intro sf_keyed_sub [OF kd]) (auto simp: refs_def split: option.splits if_splits)
  next
    case SfStore
    then show ?thesis using sf_keyed_store [OF inv kd] i sec by simp
  next
    case (SfRun c)
    have "settled P k ((sf_calls g' c))" using sec SfRun good by (auto simp: fn_good_def settled_def split: fn_outcome.splits)
    then show ?thesis using sec SfRun
      by (intro sf_keyed_owner [OF inv kd i, of c]) (auto split: fn_outcome.splits)
  next
    case (SfDone c p)
    have "settled P k (sf_calls g' c)" using d(3) [OF i] sec SfDone by (auto simp: settled_def)
    then show ?thesis using sec SfDone by (intro sf_keyed_owner [OF inv kd i, of c]) auto
  next
    case (SfDelete c p)
    have "settled P k (sf_calls g c)" using d(3) [OF i] SfDelete by simp
    then show ?thesis using sec SfDelete
      by (intro sf_keyed_sub [OF kd]) (auto simp: refs_def settled_def split: option.splits if_splits)
  next
    case (SfWait c)
    have "refs k c (g, ts)" unfolding refs_def snd_conv using i SfWait waits.simps(1) by blast
    from d(2) [OF this] show ?thesis using sec SfWait
      by (intro sf_keyed_sub [OF kd]) (auto simp: refs_def settled_def split: if_splits)
  }
qed (use sec in auto)

end
