(* ===== verification/Cache_Group_Inv.thy ===== *)
theory Cache_Group_Inv
  imports Cache_Group_Values
begin

text \<open>
  \<open>group.go\<close>: the invariant of the concurrent executions of a group, that every step keeps
  it, and that a call that has not ended can go on unless it waits for another one's load.
\<close>

subsection \<open>Calls and environments that respect a relation\<close>

definition call_in :: "(key \<Rightarrow> byteview \<Rightarrow> bool) \<Rightarrow> group_call \<Rightarrow> bool" where
  "call_in P x = (case x of GSet k v p \<Rightarrow> P k (ByteView v) | _ \<Rightarrow> True)"

definition answers_in :: "(key \<Rightarrow> byteview \<Rightarrow> bool) \<Rightarrow> group_env \<Rightarrow> bool" where
  "answers_in P e \<longleftrightarrow>
     (\<forall>p n k b. le_peer (ge_load e) p n k = Inr b \<longrightarrow> P k (ByteView b))
     \<and> (\<forall>k b. le_getter (ge_load e) k = GetterReturn b None \<longrightarrow> P k (ByteView b))"

text \<open>The data source does not panic, and a peer that is said to be found is there.\<close>

definition env_quiet :: "group_env \<Rightarrow> bool" where
  "env_quiet e \<longleftrightarrow>
     (\<forall>k r. le_getter (ge_load e) k \<noteq> GetterPanic r)
     \<and> (\<forall>k b. le_pick (ge_load e) k \<noteq> (None, True, b))"

lemma from_getter_good:
  "answers_in P e \<Longrightarrow> fn_good P k (fst (from_getter (ge_load e) k s))"
  "env_quiet e \<Longrightarrow> fst (from_getter (ge_load e) k s) \<noteq> FnPanic r"
  by (auto simp: from_getter_def fn_good_def answers_in_def env_quiet_def split: getter_outcome.splits option.splits)

lemma loadData_good:
  assumes "answers_in P e"
  shows "fn_good P k (fst (loadData peers name (ge_load e) k s))"
  using assms from_getter_good(1) [OF assms]
  by (auto simp: loadData_def getFromPeer_def fn_good_def [of P k "FnReturn _ _"] fn_good_def [of P k "FnPanic _"]
      answers_in_def split: sum.splits option.splits prod.splits)

lemma loadData_quiet:
  assumes "env_quiet e"
  shows "fst (loadData peers name (ge_load e) k s) \<noteq> FnPanic r"
  using assms from_getter_good(2) [OF assms]
  by (auto simp: loadData_def getFromPeer_def env_quiet_def split: sum.splits option.splits prod.splits if_splits)

subsection \<open>Invariant\<close>

fun sf_quiet :: "sf_pc \<Rightarrow> bool" where
  "sf_quiet (SfDone c (Some r)) = False"
| "sf_quiet (SfDelete c (Some r)) = False"
| "sf_quiet (SfPanic r) = False"
| "sf_quiet _ = True"

text \<open>Where a call can be, and the value it carries there; \<open>q\<close> says whether panics may occur.\<close>

fun group_at_ok :: "(key \<Rightarrow> byteview \<Rightarrow> bool) \<Rightarrow> bool \<Rightarrow> group_call \<Rightarrow> group_pc \<Rightarrow> bool" where
  "group_at_ok P q (GGet k) pc =
     (case pc of
        GStart \<Rightarrow> True
      | GCache y cpc \<Rightarrow>
          (case y of
             CGet t k' \<Rightarrow> k' = k \<and> (case cpc of Return r \<Rightarrow> (case r of RGet v b \<Rightarrow> b \<longrightarrow> P k v | _ \<Rightarrow> False) | _ \<Rightarrow> True)
           | CAdd t k' v \<Rightarrow> k' = k \<and> P k v
           | CAddExp t n k' v d \<Rightarrow> k' = k \<and> P k v
           | _ \<Rightarrow> False)
      | GLoad spc \<Rightarrow> q \<or> sf_quiet spc
      | GReturn r \<Rightarrow> (case r of GView v \<Rightarrow> P k v | GError _ \<Rightarrow> True | GDone _ \<Rightarrow> False)
      | GPanic _ \<Rightarrow> q)"
| "group_at_ok P q (GSet k v p) pc =
     (P k (ByteView v) \<and>
      (case pc of
         GStart \<Rightarrow> True
       | GCache y cpc \<Rightarrow> (\<exists>t n d. y = CAdd t k (ByteView v) \<or> y = CAddExp t n k (ByteView v) d)
       | GReturn r \<Rightarrow> (case r of GView _ \<Rightarrow> False | _ \<Rightarrow> True)
       | _ \<Rightarrow> False))"
| "group_at_ok P q (GDelete k p) pc =
     (case pc of GStart \<Rightarrow> True | GCache y cpc \<Rightarrow> y = CDelete k
      | GReturn r \<Rightarrow> (case r of GView _ \<Rightarrow> False | _ \<Rightarrow> True) | _ \<Rightarrow> False)"
| "group_at_ok P q GClear pc =
     (case pc of GStart \<Rightarrow> True | GCache y cpc \<Rightarrow> y = CClear | GReturn r \<Rightarrow> r = GDone None | _ \<Rightarrow> False)"
| "group_at_ok P q GClose pc =
     (case pc of GStart \<Rightarrow> True | GCache y cpc \<Rightarrow> y = CClear \<or> y = CClose | GReturn r \<Rightarrow> r = GDone None | _ \<Rightarrow> False)"

definition group_ok :: "(key \<Rightarrow> byteview \<Rightarrow> bool) \<Rightarrow> bool \<Rightarrow> Group \<times> group_threads \<Rightarrow> bool" where
  "group_ok P q s \<longleftrightarrow>
     conf_ok (cache_part s) \<and> sf_inv (sf_part s) \<and> sf_keyed P (sf_part s) \<and> held_in P (g_mainCache (fst s))
     \<and> (\<forall>i x pc. snd s i = Some (x, pc) \<longrightarrow> group_at_ok P q x pc)"

lemma cache_write_cases:
  "\<exists>t n d. cache_write e g k v = CAdd t k v \<or> cache_write e g k v = CAddExp t n k v d"
  by (auto simp: cache_write_def)

lemma at_ok_writes: "group_at_ok P q x (GCache y cpc) \<Longrightarrow> writes_in P y"
  by (cases x) (auto simp: writes_in_def split: call.splits)

lemma Do_quiet:
  "Do k fn spc g = Some (spc', g') \<Longrightarrow> sf_quiet spc \<Longrightarrow> (\<And>c r. spc = SfRun c \<Longrightarrow> fn \<noteq> FnPanic r) \<Longrightarrow> sf_quiet spc'"
  by (cases spc rule: sf_quiet.cases) (auto simp: Let_def split: option.splits fn_outcome.splits if_splits)

subsection \<open>Preservation\<close>

lemma section_at_ok:
  assumes sec: "group_section e x pc g = Some (pc', g')" and at: "group_at_ok P q x pc"
    and inv: "cache_inv (g_mainCache g)" and held: "held_in P (g_mainCache g)"
    and sf: "\<And>k spc. x = GGet k \<Longrightarrow> pc = GLoad spc \<Longrightarrow> sf_at_ok P k spc (g_loader g)"
    and env: "answers_in P e" "\<not> q \<longrightarrow> env_quiet e"
  shows "group_at_ok P q x pc'"
  using sec
proof (cases rule: group_section_cases)
  case (cache y cpc cpc' c')
  show ?thesis
  proof (cases "\<exists>t k r. y = CGet t k \<and> cpc' = Return r")
    case True
    then obtain t k r where y: "y = CGet t k" "cpc' = Return r" by blast
    then have "x = GGet k" using at cache(1) by (cases x) auto
    moreover have "case r of RGet v b \<Rightarrow> True | _ \<Rightarrow> False"
      using get_result_shape cache(2,4) y by metis
    moreover have "P k v" if "r = RGet v True" for v
      using read_held [OF inv] cache(2,4) y that held by (metis held_in_def)
    ultimately show ?thesis using y cache(3) by (auto split: result.splits)
  next
    case False
    with at cache show ?thesis by (cases x) (auto split: call.splits pc.splits)
  qed
next
  case (load k spc)
  note l = group_load_sections [OF load(3)]
  have sf': "sf_at_ok P k spc (g_loader g)" using sf load by simp
  from l consider spc' fn where "pc' = GLoad spc'" "Do k fn spc (g_loader g) = Some (spc', g_loader g')"
      "\<And>c. spc = SfRun c \<Longrightarrow> fn = fst (loadData (g_peers g) (g_name g) (ge_load e) k (g_stats g))"
    | err where "pc' = GReturn (GError (LoadError err))"
    | v where "spc = SfReturn (Some v) None" "pc' = GCache (cache_write e g k v) Load_closed"
    | "spc = SfReturn None None" | r where "spc = SfPanic r" "pc' = GPanic r" by blast
  then show ?thesis
  proof cases
    case (1 spc' fn)
    have "q \<or> sf_quiet spc'"
      using at load(1,2) env(2) loadData_quiet Do_quiet [OF 1(2)] 1(3) by auto
    then show ?thesis using load(1) 1(1) by simp
  next
    case (3 v)
    then show ?thesis using sf' load(1) cache_write_cases [of e g k v] by auto
  qed (use at load sf' in auto)
next
  case own
  with sec at show ?thesis
    using cache_write_cases [of e g] by (cases x) (auto simp: Let_def split: if_splits call.splits result.splits)
qed

lemma section_group_ok:
  assumes ok: "group_ok P q (g, ts)" and i: "ts i = Some (x, pc)" and sec: "group_section e x pc g = Some (pc', g')"
    and env: "answers_in P e" "\<not> q \<longrightarrow> env_quiet e"
  shows "held_in P (g_mainCache g') \<and> sf_keyed P (sf_part (g', ts(i \<mapsto> (x, pc')))) \<and> group_at_ok P q x pc'"
proof -
  have inv: "cache_inv (g_mainCache g)" "held_in P (g_mainCache g)" "group_at_ok P q x pc"
      "sf_inv (g_loader g, sf_thread \<circ> ts)" "sf_keyed P (g_loader g, sf_thread \<circ> ts)"
    using ok i by (auto simp: group_ok_def conf_ok_def parts)
  have sf: "sf_at_ok P k spc (g_loader g)" if "x = GGet k" "pc = GLoad spc" for k spc
    using sf_keyedD(3) [OF inv(5), of i k spc] i that by simp
  have at: "group_at_ok P q x pc'" by (rule section_at_ok [OF sec inv(3,1,2) sf env])
  have free: "sf_keyed P (sf_part (g', ts(i \<mapsto> (x, pc'))))"
    if "g_loader g' = g_loader g" "\<forall>spc. pc' = GLoad spc \<longrightarrow> spc = SfLoad"
    unfolding parts part_update that(1)
  proof (rule sf_keyed_sub [OF inv(5)])
    let ?t = "(sf_thread \<circ> ts)(i := sf_thread (Some (x, pc')))"
    have new: "sf_thread (Some (x, pc')) = Some (k, spc) \<Longrightarrow> spc = SfLoad" for k spc
      using that(2) by (auto simp: sf_thread_eq)
    show "refs k c (g_loader g, ?t) \<Longrightarrow> refs k c (g_loader g, sf_thread \<circ> ts)" for k c
      using new by (auto simp: refs_def split: if_splits)
    show "?t j = Some (k, spc) \<Longrightarrow> (sf_thread \<circ> ts) j = Some (k, spc) \<or> sf_at_ok P k spc (g_loader g)" for j k spc
      using new [of k spc] by (auto split: if_splits)
  qed simp
  show ?thesis
    using sec
  proof (cases rule: group_section_cases)
    case (cache y cpc cpc' c')
    have "held_in P c'" using held_in_section [OF inv(1) cache(4) inv(2)] at_ok_writes inv(3) cache(1) by blast
    then show ?thesis using cache at free by simp
  next
    case (load k spc)
    note l = group_load_sections [OF load(3)]
    show ?thesis
    proof (cases "\<exists>spc'. pc' = GLoad spc'")
      case True
      then obtain spc' fn where s: "pc' = GLoad spc'" "Do k fn spc (g_loader g) = Some (spc', g_loader g')"
          "\<And>c. spc = SfRun c \<Longrightarrow> fn = fst (loadData (g_peers g) (g_name g) (ge_load e) k (g_stats g))"
        using l by auto
      have "(sf_thread \<circ> ts) i = Some (k, spc)" using i load by simp
      from sf_keyed_section [OF inv(4,5) this s(2)] s(3) loadData_good [OF env(1)]
      have "sf_keyed P (g_loader g', (sf_thread \<circ> ts)(i \<mapsto> (k, spc')))" by blast
      then show ?thesis using s(1) load(1) at inv(2) l by (simp add: parts part_update)
    next
      case False
      then show ?thesis using l at inv(2) free by auto
    qed
  next
    case own
    note o = group_section_own [OF sec own]
    then show ?thesis using at inv(2) free by simp
  qed
qed

lemma group_ok_step:
  assumes step: "group_step calls envs s s'" and ok: "group_ok P q s"
    and calls: "\<And>x. calls x \<Longrightarrow> call_in P x" and envs: "\<And>e. envs e \<Longrightarrow> answers_in P e \<and> (\<not> q \<longrightarrow> env_quiet e)"
  shows "group_ok P q s'"
proof -
  note p = group_step_parts [OF step]
  have parts_ok: "conf_ok (cache_part s')" "sf_inv (sf_part s')"
    using conf_ok_reach [OF conjunct1 [OF p]] sf_inv_reach [OF conjunct2 [OF p]] ok by (auto simp: group_ok_def)
  show ?thesis
    using step
  proof cases
    case (group_begin ts i x g)
    have same: "sf_part s' = sf_part s"
      using group_begin by (cases x) (simp_all add: parts part_update fun_upd_idem)
    have "group_at_ok P q x GStart" using calls [OF group_begin(4)] by (cases x) (auto simp: call_in_def)
    then show ?thesis using ok parts_ok same group_begin by (auto simp: group_ok_def)
  next
    case (group_one ts i x pc e g pc' g')
    from section_group_ok [where ts = ts and i = i, OF _ group_one(3,5)] ok envs [OF group_one(4)] group_one(1)
    have "held_in P (g_mainCache g')" "sf_keyed P (sf_part s')" "group_at_ok P q x pc'" using group_one(2) by auto
    then show ?thesis using ok parts_ok group_one by (auto simp: group_ok_def)
  next
    case (group_end ts i x pc g)
    then have "sf_thread (ts i) = None" by (cases pc; cases x) auto
    then have "sf_part s' = sf_part s" using group_end by (simp add: parts part_update fun_upd_idem)
    then show ?thesis using ok parts_ok group_end by (auto simp: group_ok_def split: if_splits)
  next
    case (group_cleanup g st now out st' ts)
    have "cache_inv (g_mainCache g)" using ok group_cleanup(1) by (simp add: group_ok_def conf_ok_def parts)
    from held_in_cleanup [OF this group_cleanup(3,4), of P] ok parts_ok group_cleanup show ?thesis
      by (auto simp: group_ok_def parts)
  qed
qed

lemma group_ok_reach:
  assumes "(group_step calls envs)\<^sup>*\<^sup>* s s'" and "group_ok P q s"
    and "\<And>x. calls x \<Longrightarrow> call_in P x" and "\<And>e. envs e \<Longrightarrow> answers_in P e \<and> (\<not> q \<longrightarrow> env_quiet e)"
  shows "group_ok P q s'"
  using assms(1,2)
proof (induction rule: rtranclp_induct)
  case (step y z)
  then show ?case using group_ok_step [OF step.hyps(2) _ assms(3,4)] by blast
qed

subsection \<open>Progress\<close>

text \<open>The call a thread waits for, if any.\<close>

fun group_waits :: "group_pc \<Rightarrow> Group \<Rightarrow> bool" where
  "group_waits (GLoad (SfWait c)) g = (\<not> sc_done (sf_calls (g_loader g) c))"
| "group_waits _ g = False"

lemma load_total:
  assumes "\<not> group_waits (GLoad spc) g"
  shows "\<exists>pc' g'. group_load e k spc g = Some (pc', g')"
proof (cases "sf_finished spc")
  case True
  then show ?thesis by (cases spc) (auto simp: Let_def split: option.splits)
next
  case False
  with assms show ?thesis
    by (cases spc) (auto simp: Let_def case_prod_beta split: option.splits fn_outcome.splits)
qed

lemma group_progress:
  assumes ok: "group_ok P q (g, ts)" and i: "ts i = Some (x, pc)" and go: "\<not> group_finished pc" "\<not> group_waits pc g"
  shows "\<exists>pc' g'. group_section e x pc g = Some (pc', g')"
proof -
  have at: "group_at_ok P q x pc" using ok i by (auto simp: group_ok_def)
  show ?thesis
  proof (cases pc)
    case GStart
    then show ?thesis by (cases x) auto
  next
    case (GCache y cpc)
    show ?thesis
    proof (cases "\<exists>r. cpc = Return r")
      case True
      then show ?thesis using at GCache by (cases x) (auto simp: Let_def split: call.splits result.splits)
    next
      case False
      have "cache_thread (ts i) = Some (y, cpc)" using i GCache by simp
      then have "cache_inv (g_mainCache g)" "thread_ok y cpc (g_mainCache g)"
        using ok by (auto simp: group_ok_def conf_ok_def parts)
      from cache_section_ok [OF this] False GCache show ?thesis
        by (auto simp: group_section_cache in_cache_def section_ok_def)
    qed
  next
    case (GLoad spc)
    then obtain k where "x = GGet k" using at by (cases x) auto
    then show ?thesis using load_total go(2) GLoad by simp
  qed (use go in auto)
qed

end
