(* ===== verification/Group_Registry.thy ===== *)
theory Group_Registry
  imports Cache_Group
begin

text \<open>
  \<open>group.go\<close>: the options and the construction of a group, and the global table of groups.
  The groups live at addresses; the table maps names to addresses.  Every operation below is
  one section under \<open>groupsMu\<close>, in which \<open>close\<close> runs to its end.  A Go map is iterated in the
  order of its list, which is arbitrary.
\<close>

subsection \<open>Construction\<close>

datatype group_option = WithExpiration int | WithPeers bool | WithCacheOptions CacheOptions

fun apply_option :: "group_option \<Rightarrow> Group \<Rightarrow> Group" where
  "apply_option (WithExpiration d) g = g\<lparr>g_expiration := d\<rparr>"
| "apply_option (WithPeers peers) g = g\<lparr>g_peers := peers\<rparr>"
| "apply_option (WithCacheOptions opts) g = g\<lparr>g_mainCache := NewCache opts\<rparr>"

definition make_group :: "string \<Rightarrow> int \<Rightarrow> group_option list \<Rightarrow> Group" where
  "make_group name cacheBytes opts =
     fold apply_option opts
       \<lparr>g_name = name, g_mainCache = NewCache (DefaultCacheOptions\<lparr>co_MaxBytes := cacheBytes\<rparr>),
        g_peers = False, g_loader = new_sf_group, g_expiration = 0, g_closed = False, g_stats = zero_stats\<rparr>"

subsection \<open>The table\<close>

record World =
  w_groups :: "(string, nat) gomap"
  w_heap :: "nat \<Rightarrow> Group"
  w_next :: nat

definition empty_world :: World where
  "empty_world = \<lparr>w_groups = [], w_heap = (\<lambda>_. make_group [] 0 []), w_next = 0\<rparr>"

text \<open>An environment for calls that do not consult it.\<close>

definition idle_env :: group_env where
  "idle_env = \<lparr>ge_clk = (0, 0), ge_now = 0, ge_until = 0, ge_elapsed = 0,
     ge_load = \<lparr>le_pick = (\<lambda>_. (None, False, False)), le_peer = (\<lambda>_ _ _. Inl []),
                le_getter = (\<lambda>_. GetterReturn [] (Some []))\<rparr>\<rparr>"

definition world_call :: "group_env \<Rightarrow> group_call \<Rightarrow> nat \<Rightarrow> World \<Rightarrow> (group_result \<times> World) option" where
  "world_call e x a w =
     do { (r, g) \<leftarrow> group_do e x (w_heap w a);
          Some (r, w\<lparr>w_heap := (w_heap w)(a := g)\<rparr>) }"

text \<open>The result of \<open>close\<close> is ignored by its callers.\<close>

definition close_at :: "nat \<Rightarrow> World \<Rightarrow> World option" where
  "close_at a w = map_option snd (world_call idle_env GClose a w)"

text \<open>\<open>getter\<close> says whether the data source is not \<open>nil\<close>; the result is the address of the new group.\<close>

definition NewGroup :: "bool \<Rightarrow> string \<Rightarrow> int \<Rightarrow> group_option list \<Rightarrow> World \<Rightarrow> (nat \<times> World) option" where
  "NewGroup getter name cacheBytes opts w =
     (if \<not> getter then None
      else
        let g = make_group name cacheBytes opts; a = w_next w;
            w = w\<lparr>w_heap := (w_heap w)(a := g), w_next := Suc a\<rparr>
        in do { w \<leftarrow> (case mget (w_groups w) name of Some old \<Rightarrow> close_at old w | None \<Rightarrow> Some w);
                Some (a, w\<lparr>w_groups := mput name a (w_groups w)\<rparr>) })"

definition GetGroup :: "string \<Rightarrow> World \<Rightarrow> nat option" where
  "GetGroup name w = mget (w_groups w) name"

definition ListGroups :: "World \<Rightarrow> string list" where
  "ListGroups w = mkeys (w_groups w)"

definition destroy :: "string \<Rightarrow> nat \<Rightarrow> World \<Rightarrow> World option" where
  "destroy name a w =
     do { w \<leftarrow> close_at a w; Some (w\<lparr>w_groups := mdel name (w_groups w)\<rparr>) }"

definition DestroyGroup :: "string \<Rightarrow> World \<Rightarrow> (bool \<times> World) option" where
  "DestroyGroup name w =
     (case mget (w_groups w) name of
        Some a \<Rightarrow> do { w \<leftarrow> destroy name a w; Some (True, w) }
      | None \<Rightarrow> Some (False, w))"

fun destroy_all :: "(string \<times> nat) list \<Rightarrow> World \<Rightarrow> World option" where
  "destroy_all [] w = Some w"
| "destroy_all ((name, a) # es) w = do { w \<leftarrow> destroy name a w; destroy_all es w }"

definition DestroyAllGroups :: "World \<Rightarrow> World option" where
  "DestroyAllGroups w = destroy_all (w_groups w) w"

end
