(* ===== verification/Cache_Group_Seq.thy ===== *)
theory Cache_Group_Seq
  imports Cache_Group_Inv Group_Registry
begin

text \<open>
  \<open>group.go\<close>: a call that runs alone.  The sections of a call on the cache amount to
  \<open>cache_call\<close>, those of a load with nobody else loading to one run of \<open>loadData\<close>, and so each
  operation of a group is a short function of those two.
\<close>

subsection \<open>Runs\<close>

lemma group_run_end [simp]: "group_run (Suc n) e x (GReturn r) g = Some (r, g)"
  by simp

lemma group_run_step:
  "\<nexists>r. pc = GReturn r \<Longrightarrow>
   group_run (Suc n) e x pc g = do { (pc', g') \<leftarrow> group_section e x pc g; group_run n e x pc' g' }"
  by (cases pc) auto

declare group_run.simps(2) [simp del]

lemma group_run_last:
  assumes "group_section e x pc g = Some (GReturn r, g1)"
  shows "group_run 2 e x pc g = Some (r, g1)"
proof -
  have "\<nexists>r. pc = GReturn r" using assms group_section_end [of pc e x g] by (cases pc) auto
  from group_run_step [OF this, of 1 e x g] assms show ?thesis
    by (simp add: group_run_end [of 0, simplified] numeral_2_eq_2)
qed

lemma group_run_first:
  assumes "group_section e x pc g = Some (pc', g1)" and "group_run n e x pc' g1 = Some z"
  shows "group_run (n + 1) e x pc g = Some z"
proof -
  have "\<nexists>r. pc = GReturn r" using assms(1) group_section_end [of pc e x g] by (cases pc) auto
  from group_run_step [OF this, of n e x g] assms show ?thesis by simp
qed

lemma group_run_mono: "group_run n e x pc g = Some z \<Longrightarrow> n \<le> m \<Longrightarrow> group_run m e x pc g = Some z"
proof (induction n arbitrary: pc g m)
  case (Suc n)
  then obtain m' where m: "m = Suc m'" "n \<le> m'" by (cases m) auto
  show ?case
  proof (cases "\<exists>r. pc = GReturn r")
    case True
    then show ?thesis using Suc.prems m by auto
  next
    case False
    then show ?thesis using Suc.prems Suc.IH [OF _ m(2)] m(1) by (auto simp: group_run_step split: Option.bind_splits)
  qed
qed simp

lemma group_run_cache:
  assumes "run_sections n y cpc (g_mainCache g) = Some (r, c')"
    and "group_run m e x (GCache y (Return r)) (g\<lparr>g_mainCache := c'\<rparr>) = Some z"
  shows "group_run (n + m) e x (GCache y cpc) g = Some z"
  using assms
proof (induction n arbitrary: cpc g)
  case (Suc n)
  show ?case
  proof (cases "\<exists>r. cpc = Return r")
    case True
    then have "cpc = Return r" "g\<lparr>g_mainCache := c'\<rparr> = g" using Suc.prems(1) by (auto simp: run_sections.simps)
    then show ?thesis using group_run_mono [of m e x _ _ z "Suc n + m"] Suc.prems(2) by simp
  next
    case False
    with Suc.prems(1) obtain cpc' c1 where 1: "cache_section y cpc (g_mainCache g) = Some (cpc', c1)"
        "run_sections n y cpc' c1 = Some (r, c')"
      by (cases cpc) (auto simp: run_sections.simps split: Option.bind_splits)
    from Suc.IH [of cpc' "g\<lparr>g_mainCache := c1\<rparr>"] 1 Suc.prems(2) False show ?thesis
      by (simp add: group_run_step group_section_cache in_cache_def)
  qed
qed (simp add: run_sections.simps)

lemma group_run_call:
  assumes "cache_call y (g_mainCache g) = Some (r, c')"
    and "group_run m e x (GCache y (Return r)) (g\<lparr>g_mainCache := c'\<rparr>) = Some z"
  shows "group_run (m + 8) e x (GCache y Load_closed) g = Some z"
  using group_run_cache [OF _ assms(2), of 8 Load_closed] assms(1) by (simp add: cache_call_def add.commute)

text \<open>The loader after a load that ran alone.\<close>

definition after_load :: "key \<Rightarrow> fn_outcome \<Rightarrow> sf_group \<Rightarrow> sf_group" where
  "after_load k fn l =
     l\<lparr>sf_next := Suc (sf_next l),
       sf_calls := (sf_calls l)(sf_next l := \<lparr>sc_done = True, sc_val = fst (fn_result fn), sc_err = snd (fn_result fn)\<rparr>),
       sf_map := mdel k (sf_map l)\<rparr>"

lemma group_run_load:
  assumes "mget (sf_map (g_loader g)) k = None"
    and "loadData (g_peers g) (g_name g) (ge_load e) k (g_stats g) = (FnReturn v err, s)"
    and "group_run m e (GGet k) (GLoad (SfReturn v err))
           (g\<lparr>g_stats := s, g_loader := after_load k (FnReturn v err) (g_loader g)\<rparr>) = Some z"
  shows "group_run (m + 5) e (GGet k) (GLoad SfLoad) g = Some z"
proof -
  have "m + 5 = Suc (Suc (Suc (Suc (Suc m))))" by simp
  show ?thesis
    unfolding \<open>m + 5 = _\<close> using assms by (simp add: group_run_step Let_def after_load_def)
qed

subsection \<open>A group between calls\<close>

definition group_idle :: "Group \<Rightarrow> bool" where
  "group_idle g \<longleftrightarrow> cache_inv (g_mainCache g) \<and> sf_map (g_loader g) = [] \<and> (g_closed g \<longrightarrow> c_closed (g_mainCache g))"

lemma cache_total:
  assumes "cache_inv c"
  obtains r c' where "cache_call y c = Some (r, c')" "cache_inv c'" "c_closed c \<Longrightarrow> c_closed c'"
  using cache_call_ok [OF assms, of y] by (auto simp: cache_mono_def)

lemma get_call_shape:
  assumes "cache_inv c" and "cache_call (CGet t k) c = Some (r, c')"
  shows "\<exists>v b. r = RGet v b"
proof (cases "c_closed c")
  case True
  then show ?thesis using assms call_closed [OF True, of "CGet t k"] by auto
next
  case False
  then show ?thesis using get_answer [OF assms(1) False assms(2)] by blast
qed

text \<open>Each call that is one call on the cache.\<close>

lemma group_do_run: "group_run n e x GStart g = Some z \<Longrightarrow> n \<le> 40 \<Longrightarrow> group_do e x g = Some z"
  unfolding group_do_def group_fuel_def by (rule group_run_mono)

lemma group_do_one:
  assumes start: "group_section e x GStart g = Some (GCache y Load_closed, g1)"
    and call: "cache_call y (g_mainCache g1) = Some (r, c)"
    and last: "group_section e x (GCache y (Return r)) (g1\<lparr>g_mainCache := c\<rparr>) = Some (GReturn res, g2)"
  shows "group_do e x g = Some (res, g2)"
proof -
  have "group_run 2 e x (GCache y (Return r)) (g1\<lparr>g_mainCache := c\<rparr>) = Some (res, g2)"
    using last by (rule group_run_last)
  from group_run_first [OF start group_run_call [OF call this]] show ?thesis by (rule group_do_run) simp
qed

lemma group_do_guard:
  "group_section e x GStart g = Some (GReturn r, g1) \<Longrightarrow> group_do e x g = Some (r, g1)"
  by (rule group_do_run [OF group_run_last]) simp_all

subsection \<open>\<open>Get\<close> as a function\<close>

definition record_load :: "group_env \<Rightarrow> bool \<Rightarrow> group_stats \<Rightarrow> group_stats" where
  "record_load e failed s =
     s\<lparr>gs_loadDuration := gs_loadDuration s + ge_elapsed e, gs_loads := gs_loads s + 1,
       gs_loaderErrors := gs_loaderErrors s + (if failed then 1 else 0)\<rparr>"

definition count_hit :: "bool \<Rightarrow> group_stats \<Rightarrow> group_stats" where
  "count_hit hit s =
     (if hit then s\<lparr>gs_localHits := gs_localHits s + 1\<rparr> else s\<lparr>gs_localMisses := gs_localMisses s + 1\<rparr>)"

text \<open>Read the cache; on a miss load, record the load, and store the value.\<close>

definition read_through :: "group_env \<Rightarrow> key \<Rightarrow> Group \<Rightarrow> (group_result \<times> Group) option" where
  "read_through e k g =
     (if g_closed g then Some (GError ErrGroupClosed, g)
      else if k = [] then Some (GError ErrKeyRequired, g)
      else
        (case cache_call (CGet (ge_clk e) k) (g_mainCache g) of
           Some (RGet view hit, c) \<Rightarrow>
             let s = count_hit hit (g_stats g) in
             if hit then Some (GView view, g\<lparr>g_mainCache := c, g_stats := s\<rparr>)
             else
               let (fn, s) = loadData (g_peers g) (g_name g) (ge_load e) k s;
                   g = g\<lparr>g_mainCache := c, g_stats := s, g_loader := after_load k fn (g_loader g)\<rparr>
               in (case snd (fn_result fn) of
                     Some err \<Rightarrow> Some (GError (LoadError err), g\<lparr>g_stats := record_load e True s\<rparr>)
                   | None \<Rightarrow>
                       (case fst (fn_result fn) of
                          Some v \<Rightarrow>
                            map_option (\<lambda>(_, c). (GView v, g\<lparr>g_stats := record_load e False s, g_mainCache := c\<rparr>))
                              (cache_call (cache_write e g k v) c)
                        | None \<Rightarrow> None))
         | _ \<Rightarrow> None))"

lemma loadData_shape:
  assumes "env_quiet e"
  obtains v s where "loadData peers name (ge_load e) k s0 = (FnReturn (Some v) None, s)"
    | v err s where "loadData peers name (ge_load e) k s0 = (FnReturn v (Some err), s)"
proof -
  obtain fn s where l: "loadData peers name (ge_load e) k s0 = (fn, s)" by fastforce
  have "answers_in (\<lambda>_ _. True) e" by (simp add: answers_in_def)
  from loadData_good [OF this, of k peers name s0] loadData_quiet [OF assms, of peers name k s0] l that show thesis
    by (cases fn) (auto simp: fn_good_def, metis not_None_eq)
qed

lemma cache_write_stats [simp]:
  "cache_write e (g\<lparr>g_stats := s\<rparr>) k v = cache_write e g k v"
  "cache_write e (g\<lparr>g_mainCache := c\<rparr>) k v = cache_write e g k v"
  "cache_write e (g\<lparr>g_loader := l\<rparr>) k v = cache_write e g k v"
  by (simp_all add: cache_write_def)

lemma load_error_run:
  "group_run 2 e (GGet k) (GLoad (SfReturn v (Some err))) g =
     Some (GError (LoadError err), g\<lparr>g_stats := record_load e True (g_stats g)\<rparr>)"
  by (simp add: numeral_2_eq_2 group_run_step Let_def record_load_def)

lemma load_value_run:
  assumes "cache_call (cache_write e g k v) (g_mainCache g) = Some (r, c)"
  shows "group_run 11 e (GGet k) (GLoad (SfReturn (Some v) None)) g =
     Some (GView v, g\<lparr>g_stats := record_load e False (g_stats g), g_mainCache := c\<rparr>)"
proof -
  let ?g = "g\<lparr>g_stats := record_load e False (g_stats g)\<rparr>" and ?y = "cache_write e g k v"
  have "group_run 2 e (GGet k) (GCache ?y (Return r)) (?g\<lparr>g_mainCache := c\<rparr>) = Some (GView v, ?g\<lparr>g_mainCache := c\<rparr>)"
    using cache_write_cases [of e g k v] by (auto simp: numeral_2_eq_2 group_run_step Let_def)
  from group_run_call [OF _ this] assms
  have "group_run 10 e (GGet k) (GCache ?y Load_closed) ?g = Some (GView v, ?g\<lparr>g_mainCache := c\<rparr>)" by simp
  then show ?thesis
    by (simp add: group_run_step [of _ 10, simplified] Let_def record_load_def)
qed

lemma group_do_get:
  assumes idle: "group_idle g" and quiet: "env_quiet e"
  shows "group_do e (GGet k) g = read_through e k g"
proof (cases "g_closed g \<or> k = []")
  case True
  then show ?thesis by (auto simp: read_through_def intro!: group_do_guard)
next
  case False
  have inv: "cache_inv (g_mainCache g)" using idle by (simp add: group_idle_def)
  obtain r c where c: "cache_call (CGet (ge_clk e) k) (g_mainCache g) = Some (r, c)" "cache_inv c"
    using cache_total [OF inv] by metis
  obtain view hit where r: "r = RGet view hit" using get_call_shape [OF inv c(1)] by blast
  have start: "group_section e (GGet k) GStart g = Some (GCache (CGet (ge_clk e) k) Load_closed, g)" using False by simp
  show ?thesis
  proof (cases hit)
    case True
    have "group_section e (GGet k) (GCache (CGet (ge_clk e) k) (Return r)) (g\<lparr>g_mainCache := c\<rparr>)
        = Some (GReturn (GView view), g\<lparr>g_mainCache := c, g_stats := count_hit True (g_stats g)\<rparr>)"
      using True r by (simp add: Let_def count_hit_def)
    from group_do_one [OF start c(1) this] True r c False show ?thesis by (simp add: read_through_def)
  next
    case miss: False
    let ?g = "g\<lparr>g_mainCache := c, g_stats := count_hit False (g_stats g)\<rparr>"
    have none: "mget (sf_map (g_loader ?g)) k = None" using idle by (simp add: group_idle_def)
    have go: "group_do e (GGet k) g = Some z"
      if "group_run m e (GGet k) (GLoad SfLoad) ?g = Some z" "m \<le> 30" for m z
    proof -
      have "group_run (Suc m) e (GGet k) (GCache (CGet (ge_clk e) k) (Return r)) (g\<lparr>g_mainCache := c\<rparr>) = Some z"
        using that(1) r miss by (simp add: group_run_step Let_def count_hit_def)
      from group_run_first [OF start group_run_call [OF c(1) this]] show ?thesis
        by (rule group_do_run) (use that(2) in simp)
    qed
    show ?thesis
    proof (cases rule: loadData_shape [OF quiet, of "g_peers g" "g_name g" k "g_stats ?g"])
      case (1 v s)
      let ?h = "?g\<lparr>g_stats := s, g_loader := after_load k (FnReturn (Some v) None) (g_loader g)\<rparr>"
      obtain r' c' where w: "cache_call (cache_write e ?h k v) c = Some (r', c')"
        using cache_total [OF c(2)] by metis
      have "group_run 11 e (GGet k) (GLoad (SfReturn (Some v) None)) ?h
          = Some (GView v, ?h\<lparr>g_stats := record_load e False s, g_mainCache := c'\<rparr>)"
        using load_value_run [of e ?h k v r' c'] w by simp
      from go [OF group_run_load [OF none]] this 1
      have "group_do e (GGet k) g = Some (GView v, ?h\<lparr>g_stats := record_load e False s, g_mainCache := c'\<rparr>)" by simp
      then show ?thesis using c r miss False 1 w by (simp add: read_through_def Let_def)
    next
      case (2 v err s)
      let ?h = "?g\<lparr>g_stats := s, g_loader := after_load k (FnReturn v (Some err)) (g_loader g)\<rparr>"
      from go [OF group_run_load [OF none _ load_error_run]] 2
      have "group_do e (GGet k) g = Some (GError (LoadError err), ?h\<lparr>g_stats := record_load e True s\<rparr>)" by simp
      then show ?thesis using c r miss False 2 by (simp add: read_through_def Let_def)
    qed
  qed
qed

subsection \<open>The other calls as functions\<close>

definition cache_then :: "call \<Rightarrow> group_result \<Rightarrow> Group \<Rightarrow> (group_result \<times> Group) option" where
  "cache_then y res g = map_option (\<lambda>(_, c). (res, g\<lparr>g_mainCache := c\<rparr>)) (cache_call y (g_mainCache g))"

lemma cache_then_run:
  assumes "cache_inv (g_mainCache g)" and "group_section e x GStart g = Some (GCache y Load_closed, g)"
    and "\<And>r c. group_section e x (GCache y (Return r)) (g\<lparr>g_mainCache := c\<rparr>) = Some (GReturn res, g\<lparr>g_mainCache := c\<rparr>)"
  shows "group_do e x g = cache_then y res g"
proof -
  obtain r c where c: "cache_call y (g_mainCache g) = Some (r, c)" using cache_total [OF assms(1)] by metis
  from group_do_one [OF assms(2) c assms(3)] c show ?thesis by (simp add: cache_then_def)
qed

lemma started_cache [simp]: "started p (g\<lparr>g_mainCache := c\<rparr>) y = started p g y"
  by (simp add: started_def)

lemma group_do_set:
  assumes "group_idle g"
  shows "group_do e (GSet k v p) g =
    (if g_closed g then Some (GError ErrGroupClosed, g)
     else if k = [] then Some (GError ErrKeyRequired, g)
     else if v = [] then Some (GError ErrValueRequired, g)
     else cache_then (cache_write e g k (ByteView v)) (GDone (started p g (SyncSet k v))) g)"
proof (cases "g_closed g \<or> k = [] \<or> v = []")
  case True
  then show ?thesis by (auto intro!: group_do_guard)
next
  case False
  then have "group_do e (GSet k v p) g = cache_then (cache_write e g k (ByteView v)) (GDone (started p g (SyncSet k v))) g"
    using assms by (intro cache_then_run) (auto simp: group_idle_def)
  with False show ?thesis by simp
qed

lemma group_do_delete:
  assumes "group_idle g"
  shows "group_do e (GDelete k p) g =
    (if g_closed g then Some (GError ErrGroupClosed, g)
     else if k = [] then Some (GError ErrKeyRequired, g)
     else cache_then (CDelete k) (GDone (started p g (SyncDelete k))) g)"
proof (cases "g_closed g \<or> k = []")
  case True
  then show ?thesis by (auto intro!: group_do_guard)
next
  case False
  then have "group_do e (GDelete k p) g = cache_then (CDelete k) (GDone (started p g (SyncDelete k))) g"
    using assms by (intro cache_then_run) (auto simp: group_idle_def)
  with False show ?thesis by simp
qed

lemma group_do_clear:
  assumes "group_idle g"
  shows "group_do e GClear g =
    (if g_closed g then Some (GDone None, g) else cache_then CClear (GDone None) g)"
proof (cases "g_closed g")
  case True
  then show ?thesis by (auto intro!: group_do_guard)
next
  case False
  then have "group_do e GClear g = cache_then CClear (GDone None) g"
    using assms by (intro cache_then_run) (auto simp: group_idle_def)
  with False show ?thesis by simp
qed

lemma cache_close_call:
  assumes "cache_inv c"
  shows "\<exists>r c'. cache_call CClose c = Some (r, c') \<and> c_closed c' \<and> cache_inv c'"
proof (cases "c_closed c")
  case True
  then show ?thesis using call_closed [OF True] assms by auto
next
  case False
  then show ?thesis using close_effect [OF assms False] assms by (simp add: cache_inv_def)
qed

lemma group_do_close:
  assumes idle: "group_idle g"
  shows "\<exists>c. group_do e GClose g = Some (GDone None, if g_closed g then g else g\<lparr>g_closed := True, g_mainCache := c\<rparr>)
     \<and> cache_inv c \<and> c_closed c"
proof (cases "g_closed g")
  case True
  then have "group_do e GClose g = Some (GDone None, g)" by (intro group_do_guard) simp
  with True idle show ?thesis by (auto simp: group_idle_def intro!: exI [of _ "g_mainCache g"])
next
  case False
  let ?g = "g\<lparr>g_closed := True\<rparr>"
  have inv: "cache_inv (g_mainCache ?g)" using idle by (simp add: group_idle_def)
  obtain r c where c: "cache_call CClear (g_mainCache ?g) = Some (r, c)" "cache_inv c" using cache_total [OF inv] by metis
  obtain r' c' where c': "cache_call CClose c = Some (r', c')" "c_closed c'" "cache_inv c'"
    using cache_close_call [OF c(2)] by blast
  have "group_run 2 e GClose (GCache CClose (Return r')) (?g\<lparr>g_mainCache := c'\<rparr>) = Some (GDone None, ?g\<lparr>g_mainCache := c'\<rparr>)"
    by (rule group_run_last) simp
  then have "group_run 10 e GClose (GCache CClose Load_closed) (?g\<lparr>g_mainCache := c\<rparr>) = Some (GDone None, ?g\<lparr>g_mainCache := c'\<rparr>)"
    using group_run_call [where g = "?g\<lparr>g_mainCache := c\<rparr>" and m = 2] c'(1) by simp
  from group_run_first [OF _ this] have "group_run 11 e GClose (GCache CClear (Return r)) (?g\<lparr>g_mainCache := c\<rparr>)
      = Some (GDone None, ?g\<lparr>g_mainCache := c'\<rparr>)" by simp
  from group_run_first [OF _ group_run_call [OF c(1) this], of GStart g] False
  have "group_do e GClose g = Some (GDone None, ?g\<lparr>g_mainCache := c'\<rparr>)"
    by (intro group_do_run [where n = "11 + 8 + 1"]) simp_all
  with False c' show ?thesis by auto
qed

subsection \<open>Every call that runs alone returns\<close>

text \<open>What a call leaves true: the bookkeeping, the name, and whether the group is open.\<close>

definition balanced :: "Group \<Rightarrow> bool" where
  "balanced g \<longleftrightarrow>
     gs_loads (g_stats g) = gs_peerHits (g_stats g) + gs_loaderHits (g_stats g) + gs_loaderErrors (g_stats g)
     \<and> gs_localMisses (g_stats g) = gs_loads (g_stats g)
     \<and> 0 \<le> gs_peerMisses (g_stats g) \<and> gs_peerMisses (g_stats g) \<le> gs_loaderHits (g_stats g) + gs_loaderErrors (g_stats g)"

lemma loadData_counts:
  assumes "loadData peers name e k s0 = (FnReturn v err, s)"
  shows "gs_loads s = gs_loads s0 \<and> gs_localMisses s = gs_localMisses s0 \<and> gs_loaderErrors s = gs_loaderErrors s0
    \<and> gs_peerHits s + gs_loaderHits s = gs_peerHits s0 + gs_loaderHits s0 + (if err = None then 1 else 0)
    \<and> (gs_peerMisses s = gs_peerMisses s0 \<and> gs_loaderHits s0 \<le> gs_loaderHits s
       \<or> gs_peerMisses s = gs_peerMisses s0 + 1 \<and> gs_loaderHits s = gs_loaderHits s0 + (if err = None then 1 else 0))"
  using assms
  by (auto simp: loadData_def from_getter_def getFromPeer_def Let_def
      split: if_splits prod.splits option.splits sum.splits getter_outcome.splits)

definition group_kept :: "Group \<Rightarrow> Group \<Rightarrow> bool" where
  "group_kept g g' \<longleftrightarrow> g_name g' = g_name g \<and> g_peers g' = g_peers g \<and> g_expiration g' = g_expiration g
     \<and> group_idle g' \<and> (balanced g \<longrightarrow> balanced g')"

lemma cache_then_kept:
  assumes "group_idle g"
  shows "\<exists>g'. cache_then y res g = Some (res, g') \<and> group_kept g g' \<and> g_closed g' = g_closed g"
proof -
  have "cache_inv (g_mainCache g)" using assms by (simp add: group_idle_def)
  from cache_total [OF this, of y] obtain r c where "cache_call y (g_mainCache g) = Some (r, c)" "cache_inv c"
      "c_closed (g_mainCache g) \<Longrightarrow> c_closed c" by metis
  then show ?thesis using assms by (auto simp: cache_then_def group_kept_def group_idle_def balanced_def)
qed

lemma read_through_kept:
  assumes idle: "group_idle g" and quiet: "env_quiet e"
  shows "\<exists>r g'. read_through e k g = Some (r, g') \<and> group_kept g g' \<and> g_closed g' = g_closed g"
proof (cases "g_closed g \<or> k = []")
  case True
  then show ?thesis using idle by (auto simp: read_through_def group_kept_def)
next
  case False
  have inv: "cache_inv (g_mainCache g)" using idle by (simp add: group_idle_def)
  obtain r c where c: "cache_call (CGet (ge_clk e) k) (g_mainCache g) = Some (r, c)" "cache_inv c"
    using cache_total [OF inv] by metis
  obtain view hit where r: "r = RGet view hit" using get_call_shape [OF inv c(1)] by blast
  let ?s = "count_hit hit (g_stats g)"
  show ?thesis
  proof (cases hit)
    case True
    with False c r idle show ?thesis
      by (auto simp: read_through_def group_kept_def group_idle_def balanced_def count_hit_def)
  next
    case miss: False
    show ?thesis
    proof (cases rule: loadData_shape [OF quiet, of "g_peers g" "g_name g" k ?s])
      case (1 v s)
      obtain r' c' where "cache_call (cache_write e g k v) c = Some (r', c')" "cache_inv c'"
        using cache_total [OF c(2)] by metis
      with loadData_counts [OF 1] 1 False miss c r idle show ?thesis
        by (auto simp: read_through_def Let_def group_kept_def group_idle_def balanced_def count_hit_def
            record_load_def after_load_def)
    next
      case (2 v err s)
      with loadData_counts [OF 2] False miss c r idle show ?thesis
        by (auto simp: read_through_def Let_def group_kept_def group_idle_def balanced_def count_hit_def
            record_load_def after_load_def)
    qed
  qed
qed

lemma group_do_ok:
  assumes "group_idle g" and "env_quiet e"
  shows "\<exists>r g'. group_do e x g = Some (r, g') \<and> group_kept g g' \<and> (g_closed g' \<longleftrightarrow> g_closed g \<or> x = GClose)"
proof (cases x)
  case (GGet k)
  then show ?thesis using read_through_kept [OF assms, of k] group_do_get [OF assms] by auto
next
  case GClose
  obtain c where "group_do e GClose g = Some (GDone None, if g_closed g then g else g\<lparr>g_closed := True, g_mainCache := c\<rparr>)"
      "cache_inv c" "c_closed c" using group_do_close [OF assms(1)] by blast
  with GClose assms(1) show ?thesis by (auto simp: group_kept_def group_idle_def balanced_def)
next
  case (GSet k v p)
  then show ?thesis
    using cache_then_kept [OF assms(1), of "cache_write e g k (ByteView v)" "GDone (started p g (SyncSet k v))"] assms(1)
    by (auto simp: group_do_set group_kept_def)
next
  case (GDelete k p)
  then show ?thesis
    using cache_then_kept [OF assms(1), of "CDelete k" "GDone (started p g (SyncDelete k))"] assms(1)
    by (auto simp: group_do_delete group_kept_def)
next
  case GClear
  then show ?thesis
    using cache_then_kept [OF assms(1), of CClear "GDone None"] assms(1) by (auto simp: group_do_clear group_kept_def)
qed

subsection \<open>A new group\<close>

definition group_options_ok :: "group_option list \<Rightarrow> bool" where
  "group_options_ok opts \<longleftrightarrow>
     (\<forall>copts. WithCacheOptions copts \<in> set opts \<longrightarrow> store_options_ok (co_CacheType copts) (store_options copts))"

definition fresh_group :: "string \<Rightarrow> Group \<Rightarrow> bool" where
  "fresh_group name g \<longleftrightarrow> g_name g = name \<and> g_loader g = new_sf_group \<and> \<not> g_closed g \<and> g_stats g = zero_stats
     \<and> (\<exists>copts. g_mainCache g = NewCache copts \<and> store_options_ok (co_CacheType copts) (store_options copts))"

lemma default_bytes_ok:
  "store_options_ok (co_CacheType (DefaultCacheOptions\<lparr>co_MaxBytes := b\<rparr>)) (store_options (DefaultCacheOptions\<lparr>co_MaxBytes := b\<rparr>))"
  by (simp add: DefaultCacheOptions_def store_options_def store_options_ok_def lru2_options_ok_def)

lemma fresh_make_group:
  assumes "group_options_ok opts"
  shows "fresh_group name (make_group name b opts)"
proof -
  have "fresh_group name (fold apply_option opts g)" if "fresh_group name g" "group_options_ok opts" for g
    using that
  proof (induction opts arbitrary: g)
    case (Cons o' opts)
    then have "fresh_group name (apply_option o' g)"
      by (cases o') (auto simp: fresh_group_def group_options_ok_def)
    with Cons show ?case by (simp add: group_options_ok_def)
  qed simp
  moreover have "fresh_group name \<lparr>g_name = name, g_mainCache = NewCache (DefaultCacheOptions\<lparr>co_MaxBytes := b\<rparr>),
      g_peers = False, g_loader = new_sf_group, g_expiration = 0, g_closed = False, g_stats = zero_stats\<rparr>"
    using default_bytes_ok [of b] by (auto simp: fresh_group_def)
  ultimately show ?thesis using assms by (simp add: make_group_def)
qed

lemma fresh_idle: "fresh_group name g \<Longrightarrow> group_idle g \<and> balanced g \<and> \<not> g_closed g \<and> g_name g = name"
  by (auto simp: fresh_group_def group_idle_def balanced_def zero_stats_def new_sf_group_def new_cache_inv)

lemma fresh_group_ok:
  assumes "fresh_group name g"
  shows "group_ok P q (g, \<lambda>_. None)"
proof -
  from assms obtain copts where g: "g_loader g = new_sf_group" "g_mainCache g = NewCache copts"
      "store_options_ok (co_CacheType copts) (store_options copts)" by (auto simp: fresh_group_def)
  have p: "cache_part (g, \<lambda>_. None) = cache_start copts" "sf_part (g, \<lambda>_. None) = sf_init"
    using g by (simp_all add: parts o_def cache_start_def sf_init_def)
  have "sf_keyed P sf_init" by (simp add: sf_keyed_def refs_def sf_init_def new_sf_group_def)
  moreover have "held_in P (NewCache copts)" by (simp add: held_in_def cache_held_def NewCache_def)
  ultimately show ?thesis
    using conf_ok_start [OF g(3)] sf_inv_init g(2) unfolding group_ok_def p by simp
qed

end
