(* ===== verification/Cache_Group_Steps.thy ===== *)
theory Cache_Group_Steps
  imports Cache_Group_Seq
begin

text \<open>
  \<open>group.go\<close>: the sections one call goes through, whatever the state is that it finds at each of
  them: where it can be, what it can return, and how many sections it has at most.
\<close>

subsection \<open>The control flow of a call\<close>

text \<open>A section in some environment and some state; other threads run in between.\<close>

definition call_next :: "group_call \<Rightarrow> group_pc \<Rightarrow> group_pc \<Rightarrow> bool" where
  "call_next x pc pc' \<longleftrightarrow> (\<exists>e g g'. group_section e x pc g = Some (pc', g'))"

fun cache_pc_ok :: "call \<Rightarrow> pc \<Rightarrow> bool" where
  "cache_pc_ok y (Return r) = True"
| "cache_pc_ok y Load_closed = True"
| "cache_pc_ok y Locked = True"
| "cache_pc_ok y Load_init = (\<not> is_write y \<and> y \<noteq> CClose)"
| "cache_pc_ok y Check_time = (\<exists>t n k v e. y = CAddExp t n k v e)"
| "cache_pc_ok y _ = is_write y"

fun cache_rank :: "pc \<Rightarrow> nat" where
  "cache_rank (Return r) = 0"
| "cache_rank Locked = 1"
| "cache_rank Check_time = 2"
| "cache_rank Load_init = 2"
| "cache_rank Ensure_lock = 3"
| "cache_rank Ensure_init = 4"
| "cache_rank Ensure_closed = 5"
| "cache_rank Load_closed = 6"

lemma cache_section_rank:
  assumes "cache_section y pc c = Some (pc', c')" and "cache_pc_ok y pc" and "\<nexists>r. pc = Return r"
  shows "cache_rank pc' < cache_rank pc \<and> cache_pc_ok y pc'"
proof (cases "pc = Locked")
  case True
  then show ?thesis using locked_returns [of y c pc' c'] assms(1) by auto
next
  case False
  then show ?thesis using assms by (cases y; cases pc) (auto split: if_splits)
qed

fun sf_rank :: "sf_pc \<Rightarrow> nat" where
  "sf_rank SfLoad = 5"
| "sf_rank SfStore = 4"
| "sf_rank (SfRun c) = 3"
| "sf_rank (SfDone c p) = 2"
| "sf_rank (SfDelete c p) = 1"
| "sf_rank (SfWait c) = 1"
| "sf_rank _ = 0"

lemma Do_rank: "Do k fn spc g = Some (spc', g') \<Longrightarrow> sf_rank spc' < sf_rank spc"
  by (cases spc) (auto simp: Let_def split: option.splits fn_outcome.splits if_splits)

text \<open>What each call may return.\<close>

fun result_type :: "group_call \<Rightarrow> group_result \<Rightarrow> bool" where
  "result_type (GGet k) r = (case r of GView v \<Rightarrow> True | GError e \<Rightarrow> e \<noteq> ErrValueRequired | GDone s \<Rightarrow> False)"
| "result_type (GSet k v p) r =
     (case r of GView v' \<Rightarrow> False | GError e \<Rightarrow> (\<forall>t. e \<noteq> LoadError t)
      | GDone s \<Rightarrow> s = None \<or> \<not> p \<and> s = Some (SyncSet k v))"
| "result_type (GDelete k p) r =
     (case r of GView v' \<Rightarrow> False | GError e \<Rightarrow> e = ErrKeyRequired \<or> e = ErrGroupClosed
      | GDone s \<Rightarrow> s = None \<or> \<not> p \<and> s = Some (SyncDelete k))"
| "result_type GClear r = (r = GDone None)"
| "result_type GClose r = (r = GDone None)"

fun pc_shape :: "group_call \<Rightarrow> group_pc \<Rightarrow> bool" where
  "pc_shape x GStart = True"
| "pc_shape x (GReturn r) = result_type x r"
| "pc_shape x (GPanic t) = (\<exists>k. x = GGet k)"
| "pc_shape x (GLoad spc) = (\<exists>k. x = GGet k)"
| "pc_shape x (GCache y cpc) =
     (cache_pc_ok y cpc \<and>
      (case x of
         GGet k \<Rightarrow> (\<exists>t. y = CGet t k) \<or> is_write y
       | GSet k v p \<Rightarrow> is_write y
       | GDelete k p \<Rightarrow> y = CDelete k
       | GClear \<Rightarrow> y = CClear
       | GClose \<Rightarrow> y = CClear \<or> y = CClose))"

fun pc_rank :: "group_call \<Rightarrow> group_pc \<Rightarrow> nat" where
  "pc_rank x GStart = 22"
| "pc_rank x (GCache y cpc) =
     (case y of CGet t k \<Rightarrow> 15 | CClear \<Rightarrow> 8 | _ \<Rightarrow> 1) + cache_rank cpc"
| "pc_rank x (GLoad spc) = 8 + sf_rank spc"
| "pc_rank x (GReturn r) = 0"
| "pc_rank x (GPanic r) = 0"

lemma cache_write_is_write [simp]: "is_write (cache_write e g k v)"
  by (simp add: cache_write_def)

lemma write_rank: "is_write y \<Longrightarrow> (case y of CGet t k \<Rightarrow> (15::nat) | CClear \<Rightarrow> 8 | _ \<Rightarrow> 1) = 1"
  by (cases y) auto

lemma load_next:
  assumes "group_load e k spc g = Some (pc', g')"
  shows "pc_rank (GGet k) pc' < pc_rank (GGet k) (GLoad spc) \<and> pc_shape (GGet k) pc'"
proof (cases "sf_finished spc")
  case True
  then show ?thesis using assms
    by (cases spc) (auto simp: Let_def write_rank split: option.splits)
next
  case False
  then obtain fn spc' l where "Do k fn spc (g_loader g) = Some (spc', l)" "pc' = GLoad spc'"
    using assms by (cases spc) (auto simp: Let_def case_prod_beta simp del: Do.simps split: Option.bind_splits)
  with Do_rank show ?thesis by auto
qed

lemma call_next_shape:
  assumes "call_next x pc pc'" and "pc_shape x pc"
  shows "pc_rank x pc' < pc_rank x pc \<and> pc_shape x pc'"
proof -
  obtain e g g' where sec: "group_section e x pc g = Some (pc', g')" using assms(1) by (auto simp: call_next_def)
  show ?thesis
  proof (cases pc)
    case GStart
    with sec show ?thesis by (cases x) (auto simp: write_rank split: if_splits)
  next
    case (GLoad spc)
    with sec assms(2) load_next show ?thesis by auto
  next
    case (GCache y cpc)
    show ?thesis
    proof (cases "\<exists>r. cpc = Return r")
      case True
      with sec assms(2) GCache show ?thesis
        by (cases x) (auto simp: Let_def started_def split: if_splits call.splits result.splits)
    next
      case False
      then have "group_section e x pc g = in_cache y cpc g" using GCache by (cases x; cases cpc) auto
      with sec obtain cpc' c' where "cache_section y cpc (g_mainCache g) = Some (cpc', c')" "pc' = GCache y cpc'"
        by (auto simp: in_cache_def split: Option.bind_splits)
      with cache_section_rank [of y cpc "g_mainCache g" cpc' c'] assms(2) GCache False show ?thesis by auto
    qed
  next
    case (GReturn r)
    with sec show ?thesis by (cases x) auto
  next
    case (GPanic r)
    with sec show ?thesis by (cases x) auto
  qed
qed

subsection \<open>Properties\<close>

text \<open>
  C32. Every call ends: whatever environments and states it meets at its sections, and whatever
  other threads do between them, a call has at most 22 sections of its own, the loads it runs
  and the calls it makes on the cache included.
\<close>

theorem group_calls_terminate:
  assumes "(call_next x ^^ n) GStart pc"
  shows "n \<le> 22"
proof -
  have "pc_shape x pc \<and> n + pc_rank x pc \<le> 22" if "(call_next x ^^ n) GStart pc" for n pc
    using that
  proof (induction n arbitrary: pc)
    case (Suc n)
    then obtain pc1 where "(call_next x ^^ n) GStart pc1" "call_next x pc1 pc" by auto
    with Suc.IH call_next_shape [of x pc1 pc] show ?case by fastforce
  qed simp
  from this [OF assms] show ?thesis by simp
qed

text \<open>Every call of an execution is at a place its control flow leads to.\<close>

lemma shapes_step:
  assumes "group_step calls envs s s'" and "\<And>i x pc. snd s i = Some (x, pc) \<Longrightarrow> pc_shape x pc" and "snd s' i = Some (x, pc)"
  shows "pc_shape x pc"
  using assms
proof cases
  case (group_one ts j y pc1 e g pc' g')
  have "call_next y pc1 pc'" using group_one(5) unfolding call_next_def by blast
  with call_next_shape assms(2) group_one have "pc_shape y pc'" by auto
  with assms(2,3) group_one show ?thesis by (auto split: if_splits)
qed (auto split: if_splits)

lemma shapes_reach:
  assumes "(group_step calls envs)\<^sup>*\<^sup>* s s'" and "\<And>i x pc. snd s i = Some (x, pc) \<Longrightarrow> pc_shape x pc" and "snd s' i = Some (x, pc)"
  shows "pc_shape x pc"
  using assms
proof (induction arbitrary: i x pc rule: rtranclp_induct)
  case (step y z)
  from shapes_step [OF step.hyps(2) step.IH [OF step.prems(1)] step.prems(2)] show ?case .
qed

text \<open>
  C33. The type of the answers, in every interleaving of calls of a group with whatever data source
  and peers, panicking ones included: \<open>Get\<close> returns a view or an error that is not about the value,
  \<open>Set\<close> and \<open>Delete\<close> return nothing or an error about their arguments or the closed group (and
  start a goroutine for their own key only when not called by a peer), and \<open>Clear\<close> and \<open>close\<close>
  never fail.  Only \<open>Get\<close> can panic: a call at any other place has its next section, which says that
  nothing panics in the cache or in its store, unless it is a \<open>Get\<close> that waits for a load that is
  not done.
\<close>

theorem group_answer_types:
  assumes "group_options_ok opts"
    and "(group_step (\<lambda>_. True) (\<lambda>_. True))\<^sup>*\<^sup>* (make_group name bytes opts, \<lambda>_. None) (g, ts)"
    and "ts i = Some (x, pc)"
  shows "case pc of
      GReturn r \<Rightarrow> result_type x r
    | GPanic t \<Rightarrow> \<exists>k. x = GGet k
    | _ \<Rightarrow> (\<forall>e. group_section e x pc g \<noteq> None)
        \<or> (\<exists>k c. x = GGet k \<and> pc = GLoad (SfWait c) \<and> \<not> sc_done (sf_calls (g_loader g) c))"
proof -
  have "group_ok (\<lambda>_ _. True) True (g, ts)"
    using group_ok_reach [OF assms(2) fresh_group_ok [OF fresh_make_group [OF assms(1)]], of "\<lambda>_ _. True" True]
    by (auto simp: call_in_def answers_in_def split: group_call.splits)
  from group_progress [OF this assms(3)]
  have go: "group_section e x pc g \<noteq> None" if "\<not> group_finished pc" "\<not> group_waits pc g" for e
    using that by fastforce
  have shape: "pc_shape x pc" by (rule shapes_reach [OF assms(2)]) (use assms(3) in auto)
  show ?thesis
  proof (cases "group_waits pc g")
    case True
    then show ?thesis using shape by (cases "(pc, g)" rule: group_waits.cases) auto
  next
    case False
    then show ?thesis using go shape by (cases pc) auto
  qed
qed

lemma closed_next: "call_next x GStart (GReturn (case x of GClear \<Rightarrow> GDone None | GClose \<Rightarrow> GDone None | _ \<Rightarrow> GError ErrGroupClosed))"
  unfolding call_next_def
  by (intro exI [of _ idle_env] exI [of _ "(make_group [] 0 [])\<lparr>g_closed := True\<rparr>"]) (cases x; simp)

theorem group_calls_terminate_witness:
  "\<exists>n. (call_next GClear ^^ n) GStart (GReturn (GDone None)) \<and> n \<le> 22"
proof -
  have "(call_next GClear ^^ 1) GStart (GReturn (GDone None))" using closed_next [of GClear] by (simp add: eq_OO)
  with group_calls_terminate [OF this] show ?thesis by blast
qed

theorem group_answer_types_witness:
  "\<exists>pc. (group_step (\<lambda>_. True) (\<lambda>_. True))\<^sup>*\<^sup>* (make_group ''g'' 1 [], \<lambda>_. None)
       (make_group ''g'' 1 [], (\<lambda>_. None)(0 \<mapsto> (GSet ''k'' [1] False, GCache pc Load_closed)))
     \<and> group_section idle_env (GSet ''k'' [1] False) (GCache pc Load_closed) (make_group ''g'' 1 []) \<noteq> None"
proof -
  let ?R = "group_step (\<lambda>_. True) (\<lambda>_. True)" let ?g = "make_group ''g'' 1 []" let ?x = "GSet ''k'' [1] False"
  let ?pc = "cache_write idle_env ?g ''k'' (ByteView [1])" let ?e = "\<lambda>_ :: nat. None :: (group_call \<times> group_pc) option"
  have "\<not> g_closed ?g" by (simp add: make_group_def)
  then have sec: "group_section idle_env ?x GStart ?g = Some (GCache ?pc Load_closed, ?g)" by simp
  have 1: "?R (?g, ?e) (?g, ?e(0 \<mapsto> (?x, GStart)))" by (rule group_begin) simp_all
  have "?R (?g, ?e(0 \<mapsto> (?x, GStart))) (?g, (?e(0 \<mapsto> (?x, GStart)))(0 \<mapsto> (?x, GCache ?pc Load_closed)))"
    by (rule group_one [OF _ _ sec]) simp_all
  then have 2: "?R\<^sup>*\<^sup>* (?g, ?e) (?g, ?e(0 \<mapsto> (?x, GCache ?pc Load_closed)))"
    using converse_rtranclp_into_rtranclp [of ?R, OF 1] by (simp add: r_into_rtranclp)
  moreover have "group_options_ok []" by (simp add: group_options_ok_def)
  from group_answer_types [OF this 2, of 0 ?x "GCache ?pc Load_closed"]
  have "group_section idle_env ?x (GCache ?pc Load_closed) ?g \<noteq> None" by auto
  ultimately show ?thesis by blast
qed

end
