(* ===== verification/Cache_Group_Props.thy ===== *)
theory Cache_Group_Props
  imports Cache_Group_Seq
begin

text \<open>
  The properties of \<open>group.go\<close>: no concurrent execution panics or gets stuck, no value crosses
  from one key to another, reads go through to the peer or the data source, a closed group
  stays closed, the counters balance, a write is passed on at most once, and the global table
  holds exactly the open groups.
\<close>

subsection \<open>Concurrent calls of one group\<close>

abbreviation no_threads :: group_threads where "no_threads \<equiv> \<lambda>_. None"


lemma idle_env_quiet: "env_quiet idle_env"
  by (simp add: env_quiet_def idle_env_def)


text \<open>
  C5. Values never cross keys: if every value passed to \<open>Set\<close> and every answer of the peers and
  of the data source belongs to its key, then in every interleaving so does every view that a
  \<open>Get\<close> returns and every value in the cache.
\<close>

theorem group_values_by_key:
  assumes "group_options_ok opts"
    and "(group_step (call_in P) (answers_in P))\<^sup>*\<^sup>* (make_group name bytes opts, no_threads) (g, ts)"
  shows "(\<forall>i k v. ts i = Some (GGet k, GReturn (GView v)) \<longrightarrow> P k v)
    \<and> (\<forall>k v. v \<in> cache_held (g_mainCache g) k \<longrightarrow> P k v)"
proof -
  have ok: "group_ok P True (g, ts)"
    using group_ok_reach [OF assms(2) fresh_group_ok [OF fresh_make_group [OF assms(1)]], of P True] by auto
  have "P k v" if "ts i = Some (GGet k, GReturn (GView v))" for i k v
  proof -
    have "group_at_ok P True (GGet k) (GReturn (GView v))"
      using ok that unfolding group_ok_def snd_conv by blast
    then show ?thesis by simp
  qed
  then show ?thesis using ok by (auto simp: group_ok_def held_in_def)
qed

subsection \<open>Calls that run alone\<close>

text \<open>
  C7. \<open>Get\<close>, run through its sections of cache, loader and bookkeeping, returns, and is the
  function that answers from the cache, and on a miss loads once, counts the load, and stores
  what it loaded.
\<close>

theorem group_get_reads_through:
  assumes "group_idle g" and "env_quiet e"
  shows "group_do e (GGet k) g = read_through e k g \<and> read_through e k g \<noteq> None"
  using group_do_get [OF assms, of k] read_through_kept [OF assms, of k] by auto

lemma fresh_default: "fresh_group name (make_group name b [])"
  by (rule fresh_make_group) (simp add: group_options_ok_def)

theorem group_get_reads_through_witness:
  "group_do idle_env (GGet ''k'') (make_group ''g'' 1 []) = read_through idle_env ''k'' (make_group ''g'' 1 [])"
  using group_get_reads_through [OF _ idle_env_quiet] fresh_idle [OF fresh_default] by blast

text \<open>The answer of a load: the peer's when one is found that answers, else the data source's.\<close>

definition source_answer :: "load_env \<Rightarrow> key \<Rightarrow> group_result" where
  "source_answer e k =
     (case le_getter e k of
        GetterReturn b None \<Rightarrow> GView (ByteView b)
      | GetterReturn b (Some err) \<Rightarrow> GError (LoadError (''failed to get data: '' @ err))
      | GetterPanic r \<Rightarrow> GError (LoadError (panic_error r)))"

definition load_answer :: "load_env \<Rightarrow> Group \<Rightarrow> key \<Rightarrow> group_result" where
  "load_answer e g k =
     (if \<not> g_peers g then source_answer e k
      else (case le_pick e k of
              (Some p, True, False) \<Rightarrow>
                (case le_peer e p (g_name g) k of Inr b \<Rightarrow> GView (ByteView b) | Inl _ \<Rightarrow> source_answer e k)
            | _ \<Rightarrow> source_answer e k))"

definition fn_answer :: "fn_outcome \<Rightarrow> group_result" where
  "fn_answer fn =
     (case snd (fn_result fn) of
        Some err \<Rightarrow> GError (LoadError err)
      | None \<Rightarrow> (case fst (fn_result fn) of Some v \<Rightarrow> GView v | None \<Rightarrow> GDone None))"

lemma from_getter_answer: "fn_answer (fst (from_getter e k s)) = source_answer e k"
  by (auto simp: from_getter_def source_answer_def fn_answer_def split: getter_outcome.splits option.splits)

lemma loadData_answer:
  assumes "env_quiet e"
  shows "fn_answer (fst (loadData (g_peers g) (g_name g) (ge_load e) k s)) = load_answer (ge_load e) g k"
proof -
  have "le_pick (ge_load e) k \<noteq> (None, True, b)" for b using assms by (simp add: env_quiet_def)
  then show ?thesis
    by (auto simp: loadData_def load_answer_def getFromPeer_def Let_def from_getter_answer fn_answer_def [of "FnReturn _ _"]
        split: prod.splits option.splits bool.splits sum.splits)
qed

lemma miss_answer:
  assumes "group_idle g" and "env_quiet e" and "\<not> g_closed g" and "k \<noteq> []"
    and "cache_call (CGet (ge_clk e) k) (g_mainCache g) = Some (RGet view False, c)"
  shows "\<exists>g'. group_do e (GGet k) g = Some (load_answer (ge_load e) g k, g')
    \<and> gs_localMisses (g_stats g') = gs_localMisses (g_stats g) + 1 \<and> gs_loads (g_stats g') = gs_loads (g_stats g) + 1
    \<and> (\<forall>err. load_answer (ge_load e) g k = GError err \<longrightarrow>
          gs_loaderErrors (g_stats g') = gs_loaderErrors (g_stats g) + 1 \<and> g_mainCache g' = c)"
proof -
  have inv: "cache_inv (g_mainCache g)" using assms(1) by (simp add: group_idle_def)
  then have "cache_inv c" using cache_total [of _ "CGet (ge_clk e) k"] assms(5) by (metis option.inject prod.inject)
  note total = cache_total [OF this]
  let ?s = "count_hit False (g_stats g)"
  note answer = loadData_answer [OF assms(2), of g k ?s]
  show ?thesis
  proof (cases rule: loadData_shape [OF assms(2), of "g_peers g" "g_name g" k ?s])
    case (1 v s)
    then have "load_answer (ge_load e) g k = GView v" using answer by (simp add: fn_answer_def)
    moreover obtain r c' where "cache_call (cache_write e g k v) c = Some (r, c')" using total by metis
    ultimately show ?thesis
      using 1 loadData_counts [OF 1] assms group_do_get [OF assms(1,2), of k]
      by (simp add: read_through_def record_load_def count_hit_def)
  next
    case (2 v err s)
    then have "load_answer (ge_load e) g k = GError (LoadError err)" using answer by (simp add: fn_answer_def)
    then show ?thesis
      using 2 loadData_counts [OF 2] assms group_do_get [OF assms(1,2), of k]
      by (simp add: read_through_def record_load_def count_hit_def)
  qed
qed

text \<open>
  C30. A \<open>Get\<close> that misses answers with the value of the owning peer, or, when there is no such
  peer, it is this node, or it fails, with what the data source returns; an error of the data
  source is the answer and is not cached: the cache then holds no value it did not hold.
\<close>

theorem group_miss_answer:
  assumes "group_idle g" and "env_quiet e" and "\<not> g_closed g" and "k \<noteq> []"
    and "cache_call (CGet (ge_clk e) k) (g_mainCache g) = Some (RGet view False, c)"
  shows "\<exists>g'. group_do e (GGet k) g = Some (load_answer (ge_load e) g k, g')
    \<and> gs_localMisses (g_stats g') = gs_localMisses (g_stats g) + 1 \<and> gs_loads (g_stats g') = gs_loads (g_stats g) + 1
    \<and> (\<forall>err. load_answer (ge_load e) g k = GError err \<longrightarrow>
          gs_loaderErrors (g_stats g') = gs_loaderErrors (g_stats g) + 1 \<and> g_mainCache g' = c)"
  by (rule miss_answer [OF assms])

lemma fresh_get_misses:
  "cache_call (CGet t k) (g_mainCache (make_group n b [])) = Some (RGet empty_view False, (g_mainCache (make_group n b []))\<lparr>c_misses := 1\<rparr>)"
  using call_read [of "g_mainCache (make_group n b [])" "CGet t k"] by (simp add: make_group_def NewCache_def)

theorem group_miss_answer_witness:
  "\<exists>g'. group_do idle_env (GGet ''k'') (make_group ''g'' 1 []) = Some (GError (LoadError ''failed to get data: ''), g')
     \<and> gs_loaderErrors (g_stats g') = 1"
proof -
  let ?g = "make_group ''g'' 1 []"
  have a: "load_answer (ge_load idle_env) ?g ''k'' = GError (LoadError ''failed to get data: '')"
    by (simp add: load_answer_def source_answer_def idle_env_def make_group_def)
  have z: "gs_loaderErrors (g_stats ?g) = 0" by (simp add: make_group_def zero_stats_def)
  have i: "group_idle ?g" "\<not> g_closed ?g" "''k'' \<noteq> []" using fresh_idle [OF fresh_default] by simp_all
  from group_miss_answer [OF i(1) idle_env_quiet i(2,3) fresh_get_misses] show ?thesis
    unfolding a z by auto
qed

text \<open>What a closed group answers.\<close>

fun group_closed_answer :: "group_call \<Rightarrow> group_result" where
  "group_closed_answer GClear = GDone None"
| "group_closed_answer GClose = GDone None"
| "group_closed_answer _ = GError ErrGroupClosed"

text \<open>
  \<open>close\<close> returns, closes the cache, and from then on every call, another \<open>close\<close> included,
  answers \<open>ErrGroupClosed\<close> (or nothing, for \<open>Clear\<close> and \<open>close\<close>) and changes nothing.
\<close>

theorem group_close_is_final:
  assumes "group_idle g"
  shows "\<exists>g'. group_do e GClose g = Some (GDone None, g') \<and> g_closed g' \<and> c_closed (g_mainCache g')
    \<and> (\<forall>e x. group_do e x g' = Some (group_closed_answer x, g'))"
proof -
  obtain c where c: "group_do e GClose g = Some (GDone None, if g_closed g then g else g\<lparr>g_closed := True, g_mainCache := c\<rparr>)"
      "cache_inv c" "c_closed c" using group_do_close [OF assms] by blast
  have fin: "g_closed g' \<Longrightarrow> group_do e x g' = Some (group_closed_answer x, g')" for e x g'
    by (rule group_do_guard) (cases x; simp)
  show ?thesis using c assms fin by (cases "g_closed g") (auto simp: group_idle_def)
qed

theorem group_close_is_final_witness:
  "\<exists>g'. group_do idle_env GClose (make_group ''g'' 1 []) = Some (GDone None, g')
     \<and> group_do idle_env (GSet ''k'' [1] False) g' = Some (GError ErrGroupClosed, g')"
  using group_close_is_final [of "make_group ''g'' 1 []" idle_env] fresh_idle [OF fresh_default] by fastforce

text \<open>Calls one after the other, each in its environment.\<close>

fun run_group_calls :: "(group_env \<times> group_call) list \<Rightarrow> Group \<Rightarrow> (group_result list \<times> Group) option" where
  "run_group_calls [] g = Some ([], g)"
| "run_group_calls ((e, x) # xs) g =
     do { (r, g) \<leftarrow> group_do e x g; (rs, g) \<leftarrow> run_group_calls xs g; Some (r # rs, g) }"

lemma run_group_calls_ok:
  assumes "group_idle g" and "\<forall>(e, x) \<in> set xs. env_quiet e"
  shows "\<exists>rs g'. run_group_calls xs g = Some (rs, g') \<and> group_kept g g' \<and> length rs = length xs"
  using assms
proof (induction xs arbitrary: g)
  case Nil
  then show ?case by (simp add: group_kept_def)
next
  case (Cons ex xs)
  obtain e x where ex: "ex = (e, x)" by fastforce
  obtain r g1 where 1: "group_do e x g = Some (r, g1)" "group_kept g g1"
    using group_do_ok [OF Cons.prems(1), of e x] Cons.prems(2) ex by auto
  then have "group_idle g1" by (simp add: group_kept_def)
  from Cons.IH [OF this] Cons.prems(2) obtain rs g2 where "run_group_calls xs g1 = Some (rs, g2)" "group_kept g1 g2"
      "length rs = length xs" by auto
  with 1 ex show ?case by (auto simp: group_kept_def)
qed

text \<open>
  C31. The books balance: after any calls that run one after the other on a new group, all of
  which return, every miss was one load, and every load ended as a hit of a peer, a hit of the
  data source or an error; no more loads failed at a peer than went on to the data source.
\<close>

theorem group_counters_balance:
  assumes "group_options_ok opts" and "\<forall>(e, x) \<in> set xs. env_quiet e"
  shows "\<exists>rs g. run_group_calls xs (make_group name bytes opts) = Some (rs, g) \<and> length rs = length xs
    \<and> gs_loads (g_stats g) = gs_peerHits (g_stats g) + gs_loaderHits (g_stats g) + gs_loaderErrors (g_stats g)
    \<and> gs_localMisses (g_stats g) = gs_loads (g_stats g)
    \<and> gs_peerMisses (g_stats g) \<le> gs_loaderHits (g_stats g) + gs_loaderErrors (g_stats g)"
proof -
  note f = fresh_idle [OF fresh_make_group [OF assms(1)], of name bytes]
  from run_group_calls_ok [OF _ assms(2)] f show ?thesis
    by (fastforce simp: group_kept_def balanced_def)
qed

theorem group_counters_balance_witness:
  "\<exists>rs g. run_group_calls [(idle_env, GGet ''k''), (idle_env, GSet ''k'' [1] False)] (make_group ''g'' 1 []) = Some (rs, g)
     \<and> gs_localMisses (g_stats g) = gs_loads (g_stats g)"
  using group_counters_balance [of "[]" "[(idle_env, GGet ''k''), (idle_env, GSet ''k'' [1] False)]" "''g''" 1]
    idle_env_quiet by (auto simp: group_options_ok_def)

subsection \<open>Passing writes on\<close>

text \<open>
  A write is passed on at most once: a \<open>Set\<close> or \<open>Delete\<close> that a node receives from a peer
  starts no \<open>syncToPeers\<close>; another one starts one at most, which carries the same operation, key
  and value, and sends at most one request, to the peer the picker found and never to this node.
\<close>

theorem group_sync_once:
  assumes "group_idle g" and "env_quiet e" and "x = GSet k v p \<or> x = GDelete k p"
    and "group_do e x g = Some (GDone start, g')"
  shows "(p \<longrightarrow> start = None)
    \<and> (\<forall>y. start = Some y \<longrightarrow> g_peers g \<and> y = (if x = GSet k v p then SyncSet k v else SyncDelete k)
        \<and> (\<exists>reqs. syncToPeers (ge_load e) g' y = Some reqs
             \<and> (case le_pick (ge_load e) k of
                  (Some q, True, False) \<Rightarrow> reqs = [sync_request q (g_name g) y]
                | _ \<Rightarrow> reqs = [])))"
proof -
  have pick: "le_pick (ge_load e) k \<noteq> (None, True, b)" for b using assms(2) by (simp add: env_quiet_def)
  have st: "\<exists>c. cache_then y r g = Some (r', h) \<Longrightarrow> r' = r \<and> g_peers h = g_peers g \<and> g_name h = g_name g" for y r r' h
    by (auto simp: cache_then_def)
  have y: "start = started p g (if x = GSet k v p then SyncSet k v else SyncDelete k) \<and> g_peers g' = g_peers g \<and> g_name g' = g_name g"
    using assms(3,4) by (auto simp: group_do_set [OF assms(1)] group_do_delete [OF assms(1)] split: if_splits dest!: st [OF exI])
  then show ?thesis
    using pick assms(3)
    by (auto simp: started_def syncToPeers_def Let_def split: prod.splits option.splits bool.splits)
qed

definition peers_env :: group_env where
  "peers_env = idle_env\<lparr>ge_load := (ge_load idle_env)\<lparr>le_pick := \<lambda>_. (Some 7, True, False)\<rparr>\<rparr>"

theorem group_sync_once_witness:
  "\<exists>g' y. group_do peers_env (GDelete ''k'' False) (make_group ''g'' 1 [WithPeers True]) = Some (GDone (Some y), g')
     \<and> syncToPeers (ge_load peers_env) g' y = Some [PeerDelete 7 ''g'' ''k'']"
proof -
  let ?g = "make_group ''g'' 1 [WithPeers True]"
  have idle: "group_idle ?g" using fresh_idle [OF fresh_make_group] by (simp add: group_options_ok_def)
  have quiet: "env_quiet peers_env" by (auto simp: env_quiet_def peers_env_def idle_env_def)
  have "\<exists>g'. cache_then (CDelete ''k'') (GDone (started False ?g (SyncDelete ''k''))) ?g = Some (GDone (started False ?g (SyncDelete ''k'')), g')"
    using cache_then_kept [OF idle] by blast
  then obtain g' where "group_do peers_env (GDelete ''k'' False) ?g = Some (GDone (Some (SyncDelete ''k'')), g')"
    using group_do_delete [OF idle] by (auto simp: make_group_def started_def)
  with group_sync_once [OF idle quiet _ this, of "''k''" "[]" False] show ?thesis
    by (auto simp: peers_env_def make_group_def)
qed

end
