(* ===== verification/Group_Registry_Props.thy ===== *)
theory Group_Registry_Props
  imports Cache_Group_Props
begin

text \<open>
  \<open>group.go\<close>: the properties of the global table of groups.
\<close>

subsection \<open>Invariant\<close>

text \<open>
  The table maps a name to a group of that name, and a group that was ever made is open exactly
  when the table has it.
\<close>

definition table_ok :: "(string \<Rightarrow> nat option) \<Rightarrow> (nat \<Rightarrow> Group) \<Rightarrow> nat \<Rightarrow> bool" where
  "table_ok m h n \<longleftrightarrow>
     (\<forall>name a. m name = Some a \<longrightarrow> a < n \<and> g_name (h a) = name)
     \<and> (\<forall>a < n. group_idle (h a) \<and> (g_closed (h a) \<longleftrightarrow> m (g_name (h a)) \<noteq> Some a))"

definition world_ok :: "World \<Rightarrow> bool" where
  "world_ok w \<longleftrightarrow> gomap_ok (w_groups w) \<and> table_ok (mget (w_groups w)) (w_heap w) (w_next w)"

lemma table_ok_call:
  "table_ok m h n \<Longrightarrow> group_idle g \<Longrightarrow> g_name g = g_name (h a) \<Longrightarrow> g_closed g = g_closed (h a) \<Longrightarrow> table_ok m (h(a := g)) n"
  by (auto simp: table_ok_def)

lemma table_ok_drop:
  assumes "table_ok m h n" and "m name = Some a" and "group_idle g" and "g_closed g" and "g_name g = g_name (h a)"
  shows "table_ok (m(name := None)) (h(a := g)) n"
proof -
  have same: "m name' = Some a \<Longrightarrow> name' = name" for name' using assms(1,2) unfolding table_ok_def by metis
  have a: "g_name g = name" using assms(1,2,5) by (simp add: table_ok_def)
  have old: "b < n \<Longrightarrow> group_idle (h b) \<and> (g_closed (h b) \<longleftrightarrow> m (g_name (h b)) \<noteq> Some b)"
      "m name' = Some b \<Longrightarrow> b < n \<and> g_name (h b) = name'" for b name'
    using assms(1) by (simp_all add: table_ok_def)
  show ?thesis
    unfolding table_ok_def
  proof (intro conjI allI impI)
    fix name' b assume b: "(m(name := None)) name' = Some b"
    then have "b \<noteq> a" using same by (auto split: if_splits)
    then show "b < n" "g_name ((h(a := g)) b) = name'" using b old(2) [of name' b] by (auto split: if_splits)
  next
    fix b assume b: "b < n"
    show "group_idle ((h(a := g)) b)" using old(1) [OF b] assms(3) by simp
    show "g_closed ((h(a := g)) b) \<longleftrightarrow> (m(name := None)) (g_name ((h(a := g)) b)) \<noteq> Some b"
      using old(1) [OF b] assms(2,4) a by auto
  qed
qed

lemma table_ok_new:
  assumes "table_ok m h n" and "group_idle g" and "\<not> g_closed g" and "g_name g = name" and "m name = None"
  shows "table_ok (m(name \<mapsto> n)) (h(n := g)) (Suc n)"
  using assms by (auto simp: table_ok_def less_Suc_eq)

lemma table_ok_replace:
  assumes "table_ok m h n" and "group_idle g" and "\<not> g_closed g" and "g_name g = name" and "m name = Some old"
    and "group_idle g'" and "g_closed g'" and "g_name g' = g_name (h old)"
  shows "table_ok (m(name \<mapsto> n)) (h(n := g, old := g')) (Suc n)"
proof -
  have "old \<noteq> n" using assms(1,5) by (auto simp: table_ok_def)
  then have "h(n := g, old := g') = (h(old := g'))(n := g)" by (rule fun_upd_twist [symmetric])
  then show ?thesis using table_ok_new [OF table_ok_drop [OF assms(1,5,6-8)] assms(2-4)] by simp
qed

lemma world_okD:
  assumes "world_ok w"
  shows "gomap_ok (w_groups w)" "table_ok (mget (w_groups w)) (w_heap w) (w_next w)"
    "\<And>n a. mget (w_groups w) n = Some a \<Longrightarrow> a < w_next w"
    "\<And>n a. mget (w_groups w) n = Some a \<Longrightarrow> g_name (w_heap w a) = n"
    "\<And>a. a < w_next w \<Longrightarrow> group_idle (w_heap w a)"
    "\<And>a. a < w_next w \<Longrightarrow> g_closed (w_heap w a) \<longleftrightarrow> mget (w_groups w) (g_name (w_heap w a)) \<noteq> Some a"
  using assms unfolding world_ok_def table_ok_def by blast+

lemma world_ok_empty: "world_ok empty_world"
  by (simp add: world_ok_def table_ok_def empty_world_def)

text \<open>A call on a group, and what \<open>close\<close> does.\<close>

lemma world_call_ok:
  assumes "group_idle (w_heap w a)" and e: "env_quiet e"
  shows "\<exists>r g. world_call e x a w = Some (r, w\<lparr>w_heap := (w_heap w)(a := g)\<rparr>) \<and> group_idle g
    \<and> g_name g = g_name (w_heap w a) \<and> (g_closed g \<longleftrightarrow> g_closed (w_heap w a) \<or> x = GClose)"
proof -
  from group_do_ok [OF assms, of x] obtain r g where
    "group_do e x (w_heap w a) = Some (r, g)" "group_kept (w_heap w a) g"
    "g_closed g \<longleftrightarrow> g_closed (w_heap w a) \<or> x = GClose" by blast
  then show ?thesis by (intro exI [of _ r] exI [of _ g]) (simp add: world_call_def group_kept_def)
qed

lemma world_call_keeps:
  assumes ok: "world_ok w" and a: "a < w_next w" and e: "env_quiet e" and x: "x \<noteq> GClose"
  shows "\<exists>r w'. world_call e x a w = Some (r, w') \<and> world_ok w' \<and> w_groups w' = w_groups w \<and> w_next w' = w_next w"
proof -
  obtain r g where g: "world_call e x a w = Some (r, w\<lparr>w_heap := (w_heap w)(a := g)\<rparr>)" "group_idle g"
      "g_name g = g_name (w_heap w a)" "g_closed g \<longleftrightarrow> g_closed (w_heap w a)"
    using world_call_ok [OF world_okD(5) [OF ok a] e, of x] x by blast
  have "world_ok (w\<lparr>w_heap := (w_heap w)(a := g)\<rparr>)"
    using table_ok_call [OF world_okD(2) [OF ok] g(2-4)] world_okD(1) [OF ok] by (simp add: world_ok_def)
  with g(1) show ?thesis by auto
qed

lemma close_at_ok:
  assumes "group_idle (w_heap w a)"
  obtains g where "close_at a w = Some (w\<lparr>w_heap := (w_heap w)(a := g)\<rparr>)" "group_idle g" "g_closed g"
    "g_name g = g_name (w_heap w a)"
  using world_call_ok [OF assms idle_env_quiet, of GClose] by (auto simp: close_at_def)

lemma destroy_ok:
  assumes ok: "world_ok w" and m: "mget (w_groups w) name = Some a"
  shows "\<exists>w'. destroy name a w = Some w' \<and> world_ok w' \<and> w_groups w' = mdel name (w_groups w) \<and> g_closed (w_heap w' a)
    \<and> w_next w' = w_next w"
proof -
  note d = world_okD [OF ok]
  obtain g where g: "close_at a w = Some (w\<lparr>w_heap := (w_heap w)(a := g)\<rparr>)" "group_idle g" "g_closed g"
      "g_name g = g_name (w_heap w a)" using close_at_ok [OF d(5) [OF d(3) [OF m]]] by metis
  have "world_ok (w\<lparr>w_heap := (w_heap w)(a := g), w_groups := mdel name (w_groups w)\<rparr>)"
    using table_ok_drop [OF d(2) m g(2-4)] d(1) by (simp add: world_ok_def fun_upd_def)
  with g show ?thesis by (simp add: destroy_def)
qed

lemma destroy_group_ok:
  assumes ok: "world_ok w"
  shows "\<exists>b w'. DestroyGroup name w = Some (b, w') \<and> world_ok w' \<and> w_groups w' = mdel name (w_groups w)
    \<and> (b \<longleftrightarrow> GetGroup name w \<noteq> None) \<and> w_next w' = w_next w"
proof (cases "mget (w_groups w) name")
  case None
  then have "name \<notin> set (mkeys (w_groups w))" by (auto simp: map_of_eq_None_iff)
  then show ?thesis using None ok by (auto simp: DestroyGroup_def GetGroup_def mdel_absent)
next
  case (Some a)
  from destroy_ok [OF ok Some] Some show ?thesis
    by (auto simp: DestroyGroup_def GetGroup_def)
qed

lemma destroy_all_ok:
  assumes "world_ok w" and "w_groups w = es"
  shows "\<exists>w'. destroy_all es w = Some w' \<and> world_ok w' \<and> w_groups w' = [] \<and> w_next w' = w_next w"
  using assms
proof (induction es arbitrary: w)
  case (Cons p es)
  obtain name a where p: "p = (name, a)" by fastforce
  from destroy_ok [OF Cons.prems(1), of name a] Cons.prems(2) p obtain w1 where
    w1: "destroy name a w = Some w1" "world_ok w1" "w_groups w1 = mdel name (p # es)" "w_next w1 = w_next w" by auto
  have "name \<notin> fst ` set es" using world_okD(1) [OF Cons.prems(1)] Cons.prems(2) p by simp
  then have "w_groups w1 = es" using w1(3) p by (simp add: mdel_absent)
  from Cons.IH [OF w1(2) this] w1 p show ?case by auto
qed simp

lemma new_group_ok:
  assumes ok: "world_ok w" and opts: "group_options_ok opts"
  shows "\<exists>w'. NewGroup True name bytes opts w = Some (w_next w, w') \<and> world_ok w' \<and> w_next w' = Suc (w_next w)
    \<and> w_groups w' = mput name (w_next w) (w_groups w) \<and> w_heap w' (w_next w) = make_group name bytes opts
    \<and> (\<forall>old. GetGroup name w = Some old \<longrightarrow> g_closed (w_heap w' old))"
proof -
  note d = world_okD [OF ok] and f = fresh_idle [OF fresh_make_group [OF opts], of name bytes]
  let ?a = "w_next w" and ?g = "make_group name bytes opts"
  let ?w = "w\<lparr>w_heap := (w_heap w)(?a := ?g), w_next := Suc ?a\<rparr>"
  show ?thesis
  proof (cases "mget (w_groups w) name")
    case None
    have "world_ok (?w\<lparr>w_groups := mput name ?a (w_groups w)\<rparr>)"
      using table_ok_new [OF d(2), of ?g name] None f d(1) by (simp add: world_ok_def fun_upd_def)
    with None show ?thesis by (simp add: NewGroup_def GetGroup_def Let_def)
  next
    case (Some old)
    have old: "old < ?a" by (rule d(3) [OF Some])
    then have "group_idle (w_heap ?w old)" using d(5) by simp
    from close_at_ok [OF this] old obtain g where g: "close_at old ?w = Some (?w\<lparr>w_heap := (w_heap ?w)(old := g)\<rparr>)"
        "group_idle g" "g_closed g" "g_name g = g_name (w_heap w old)" by auto
    have "world_ok (?w\<lparr>w_heap := (w_heap ?w)(old := g), w_groups := mput name ?a (w_groups w)\<rparr>)"
      using table_ok_replace [OF d(2), of ?g name old g] Some f d(1) g by (simp add: world_ok_def fun_upd_def)
    with Some g old show ?thesis by (simp add: NewGroup_def GetGroup_def Let_def)
  qed
qed

subsection \<open>Programs that use the table\<close>

text \<open>
  What a program does with groups: make one, call one it holds (which need not be in the table
  any more), destroy one or all.  \<open>close\<close> is not exported.
\<close>

datatype world_op =
    NewOp string int "group_option list"
  | CallOp group_env group_call nat
  | DestroyOp string
  | DestroyAllOp

fun world_op_ok :: "World \<Rightarrow> world_op \<Rightarrow> bool" where
  "world_op_ok w (NewOp name bytes opts) = group_options_ok opts"
| "world_op_ok w (CallOp e x a) = (env_quiet e \<and> x \<noteq> GClose \<and> a < w_next w)"
| "world_op_ok w _ = True"

fun world_step :: "world_op \<Rightarrow> World \<Rightarrow> World option" where
  "world_step (NewOp name bytes opts) w = map_option snd (NewGroup True name bytes opts w)"
| "world_step (CallOp e x a) w = map_option snd (world_call e x a w)"
| "world_step (DestroyOp name) w = map_option snd (DestroyGroup name w)"
| "world_step DestroyAllOp w = DestroyAllGroups w"

inductive world_reach :: "World \<Rightarrow> bool" where
  world_start: "world_reach empty_world"
| world_next: "world_reach w \<Longrightarrow> world_op_ok w x \<Longrightarrow> world_step x w = Some w' \<Longrightarrow> world_reach w'"

lemma world_step_ok:
  assumes ok: "world_ok w" and x: "world_op_ok w x"
  shows "\<exists>w'. world_step x w = Some w' \<and> world_ok w'"
proof (cases x)
  case (NewOp name bytes opts)
  then show ?thesis using new_group_ok [OF ok, of opts name bytes] x by auto
next
  case (CallOp e y a)
  then show ?thesis using world_call_keeps [OF ok, of a e y] x by auto
next
  case (DestroyOp name)
  then show ?thesis using destroy_group_ok [OF ok, of name] by auto
next
  case DestroyAllOp
  then show ?thesis using destroy_all_ok [OF ok refl] by (auto simp: DestroyAllGroups_def)
qed

lemma world_reach_ok: "world_reach w \<Longrightarrow> world_ok w"
  by (induction rule: world_reach.induct) (use world_ok_empty world_step_ok in fastforce)+

text \<open>
  C14. The table holds exactly the open groups: in every state a program can reach, every further
  operation returns, a name of the table leads to an open group of that name, and every group
  that was replaced or destroyed is closed, with its cache, even where the program still holds it.
\<close>

theorem registry_holds_open_groups:
  assumes "world_reach w"
  shows "(\<forall>x. world_op_ok w x \<longrightarrow> (\<exists>w'. world_step x w = Some w'))
    \<and> (\<forall>name a. GetGroup name w = Some a \<longrightarrow> name \<in> set (ListGroups w) \<and> g_name (w_heap w a) = name \<and> \<not> g_closed (w_heap w a))
    \<and> (\<forall>a < w_next w. GetGroup (g_name (w_heap w a)) w \<noteq> Some a \<longrightarrow> g_closed (w_heap w a) \<and> c_closed (g_mainCache (w_heap w a)))
    \<and> distinct (ListGroups w)"
proof -
  note ok = world_reach_ok [OF assms]
  note d = world_okD [OF ok]
  have "\<exists>w'. world_step x w = Some w'" if "world_op_ok w x" for x using world_step_ok [OF ok that] by blast
  moreover have "name \<in> set (ListGroups w) \<and> g_name (w_heap w a) = name \<and> \<not> g_closed (w_heap w a)"
    if "GetGroup name w = Some a" for name a
  proof -
    have m: "mget (w_groups w) name = Some a" using that by (simp add: GetGroup_def)
    show ?thesis using mget_some_key [OF m] d(4) [OF m] d(6) [OF d(3) [OF m]] m by (simp add: ListGroups_def)
  qed
  moreover have "g_closed (w_heap w a) \<and> c_closed (g_mainCache (w_heap w a))"
    if "a < w_next w" "GetGroup (g_name (w_heap w a)) w \<noteq> Some a" for a
    using that(2) d(5) [OF that(1)] d(6) [OF that(1)] unfolding GetGroup_def group_idle_def by blast
  ultimately show ?thesis using d(1) by (simp add: ListGroups_def)
qed

theorem registry_holds_open_groups_witness:
  "\<exists>w w'. world_step (NewOp ''g'' 1 []) empty_world = Some w \<and> world_step (NewOp ''g'' 2 []) w = Some w'"
proof -
  have opts: "world_op_ok w (NewOp ''g'' b [])" for w b by (simp add: group_options_ok_def)
  obtain w where w: "world_step (NewOp ''g'' 1 []) empty_world = Some w"
    using conjunct1 [OF registry_holds_open_groups [OF world_start]] opts by blast
  have "world_reach w" by (rule world_next [OF world_start opts w])
  from conjunct1 [OF registry_holds_open_groups [OF this]] w opts show ?thesis by blast
qed

text \<open>
  \<open>NewGroup\<close> under a name that is taken replaces the group: the name then leads to the new,
  open group and the old one is closed; a nil data source panics.
\<close>

theorem new_group_replaces:
  assumes "world_reach w" and "group_options_ok opts"
  shows "(\<exists>a w'. NewGroup True name bytes opts w = Some (a, w') \<and> GetGroup name w' = Some a \<and> \<not> g_closed (w_heap w' a)
      \<and> (\<forall>old. GetGroup name w = Some old \<longrightarrow> g_closed (w_heap w' old))
      \<and> (\<forall>other. other \<noteq> name \<longrightarrow> GetGroup other w' = GetGroup other w))
    \<and> NewGroup False name bytes opts w = None"
proof -
  obtain w' where w': "NewGroup True name bytes opts w = Some (w_next w, w')"
      "w_groups w' = mput name (w_next w) (w_groups w)" "w_heap w' (w_next w) = make_group name bytes opts"
      "\<forall>old. GetGroup name w = Some old \<longrightarrow> g_closed (w_heap w' old)"
    using new_group_ok [OF world_reach_ok [OF assms(1)] assms(2), of name bytes] by blast
  have "GetGroup name w' = Some (w_next w)" "\<And>other. other \<noteq> name \<Longrightarrow> GetGroup other w' = GetGroup other w"
    using w'(2) by (simp_all add: GetGroup_def)
  moreover have "\<not> g_closed (w_heap w' (w_next w))"
    using fresh_idle [OF fresh_make_group [OF assms(2)], of name bytes] w'(3) by simp
  ultimately show ?thesis using w'(1,4) by (auto simp: NewGroup_def)
qed

theorem new_group_replaces_witness:
  "\<exists>a w'. NewGroup True ''g'' 1 [] empty_world = Some (a, w') \<and> GetGroup ''g'' w' = Some a"
  using new_group_replaces [OF world_start, of "[]" "''g''" 1] by (auto simp: group_options_ok_def)

subsection \<open>The byte limit\<close>

text \<open>
  The number of bytes given to \<open>NewGroup\<close> goes into the options of the default engine, LRU-2,
  which does not read it: groups that differ in it make the same store.
\<close>

lemma lru2_ignores_bytes: "newLRU2Cache (opts\<lparr>MaxBytes := b\<rparr>) = newLRU2Cache opts"
  by (simp add: newLRU2Cache_def lru2_options_def Let_def)

lemma cache_bytes_ignored:
  "c_store (initialize (g_mainCache (make_group name b []))) = c_store (initialize (g_mainCache (make_group name b' [])))"
  using lru2_ignores_bytes [of b "store_options DefaultCacheOptions"] lru2_ignores_bytes [of b' "store_options DefaultCacheOptions"]
  by (simp add: make_group_def initialize_def NewCache_def NewStore_def DefaultCacheOptions_def store_options_def)

end
