(* ===== verification/Rpc.thy ===== *)
theory Rpc
  imports Group_Registry
begin

text \<open>
  \<open>server.go\<close> and \<open>client.go\<close>: the requests a node serves and sends.  gRPC, TLS, the file
  system and HTTP are not under \<open>src/\<close>: whether a call on them succeeds is an argument, and a
  handler that returns an error reaches the client as the text \<open>wire\<close> makes of it, without the
  response.  An outer \<open>None\<close> is a panic.
\<close>

subsection \<open>Messages\<close>

record GetRequest =
  grq_Group :: string
  grq_Key :: key

record GetResponse =
  grs_Code :: int
  grs_Msg :: string
  grs_Value :: bytes

record SetRequest =
  srq_Group :: string
  srq_Key :: key
  srq_Value :: bytes

record StatusResponse =
  rs_Code :: int
  rs_Msg :: string

fun error_text :: "group_error \<Rightarrow> string" where
  "error_text ErrKeyRequired = ''key is required''"
| "error_text ErrValueRequired = ''value is required''"
| "error_text ErrGroupClosed = ''cache group is closed''"
| "error_text (LoadError e) = e"

definition not_found :: "string \<Rightarrow> string" where
  "not_found name = ''group '' @ name @ '' not found''"

subsection \<open>The handlers\<close>

type_synonym 'a handled = "('a \<times> string option) \<times> World"

text \<open>The response and the error of a \<open>Get\<close> that has returned.\<close>

fun get_response :: "group_result \<Rightarrow> (GetResponse \<times> string option) option" where
  "get_response (GView view) = Some (\<lparr>grs_Code = 0, grs_Msg = ''Get Success'', grs_Value = bv_bytes view\<rparr>, None)"
| "get_response (GError err) =
     Some (\<lparr>grs_Code = 2, grs_Msg = error_text err, grs_Value = []\<rparr>, Some (error_text err))"
| "get_response (GDone start) = None"

definition Server_Get :: "group_env \<Rightarrow> GetRequest \<Rightarrow> World \<Rightarrow> GetResponse handled option" where
  "Server_Get e req w =
     (case GetGroup (grq_Group req) w of
        None \<Rightarrow>
          let err = not_found (grq_Group req)
          in Some ((\<lparr>grs_Code = 1, grs_Msg = err, grs_Value = []\<rparr>, Some err), w)
      | Some a \<Rightarrow>
          do { (r, w) \<leftarrow> world_call e (GGet (grq_Key req)) a w;
               ans \<leftarrow> get_response r;
               Some (ans, w) })"

text \<open>
  The handlers of writes mark the context; the third component is the \<open>syncToPeers\<close> the group
  started.
\<close>

definition Server_Set :: "group_env \<Rightarrow> SetRequest \<Rightarrow> World \<Rightarrow> (StatusResponse handled \<times> sync option) option" where
  "Server_Set e req w =
     (case GetGroup (srq_Group req) w of
        None \<Rightarrow>
          let err = not_found (srq_Group req)
          in Some (((\<lparr>rs_Code = 1, rs_Msg = err\<rparr>, Some err), w), None)
      | Some a \<Rightarrow>
          do { (r, w) \<leftarrow> world_call e (GSet (srq_Key req) (srq_Value req) True) a w;
               (case r of
                  GError err \<Rightarrow> Some (((\<lparr>rs_Code = 3, rs_Msg = error_text err\<rparr>, Some (error_text err)), w), None)
                | GDone start \<Rightarrow> Some (((\<lparr>rs_Code = 0, rs_Msg = ''Set Success''\<rparr>, None), w), start)
                | GView _ \<Rightarrow> None) })"

definition Server_Delete :: "group_env \<Rightarrow> GetRequest \<Rightarrow> World \<Rightarrow> (StatusResponse handled \<times> sync option) option" where
  "Server_Delete e req w =
     (case GetGroup (grq_Group req) w of
        None \<Rightarrow>
          let err = not_found (grq_Group req)
          in Some (((\<lparr>rs_Code = 1, rs_Msg = err\<rparr>, Some err), w), None)
      | Some a \<Rightarrow>
          do { (r, w) \<leftarrow> world_call e (GDelete (grq_Key req) True) a w;
               (case r of
                  GError err \<Rightarrow> Some (((\<lparr>rs_Code = 3, rs_Msg = error_text err\<rparr>, Some (error_text err)), w), None)
                | GDone start \<Rightarrow> Some (((\<lparr>rs_Code = 0, rs_Msg = ''Delete Success''\<rparr>, None), w), start)
                | GView _ \<Rightarrow> None) })"

subsection \<open>Statistics over HTTP\<close>

datatype http_body = HttpError string | HttpStats string GroupStats | HttpAll "(string \<times> GroupStats) list" nat

text \<open>The status and the body of \<open>/stats\<close> and \<open>/stats/all\<close>; the node and the time are left out.\<close>

definition stats_handler :: "string \<Rightarrow> World \<Rightarrow> (nat \<times> http_body) option" where
  "stats_handler groupName w =
     (if groupName = [] then Some (400, HttpError ''missing query parameter: group'')
      else
        (case GetGroup groupName w of
           None \<Rightarrow> Some (404, HttpError (not_found groupName))
         | Some a \<Rightarrow> map_option (\<lambda>s. (200, HttpStats groupName s)) (group_Stats (w_heap w a))))"

fun all_stats :: "string list \<Rightarrow> World \<Rightarrow> (string \<times> GroupStats) list option" where
  "all_stats [] w = Some []"
| "all_stats (name # names) w =
     (case GetGroup name w of
        None \<Rightarrow> all_stats names w
      | Some a \<Rightarrow> do { s \<leftarrow> group_Stats (w_heap w a); ss \<leftarrow> all_stats names w; Some ((name, s) # ss) })"

definition stats_all_handler :: "World \<Rightarrow> (nat \<times> http_body) option" where
  "stats_all_handler w = map_option (\<lambda>ss. (200, HttpAll ss (length ss))) (all_stats (ListGroups w) w)"

subsection \<open>Tokens\<close>

datatype verdict = Admit | PermissionDenied string

text \<open>
  The interceptor; \<open>md\<close> is the metadata of the request, if any, as the values of the key
  \<open>authorization\<close>.
\<close>

definition tokenInterceptor :: "string \<Rightarrow> string \<Rightarrow> string list option \<Rightarrow> verdict" where
  "tokenInterceptor token fullMethod md =
     (if fullMethod = ''/grpc.health.v1.Health/Check'' then Admit
      else
        (case md of
           None \<Rightarrow> PermissionDenied ''missing metadata''
         | Some authHeader \<Rightarrow>
             if length authHeader = 0 \<or> authHeader ! 0 \<noteq> ''Bearer '' @ token
             then PermissionDenied ''invalid or missing token'' else Admit))"

text \<open>\<open>GetRequestMetadata\<close> of the client's credentials, which need no transport security.\<close>

definition GetRequestMetadata :: "string \<Rightarrow> (string, string) gomap" where
  "GetRequestMetadata token = [(''authorization'', ''Bearer '' @ token)]"

definition RequireTransportSecurity :: bool where
  "RequireTransportSecurity = False"

subsection \<open>The server\<close>

record ServerOptions =
  so_EtcdEndpoints :: "string list"
  so_DialTimeout :: int
  so_MaxMsgSize :: int
  so_StatsAddr :: string
  so_AdvertiseAddr :: string
  so_TLS :: bool
  so_CertFile :: string
  so_KeyFile :: string
  so_AuthToken :: string

definition DefaultServerOptions :: ServerOptions where
  "DefaultServerOptions = \<lparr>so_EtcdEndpoints = [''localhost:2379''], so_DialTimeout = 5 * 1000000000,
     so_MaxMsgSize = 4 * 2 ^ 20, so_StatsAddr = [], so_AdvertiseAddr = [], so_TLS = False,
     so_CertFile = [], so_KeyFile = [], so_AuthToken = []\<rparr>"

datatype server_option =
    WithEtcdEndpoints "string list"
  | WithDialTimeout int
  | WithStatsAddr string
  | WithAdvertiseAddr string
  | WithTLS string string
  | WithServerAuthToken string

fun apply_server_option :: "server_option \<Rightarrow> ServerOptions \<Rightarrow> ServerOptions" where
  "apply_server_option (WithEtcdEndpoints eps) o' = o'\<lparr>so_EtcdEndpoints := eps\<rparr>"
| "apply_server_option (WithDialTimeout t) o' = o'\<lparr>so_DialTimeout := t\<rparr>"
| "apply_server_option (WithStatsAddr a) o' = o'\<lparr>so_StatsAddr := a\<rparr>"
| "apply_server_option (WithAdvertiseAddr a) o' = o'\<lparr>so_AdvertiseAddr := a\<rparr>"
| "apply_server_option (WithTLS c k) o' = o'\<lparr>so_TLS := True, so_CertFile := c, so_KeyFile := k\<rparr>"
| "apply_server_option (WithServerAuthToken t) o' = o'\<lparr>so_AuthToken := t\<rparr>"

text \<open>
  A server: whether an interceptor checks tokens and with which token, whether it speaks TLS,
  and the state of the parts that \<open>Stop\<close> ends.
\<close>

record Server =
  sv_addr :: string
  sv_svcName :: string
  sv_opts :: ServerOptions
  sv_token :: "string option"
  sv_tls :: bool
  sv_stopCh_closed :: bool
  sv_stats_running :: bool
  sv_grpc_stopped :: bool
  sv_etcd_closed :: bool

datatype server_error = NoServerEtcd | NoServerTLS

text \<open>The certificate pair the server presents; \<open>cert\<close> says whether the files hold one.\<close>

definition loadTLSCredentials :: "(string \<Rightarrow> string \<Rightarrow> bool) \<Rightarrow> string \<Rightarrow> string \<Rightarrow> (string \<times> string) option" where
  "loadTLSCredentials cert certFile keyFile = (if cert certFile keyFile then Some (certFile, keyFile) else None)"

text \<open>
  The result, and whether an etcd client was made that nobody closed; \<open>etcd\<close> and \<open>cert\<close> say
  whether the client and the certificate pair load.
\<close>

definition NewServer ::
    "string \<Rightarrow> string \<Rightarrow> server_option list \<Rightarrow> bool \<Rightarrow> (string \<Rightarrow> string \<Rightarrow> bool) \<Rightarrow> (server_error + Server) \<times> bool" where
  "NewServer addr svcName opts etcd cert =
     (let options = fold apply_server_option opts DefaultServerOptions
      in if \<not> etcd then (Inl NoServerEtcd, False)
         else
           let token = (if so_AuthToken options \<noteq> [] then Some (so_AuthToken options) else None)
           in if so_TLS options \<and> loadTLSCredentials cert (so_CertFile options) (so_KeyFile options) = None
              then (Inl NoServerTLS, True)
              else (Inr \<lparr>sv_addr = addr, sv_svcName = svcName, sv_opts = options, sv_token = token,
                         sv_tls = so_TLS options, sv_stopCh_closed = False, sv_stats_running = False,
                         sv_grpc_stopped = False, sv_etcd_closed = False\<rparr>, True))"

text \<open>\<open>Start\<close> up to \<open>Serve\<close>; \<open>listens\<close> says whether \<open>net.Listen\<close> succeeds.\<close>

definition Server_Start :: "bool \<Rightarrow> Server \<Rightarrow> bool \<times> Server" where
  "Server_Start listens s =
     (if \<not> listens then (False, s)
      else (True, if so_StatsAddr (sv_opts s) \<noteq> [] then s\<lparr>sv_stats_running := True\<rparr> else s))"

text \<open>Closing the closed channel \<open>stopCh\<close> panics.\<close>

definition Server_Stop :: "Server \<Rightarrow> Server option" where
  "Server_Stop s =
     (if sv_stopCh_closed s then None
      else Some (s\<lparr>sv_stopCh_closed := True, sv_stats_running := False, sv_grpc_stopped := True, sv_etcd_closed := True\<rparr>))"

text \<open>
  What a server does with a request before its handler: \<open>NewServer\<close> installs the check of the
  token as a unary interceptor and no stream interceptor, so that a streaming method, of which
  the registered health service has one (\<open>Watch\<close>), is not checked.
\<close>

datatype rpc_kind = Unary | Streaming

definition server_admits :: "Server \<Rightarrow> rpc_kind \<Rightarrow> string \<Rightarrow> string list option \<Rightarrow> verdict" where
  "server_admits s kind fullMethod md =
     (case sv_token s of
        None \<Rightarrow> Admit
      | Some token \<Rightarrow> (case kind of Unary \<Rightarrow> tokenInterceptor token fullMethod md | Streaming \<Rightarrow> Admit))"

subsection \<open>The client\<close>

record ClientOptions =
  clo_TLS :: bool
  clo_CACertFile :: string
  clo_ServerName :: string
  clo_InsecureSkipVerify :: bool
  clo_AuthToken :: string

datatype client_option = WithClientTLS string string bool | WithClientAuthToken string

fun apply_client_option :: "client_option \<Rightarrow> ClientOptions \<Rightarrow> ClientOptions" where
  "apply_client_option (WithClientTLS ca name skip) o' =
     o'\<lparr>clo_TLS := True, clo_CACertFile := ca, clo_ServerName := name, clo_InsecureSkipVerify := skip\<rparr>"
| "apply_client_option (WithClientAuthToken t) o' = o'\<lparr>clo_AuthToken := t\<rparr>"

record tls_config =
  tc_ServerName :: string
  tc_InsecureSkipVerify :: bool
  tc_RootCAs :: "string option"

text \<open>\<open>file\<close> reads a file; \<open>pem\<close> says whether its text holds a certificate.\<close>

definition loadClientTLSCredentials :: "(string \<Rightarrow> string option) \<Rightarrow> (string \<Rightarrow> bool) \<Rightarrow> ClientOptions \<Rightarrow> tls_config option" where
  "loadClientTLSCredentials file pem opts =
     (let cfg = \<lparr>tc_ServerName = clo_ServerName opts, tc_InsecureSkipVerify = clo_InsecureSkipVerify opts, tc_RootCAs = None\<rparr>
      in if clo_CACertFile opts \<noteq> [] then
           (case file (clo_CACertFile opts) of
              None \<Rightarrow> None
            | Some text \<Rightarrow> if \<not> pem text then None else Some (cfg\<lparr>tc_RootCAs := Some text\<rparr>))
         else Some cfg)"

record Client =
  cl_addr :: string
  cl_svcName :: string
  cl_ownsEtcdCli :: bool
  cl_tls :: "tls_config option"
  cl_token :: "string option"

datatype client_error = NoClientEtcd | NoClientTLS | NoDial

text \<open>What the calls outside answer: etcd's client, the files, and the dial.\<close>

record client_env =
  ce_etcd :: bool
  ce_file :: "string \<Rightarrow> string option"
  ce_pem :: "string \<Rightarrow> bool"
  ce_dial :: bool

text \<open>
  \<open>given\<close> says whether an etcd client is passed in; the second component is how often an etcd
  client of its own was closed.
\<close>

definition NewClient :: "string \<Rightarrow> string \<Rightarrow> bool \<Rightarrow> client_option list \<Rightarrow> client_env \<Rightarrow> (client_error + Client) \<times> nat" where
  "NewClient addr svcName given opts e =
     (if \<not> given \<and> \<not> ce_etcd e then (Inl NoClientEtcd, 0)
      else
        let owns = \<not> given;
            o' = fold apply_client_option opts
                   \<lparr>clo_TLS = False, clo_CACertFile = [], clo_ServerName = [], clo_InsecureSkipVerify = False, clo_AuthToken = []\<rparr>;
            creds = loadClientTLSCredentials (ce_file e) (ce_pem e) o';
            closed = (if owns then 1 else 0)
        in if clo_TLS o' \<and> creds = None then (Inl NoClientTLS, closed)
           else if \<not> ce_dial e then (Inl NoDial, closed)
           else (Inr \<lparr>cl_addr = addr, cl_svcName = svcName, cl_ownsEtcdCli = owns,
                      cl_tls = (if clo_TLS o' then creds else None),
                      cl_token = (if clo_AuthToken o' \<noteq> [] then Some (clo_AuthToken o') else None)\<rparr>, 0))"

text \<open>The values of \<open>authorization\<close> in the metadata of a client's requests.\<close>

definition client_metadata :: "Client \<Rightarrow> string list" where
  "client_metadata c =
     (case cl_token c of
        None \<Rightarrow> []
      | Some t \<Rightarrow> map snd (filter (\<lambda>(k, v). k = ''authorization'') (GetRequestMetadata t)))"

text \<open>What the client makes of the answer of a call: an error, or a response.\<close>

definition Client_Get :: "string + GetResponse \<Rightarrow> string + bytes" where
  "Client_Get r =
     (case r of
        Inl err \<Rightarrow> Inl (''failed to get value from reachcache: '' @ err)
      | Inr resp \<Rightarrow> Inr (grs_Value resp))"

definition Client_Delete :: "string + StatusResponse \<Rightarrow> bool \<times> string option" where
  "Client_Delete r =
     (case r of
        Inl err \<Rightarrow> (False, Some (''failed to delete value from reachcache: '' @ err))
      | Inr resp \<Rightarrow>
          if rs_Code resp \<noteq> 0 then (False, Some (''delete failed: '' @ rs_Msg resp)) else (True, None))"

definition Client_Set :: "string + StatusResponse \<Rightarrow> string option" where
  "Client_Set r =
     (case r of
        Inl err \<Rightarrow> Some (''failed to set value to reachcache: '' @ err)
      | Inr resp \<Rightarrow> if rs_Code resp \<noteq> 0 then Some (''set failed: '' @ rs_Msg resp) else None)"

text \<open>
  \<open>Close\<close>, from the errors of closing the connection and the etcd client: the error returned and
  whether the etcd client was closed.
\<close>

definition Client_Close :: "string option \<Rightarrow> string option \<Rightarrow> Client \<Rightarrow> string option \<times> bool" where
  "Client_Close conn_err etcd_err c =
     (if cl_ownsEtcdCli c
      then (case conn_err of Some err \<Rightarrow> Some err | None \<Rightarrow> etcd_err, True)
      else (conn_err, False))"

text \<open>A handler's answer as the client's library delivers it.\<close>

definition deliver :: "(string \<Rightarrow> string) \<Rightarrow> 'a \<times> string option \<Rightarrow> string + 'a" where
  "deliver wire r = (case snd r of Some err \<Rightarrow> Inl (wire err) | None \<Rightarrow> Inr (fst r))"

end
