(* ===== verification/Rpc_Props.thy ===== *)
theory Rpc_Props
  imports Rpc Group_Registry_Props
begin

text \<open>
  The properties of \<open>server.go\<close> and \<open>client.go\<close>: a remote read is a read of the other node's
  group, a write that arrives is not passed on, a token admits exactly its holders, and what
  constructors and \<open>Close\<close> do with the etcd clients they own.
\<close>

subsection \<open>Requests\<close>

lemma group_view_result:
  assumes "group_idle g" and "env_quiet e"
  shows "\<exists>r g'. group_do e (GGet k) g = Some (r, g') \<and> (\<forall>s. r \<noteq> GDone s)"
proof -
  obtain r g' where r: "read_through e k g = Some (r, g')" using read_through_kept [OF assms] by blast
  then have "\<forall>s. r \<noteq> GDone s"
    by (auto simp: read_through_def Let_def case_prod_beta
        split: if_splits option.splits prod.splits result.splits)
  then show ?thesis using r group_do_get [OF assms] by simp
qed

lemma server_get_answer:
  assumes "world_ok w" and "env_quiet e"
  shows "\<exists>ans w'. Server_Get e \<lparr>grq_Group = name, grq_Key = k\<rparr> w = Some (ans, w') \<and> world_ok w'
    \<and> Client_Get (deliver wire ans) =
       (case GetGroup name w of
          None \<Rightarrow> Inl (''failed to get value from reachcache: '' @ wire (not_found name))
        | Some a \<Rightarrow>
            (case group_do e (GGet k) (w_heap w a) of
               Some (GView v, _) \<Rightarrow> Inr (bv_bytes v)
             | Some (GError err, _) \<Rightarrow> Inl (''failed to get value from reachcache: '' @ wire (error_text err))
             | _ \<Rightarrow> Inl []))"
proof (cases "GetGroup name w")
  case None
  then show ?thesis using assms(1) by (simp add: Server_Get_def Let_def deliver_def Client_Get_def)
next
  case (Some a)
  then have a: "a < w_next w" using world_okD(3) [OF assms(1)] by (simp add: GetGroup_def)
  obtain r g' where r: "group_do e (GGet k) (w_heap w a) = Some (r, g')" "\<And>s. r \<noteq> GDone s"
    using group_view_result [OF world_okD(5) [OF assms(1) a] assms(2)] by blast
  obtain w' where w': "world_call e (GGet k) a w = Some (r, w')" "world_ok w'"
    using world_call_keeps [OF assms(1) a assms(2), of "GGet k"] r(1) by (auto simp: world_call_def)
  show ?thesis
    using Some r w' by (cases r) (auto simp: Server_Get_def deliver_def Client_Get_def)
qed

text \<open>
  A remote read: what a client gets for a key from a node is what \<open>Get\<close> of that node's group
  answers, as bytes or as an error that carries its text, and an error when the node has no such
  group; the request leaves the node's table well formed.
\<close>

theorem remote_get:
  assumes "world_ok w" and "env_quiet e"
  shows "\<exists>ans w'. Server_Get e \<lparr>grq_Group = name, grq_Key = k\<rparr> w = Some (ans, w') \<and> world_ok w'
    \<and> Client_Get (deliver wire ans) =
       (case GetGroup name w of
          None \<Rightarrow> Inl (''failed to get value from reachcache: '' @ wire (not_found name))
        | Some a \<Rightarrow>
            (case group_do e (GGet k) (w_heap w a) of
               Some (GView v, _) \<Rightarrow> Inr (bv_bytes v)
             | Some (GError err, _) \<Rightarrow> Inl (''failed to get value from reachcache: '' @ wire (error_text err))
             | _ \<Rightarrow> Inl []))"
  by (rule server_get_answer [OF assms])

theorem remote_get_witness:
  "\<exists>ans. Server_Get idle_env \<lparr>grq_Group = ''h'', grq_Key = ''k''\<rparr> empty_world = Some (ans, empty_world)
     \<and> Client_Get (deliver (\<lambda>s. s) ans) = Inl ''failed to get value from reachcache: group h not found''"
proof -
  have none: "GetGroup ''h'' empty_world = None" by (simp add: GetGroup_def empty_world_def)
  obtain ans w' where a: "Server_Get idle_env \<lparr>grq_Group = ''h'', grq_Key = ''k''\<rparr> empty_world = Some (ans, w')"
      "Client_Get (deliver (\<lambda>s. s) ans) = Inl (''failed to get value from reachcache: '' @ not_found ''h'')"
    using remote_get [OF world_ok_empty idle_env_quiet, of "''h''" "''k''" "\<lambda>s. s"] none by auto
  then have "w' = empty_world" using none by (simp add: Server_Get_def Let_def)
  with a show ?thesis by (simp add: not_found_def)
qed

text \<open>
  A read across two nodes: when the group of this node misses and the picker finds the other
  node, the answer is what \<open>Get\<close> of the group of the same name answers there, and the answer of
  this node's own data source when the other node has no such group or answers with an error.
\<close>

theorem cluster_get:
  assumes "group_idle g" and "env_quiet e" and "\<not> g_closed g" and "k \<noteq> []" and "g_peers g"
    and "cache_call (CGet (ge_clk e) k) (g_mainCache g) = Some (RGet view False, c)"
    and "le_pick (ge_load e) k = (Some p, True, False)"
    and "world_ok w" and "env_quiet e'" and "Server_Get e' \<lparr>grq_Group = g_name g, grq_Key = k\<rparr> w = Some (ans, w')"
    and "le_peer (ge_load e) p (g_name g) k = Client_Get (deliver wire ans)"
  shows "\<exists>g'. group_do e (GGet k) g = Some
    (case GetGroup (g_name g) w of
       None \<Rightarrow> source_answer (ge_load e) k
     | Some a \<Rightarrow>
         (case group_do e' (GGet k) (w_heap w a) of
            Some (GView v, _) \<Rightarrow> GView v
          | _ \<Rightarrow> source_answer (ge_load e) k), g')"
proof -
  note remote = server_get_answer [OF assms(8,9), of "g_name g" k wire, unfolded assms(10)]
  have "load_answer (ge_load e) g k =
    (case GetGroup (g_name g) w of None \<Rightarrow> source_answer (ge_load e) k
     | Some a \<Rightarrow> (case group_do e' (GGet k) (w_heap w a) of Some (GView v, _) \<Rightarrow> GView v | _ \<Rightarrow> source_answer (ge_load e) k))"
  proof (cases "GetGroup (g_name g) w")
    case None
    then show ?thesis using remote assms(5,7,11) by (auto simp: load_answer_def)
  next
    case (Some a)
    then have a: "a < w_next w" using world_okD(3) [OF assms(8)] by (simp add: GetGroup_def)
    obtain r g' where "group_do e' (GGet k) (w_heap w a) = Some (r, g')" "\<And>s. r \<noteq> GDone s"
      using group_view_result [OF world_okD(5) [OF assms(8) a] assms(9)] by blast
    then show ?thesis using Some remote assms(5,7,11) by (cases r) (auto simp: load_answer_def)
  qed
  then show ?thesis using miss_answer [OF assms(1-4,6)] by metis
qed

text \<open>Two nodes: this one with peers, the other with a data source that answers 5.\<close>

definition answering :: "bytes \<Rightarrow> group_env" where
  "answering b = idle_env\<lparr>ge_load := (ge_load idle_env)\<lparr>le_getter := \<lambda>_. GetterReturn b None\<rparr>\<rparr>"

definition asking :: "string + bytes \<Rightarrow> group_env" where
  "asking r = idle_env\<lparr>ge_load := (ge_load idle_env)\<lparr>le_pick := \<lambda>_. (Some 7, True, False), le_peer := \<lambda>_ _ _. r\<rparr>\<rparr>"

lemma two_envs_quiet: "env_quiet (answering b)" "env_quiet (asking r)"
  by (auto simp: env_quiet_def answering_def asking_def idle_env_def)

lemma fresh_miss_peers:
  "cache_call (CGet t k) (g_mainCache (make_group n b [WithPeers True]))
    = Some (RGet empty_view False, (g_mainCache (make_group n b []))\<lparr>c_misses := 1\<rparr>)"
  using fresh_get_misses [of t k n b] by (simp add: make_group_def)

theorem cluster_get_witness:
  "\<exists>w ans w' g'. Server_Get (answering [5]) \<lparr>grq_Group = ''g'', grq_Key = ''k''\<rparr> w = Some (ans, w')
     \<and> group_do (asking (Client_Get (deliver (\<lambda>s. s) ans))) (GGet ''k'') (make_group ''g'' 1 [WithPeers True])
        = Some (GView (ByteView [5]), g')"
proof -
  let ?B = "make_group ''g'' 1 []" and ?A = "make_group ''g'' 1 [WithPeers True]"
  obtain w where w: "world_ok w" "w_groups w = mput ''g'' 0 []" "w_heap w 0 = ?B"
    using new_group_ok [OF world_ok_empty, of "[]" "''g''" 1] by (auto simp: group_options_ok_def empty_world_def)
  have B: "group_idle ?B" "\<not> g_closed ?B" using fresh_idle [OF fresh_default] by simp_all
  have k: "''k'' \<noteq> []" by simp
  have "load_answer (ge_load (answering [5])) ?B ''k'' = GView (ByteView [5])"
    by (simp add: load_answer_def source_answer_def answering_def make_group_def)
  then obtain g1 where g1: "group_do (answering [5]) (GGet ''k'') ?B = Some (GView (ByteView [5]), g1)"
    using miss_answer [OF B(1) two_envs_quiet(1) [of "[5]"] B(2) k fresh_get_misses] by auto
  obtain ans w' where ans: "Server_Get (answering [5]) \<lparr>grq_Group = ''g'', grq_Key = ''k''\<rparr> w = Some (ans, w')"
    using server_get_answer [OF w(1) two_envs_quiet(1)] by blast
  let ?e = "asking (Client_Get (deliver (\<lambda>s. s) ans))"
  have A: "group_idle ?A" "\<not> g_closed ?A" "g_name ?A = ''g''" using fresh_idle [OF fresh_make_group] by (simp_all add: group_options_ok_def)
  have pick: "g_peers ?A" "le_pick (ge_load ?e) ''k'' = (Some 7, True, False)"
      "le_peer (ge_load ?e) 7 (g_name ?A) ''k'' = Client_Get (deliver (\<lambda>s. s) ans)"
    by (simp_all add: make_group_def asking_def)
  have table: "GetGroup (g_name ?A) w = Some 0" using w(2) A(3) by (simp add: GetGroup_def)
  have ans': "Server_Get (answering [5]) \<lparr>grq_Group = g_name ?A, grq_Key = ''k''\<rparr> w = Some (ans, w')"
    unfolding A(3) by (rule ans)
  have "\<exists>g'. group_do ?e (GGet ''k'') ?A = Some (GView (ByteView [5]), g')"
    using cluster_get [OF A(1) two_envs_quiet(2) A(2) k pick(1) fresh_miss_peers pick(2) w(1) two_envs_quiet(1)
        ans' pick(3)] table w(3) g1 by simp
  with ans show ?thesis by blast
qed

text \<open>
  C34. A write that arrives from another node ends there: the handlers of \<open>Set\<close> and \<open>Delete\<close>
  always return, start no \<open>syncToPeers\<close>, and answer code 0 exactly when they return no error.
\<close>

theorem write_stops_at_peer:
  assumes "world_ok w" and "env_quiet e"
  shows "(\<exists>resp err w'. Server_Set e sreq w = Some (((resp, err), w'), None) \<and> (rs_Code resp = 0 \<longleftrightarrow> err = None) \<and> world_ok w')
    \<and> (\<exists>resp err w'. Server_Delete e dreq w = Some (((resp, err), w'), None) \<and> (rs_Code resp = 0 \<longleftrightarrow> err = None) \<and> world_ok w')"
proof -
  have quiet: "group_do e x g = Some (r, g') \<Longrightarrow> x = GSet k v True \<or> x = GDelete k True \<Longrightarrow> group_idle g
      \<Longrightarrow> (\<exists>err. r = GError err) \<or> r = GDone None" for x g r g' k v
    by (auto simp: group_do_set group_do_delete cache_then_def started_def split: if_splits)
  have call: "\<exists>r w'. world_call e x a w = Some (r, w') \<and> world_ok w' \<and> ((\<exists>err. r = GError err) \<or> r = GDone None)"
    if "GetGroup name w = Some a" "x = GSet k v True \<or> x = GDelete k True" for x name a k v
  proof -
    have a: "a < w_next w" using that(1) world_okD(3) [OF assms(1)] by (simp add: GetGroup_def)
    have "x \<noteq> GClose" using that(2) by auto
    from world_call_keeps [OF assms(1) a assms(2) this] obtain r w' where
      r: "world_call e x a w = Some (r, w')" "world_ok w'" by blast
    then obtain g' where "group_do e x (w_heap w a) = Some (r, g')"
      by (auto simp: world_call_def split: Option.bind_splits)
    with quiet [OF this that(2) world_okD(5) [OF assms(1) a]] r show ?thesis by blast
  qed
  have 1: "\<exists>resp err w'. Server_Set e sreq w = Some (((resp, err), w'), None) \<and> (rs_Code resp = 0 \<longleftrightarrow> err = None) \<and> world_ok w'"
  proof (cases "GetGroup (srq_Group sreq) w")
    case None
    then show ?thesis using assms(1) by (simp add: Server_Set_def Let_def)
  next
    case (Some a)
    from call [OF Some, of "GSet (srq_Key sreq) (srq_Value sreq) True"] Some show ?thesis
      by (auto simp: Server_Set_def)
  qed
  have 2: "\<exists>resp err w'. Server_Delete e dreq w = Some (((resp, err), w'), None) \<and> (rs_Code resp = 0 \<longleftrightarrow> err = None) \<and> world_ok w'"
  proof (cases "GetGroup (grq_Group dreq) w")
    case None
    then show ?thesis using assms(1) by (simp add: Server_Delete_def Let_def)
  next
    case (Some a)
    from call [OF Some, of "GDelete (grq_Key dreq) True"] Some show ?thesis
      by (auto simp: Server_Delete_def)
  qed
  from 1 2 show ?thesis ..
qed

theorem write_stops_at_peer_witness:
  "\<exists>resp err w'. Server_Set idle_env \<lparr>srq_Group = ''g'', srq_Key = ''k'', srq_Value = []\<rparr> empty_world = Some (((resp, err), w'), None)
     \<and> (rs_Code resp = 0 \<longleftrightarrow> err = None)"
  using write_stops_at_peer [OF world_ok_empty idle_env_quiet] by blast

subsection \<open>Tokens\<close>

text \<open>
  C37. A server that was given a token admits a unary call, apart from the health check, exactly
  if the client was made with the same token; a server that was given none admits every call.
  The token is checked for unary calls only: the health check and every streaming call, such as
  \<open>/grpc.health.v1.Health/Watch\<close>, is admitted with any metadata or none.
\<close>

theorem token_admits_holders:
  assumes "fst (NewServer addr svc sopts True cert) = Inr s" and "fst (NewClient caddr csvc given copts e) = Inr c"
  shows "(\<forall>meth. meth \<noteq> ''/grpc.health.v1.Health/Check'' \<longrightarrow>
      (server_admits s Unary meth (Some (client_metadata c)) = Admit \<longleftrightarrow> sv_token s = None \<or> cl_token c = sv_token s))
    \<and> (\<forall>md. server_admits s Unary ''/grpc.health.v1.Health/Check'' md = Admit)
    \<and> (\<forall>meth md. server_admits s Streaming meth md = Admit)
    \<and> (sv_token s = None \<longleftrightarrow> so_AuthToken (fold apply_server_option sopts DefaultServerOptions) = [])"
proof (intro conjI allI impI)
  show "server_admits s Unary meth (Some (client_metadata c)) = Admit \<longleftrightarrow> (sv_token s = None \<or> cl_token c = sv_token s)"
    if "meth \<noteq> ''/grpc.health.v1.Health/Check''" for meth
    using that
    by (auto simp: server_admits_def tokenInterceptor_def client_metadata_def GetRequestMetadata_def split: option.splits if_splits)
  show "server_admits s Unary ''/grpc.health.v1.Health/Check'' md = Admit" for md
    by (simp add: server_admits_def tokenInterceptor_def split: option.split)
  show "server_admits s Streaming meth md = Admit" for meth md
    by (simp add: server_admits_def split: option.split)
  show "sv_token s = None \<longleftrightarrow> so_AuthToken (fold apply_server_option sopts DefaultServerOptions) = []"
    using assms(1) by (auto simp: NewServer_def Let_def split: if_splits)
qed

theorem token_admits_holders_witness:
  "\<exists>s c c'. fst (NewServer ''a'' ''svc'' [WithServerAuthToken ''t''] True (\<lambda>_ _. True)) = Inr s
     \<and> server_admits s Unary ''/proto.ReachCache/Get'' (Some (client_metadata c)) \<noteq> Admit
     \<and> server_admits s Unary ''/proto.ReachCache/Get'' (Some (client_metadata c')) = Admit
     \<and> server_admits s Streaming ''/grpc.health.v1.Health/Watch'' None = Admit"
proof -
  let ?e = "\<lparr>ce_etcd = True, ce_file = (\<lambda>_. None), ce_pem = (\<lambda>_. True), ce_dial = True\<rparr>"
  obtain s where s: "fst (NewServer ''a'' ''svc'' [WithServerAuthToken ''t''] True (\<lambda>_ _. True)) = Inr s" "sv_token s = Some ''t''"
    by (simp add: NewServer_def DefaultServerOptions_def Let_def)
  obtain c where c: "fst (NewClient ''b'' ''svc'' True [] ?e) = Inr c" "cl_token c = None"
    by (simp add: NewClient_def Let_def)
  obtain c' where c': "fst (NewClient ''b'' ''svc'' True [WithClientAuthToken ''t''] ?e) = Inr c'" "cl_token c' = Some ''t''"
    by (simp add: NewClient_def Let_def)
  have m: "''/proto.ReachCache/Get'' \<noteq> ''/grpc.health.v1.Health/Check''" by simp
  note p = token_admits_holders [OF s(1) c(1)] and p' = token_admits_holders [OF s(1) c'(1)]
  have "server_admits s Unary ''/proto.ReachCache/Get'' (Some (client_metadata c)) \<noteq> Admit"
    using p m c(2) s(2) by (metis option.distinct(1))
  moreover have "server_admits s Unary ''/proto.ReachCache/Get'' (Some (client_metadata c')) = Admit"
    using p' m c'(2) s(2) by metis
  ultimately show ?thesis using p s(1) by blast
qed

subsection \<open>Resources\<close>

text \<open>
  A client owns the etcd client it made and only that: a failed \<open>NewClient\<close> closes the one it
  made exactly once and never one it was given, and \<open>Close\<close> of a client closes etcd exactly when
  the client made it, also when closing the connection fails.
\<close>

theorem client_owns_etcd:
  "(\<forall>err. fst (NewClient addr svc given opts e) = Inl err \<longrightarrow>
      snd (NewClient addr svc given opts e) = (if given \<or> \<not> ce_etcd e then 0 else 1))
   \<and> (\<forall>c. fst (NewClient addr svc given opts e) = Inr c \<longrightarrow>
      snd (NewClient addr svc given opts e) = 0
      \<and> (\<forall>conn_err etcd_err. snd (Client_Close conn_err etcd_err c) = (\<not> given)
           \<and> (conn_err \<noteq> None \<longrightarrow> fst (Client_Close conn_err etcd_err c) = conn_err)))"
  by (auto simp: NewClient_def Let_def Client_Close_def split: if_splits)

theorem client_owns_etcd_witness:
  "snd (NewClient ''b'' ''svc'' False [] \<lparr>ce_etcd = True, ce_file = (\<lambda>_. None), ce_pem = (\<lambda>_. True), ce_dial = False\<rparr>) = 1"
proof -
  let ?e = "\<lparr>ce_etcd = True, ce_file = (\<lambda>_. None), ce_pem = (\<lambda>_. True), ce_dial = False\<rparr>"
  have "fst (NewClient ''b'' ''svc'' False [] ?e) = Inl NoDial" by (simp add: NewClient_def Let_def)
  with conjunct1 [OF client_owns_etcd [of "''b''" "''svc''" False "[]" ?e]] show ?thesis by simp
qed

text \<open>
  A server that fails to load its certificate leaves the etcd client it made open, and a second
  \<open>Stop\<close> panics.
\<close>

lemma new_server_leaks_etcd:
  "\<not> cert c k \<Longrightarrow> NewServer addr svc [WithTLS c k] True cert = (Inl NoServerTLS, True)"
  by (simp add: NewServer_def loadTLSCredentials_def Let_def)

lemma second_stop_panics:
  "fst (NewServer addr svc opts etcd cert) = Inr s \<Longrightarrow> \<exists>s'. Server_Stop s = Some s' \<and> sv_etcd_closed s' \<and> Server_Stop s' = None"
  by (auto simp: NewServer_def Server_Stop_def Let_def split: if_splits)

subsection \<open>Statistics\<close>

lemma group_stats_total:
  assumes "group_idle g"
  shows "\<exists>s. group_Stats g = Some s \<and> st_name s = g_name g"
proof -
  have "cache_inv (g_mainCache g)" using assms by (simp add: group_idle_def)
  then obtain r c where "cache_call CLen (g_mainCache g) = Some (r, c)" using cache_total by metis
  then have "\<exists>cs. Cache_Stats (g_mainCache g) = Some cs" by (simp add: Cache_Stats_def Let_def)
  then show ?thesis by (auto simp: group_Stats_def Let_def)
qed

text \<open>
  The statistics endpoints never panic: \<open>/stats\<close> answers 400 without a name, 404 for a name
  that is not in the table, and else 200 with the statistics of that group; \<open>/stats/all\<close> answers
  with one entry for each group of the table, under its name.
\<close>

theorem stats_endpoints:
  assumes "world_ok w"
  shows "(\<exists>body. stats_handler name w = Some (if name = [] then 400 else if GetGroup name w = None then 404 else 200, body))
    \<and> (\<exists>ss. stats_all_handler w = Some (200, HttpAll ss (length ss)) \<and> map fst ss = ListGroups w
         \<and> (\<forall>(n, s) \<in> set ss. st_name s = n))"
proof -
  have total: "\<exists>s. group_Stats (w_heap w a) = Some s \<and> st_name s = n" if "GetGroup n w = Some a" for n a
  proof -
    have m: "mget (w_groups w) n = Some a" using that by (simp add: GetGroup_def)
    show ?thesis
      using group_stats_total [OF world_okD(5) [OF assms world_okD(3) [OF assms m]]] world_okD(4) [OF assms m] by simp
  qed
  have one: "\<exists>body. stats_handler name w = Some (if name = [] then 400 else if GetGroup name w = None then 404 else 200, body)"
    using total by (fastforce simp: stats_handler_def split: option.split)
  have "\<exists>ss. all_stats names w = Some ss \<and> map fst ss = names \<and> (\<forall>(n, s) \<in> set ss. st_name s = n)"
    if "set names \<subseteq> set (ListGroups w)" for names
    using that
  proof (induction names)
    case (Cons n names)
    from Cons.prems obtain a where a: "GetGroup n w = Some a"
      by (auto simp: ListGroups_def GetGroup_def) (metis map_of_eq_None_iff not_None_eq image_eqI fst_conv)
    from total [OF a] Cons a show ?case by fastforce
  qed simp
  from this [of "ListGroups w"] one show ?thesis by (auto simp: stats_all_handler_def)
qed

theorem stats_endpoints_witness:
  "\<exists>body. stats_handler ''g'' empty_world = Some (404, body)"
proof -
  have "GetGroup ''g'' empty_world = None" by (simp add: GetGroup_def empty_world_def)
  with conjunct1 [OF stats_endpoints [OF world_ok_empty, of "''g''"]] show ?thesis by simp
qed

end
