(* ===== verification/Cluster.thy ===== *)
theory Cluster
  imports Rpc Cache_Group_Inv
begin

text \<open>
  The nodes of a cluster together: every node runs the calls of its group of one name
  (\<open>group.go\<close>), and the peer call inside a load is no longer an answer of the environment but a
  request that the other node's \<open>Server.Get\<close> (\<open>server.go\<close>) serves with a \<open>Get\<close> of its own, while
  \<open>Client.Get\<close> (\<open>client.go\<close>) waits for the response or for its timeout.  A peer is the number of
  its node.  The picker of a node is the function \<open>pick\<close>; the data source, the clocks and the
  moments at which anything happens are free.
\<close>

subsection \<open>State\<close>

text \<open>
  \<open>cl_request n i\<close> is the thread, on another node, that serves the request which thread \<open>i\<close> of
  node \<open>n\<close> waits for;  \<open>cl_syncs n\<close> are the goroutines \<open>syncToPeers\<close> that run on node \<open>n\<close>.
\<close>

record Cluster =
  cl_group :: "nat \<Rightarrow> Group"
  cl_threads :: "nat \<Rightarrow> nat \<Rightarrow> (group_call \<times> group_pc) option"
  cl_request :: "nat \<Rightarrow> nat \<Rightarrow> (nat \<times> nat) option"
  cl_syncs :: "nat \<Rightarrow> sync list"

type_synonym cluster_pick = "nat \<Rightarrow> key \<Rightarrow> nat option \<times> bool \<times> bool"

definition set_group :: "nat \<Rightarrow> Group \<Rightarrow> Cluster \<Rightarrow> Cluster" where
  "set_group n g s = s\<lparr>cl_group := (cl_group s)(n := g)\<rparr>"

definition set_thread :: "nat \<Rightarrow> nat \<Rightarrow> (group_call \<times> group_pc) option \<Rightarrow> Cluster \<Rightarrow> Cluster" where
  "set_thread n i t s = s\<lparr>cl_threads := (cl_threads s)(n := (cl_threads s n)(i := t))\<rparr>"

definition set_request :: "nat \<Rightarrow> nat \<Rightarrow> (nat \<times> nat) option \<Rightarrow> Cluster \<Rightarrow> Cluster" where
  "set_request n i r s = s\<lparr>cl_request := (cl_request s)(n := (cl_request s n)(i := r))\<rparr>"

definition set_syncs :: "nat \<Rightarrow> sync list \<Rightarrow> Cluster \<Rightarrow> Cluster" where
  "set_syncs n ys s = s\<lparr>cl_syncs := (cl_syncs s)(n := ys)\<rparr>"

text \<open>The goroutine that a finished call has started.\<close>

fun left_behind :: "group_pc \<Rightarrow> sync list" where
  "left_behind (GReturn (GDone (Some y))) = [y]"
| "left_behind _ = []"

text \<open>The call with which a node serves a write of another; the handlers mark its context.\<close>

fun served_write :: "peer_request \<Rightarrow> nat \<times> group_call" where
  "served_write (PeerSet m name k v) = (m, GSet k v True)"
| "served_write (PeerDelete m name k) = (m, GDelete k True)"

text \<open>The node that \<open>loadData\<close> asks for a key, if it asks one.\<close>

definition forwards :: "cluster_pick \<Rightarrow> nat \<Rightarrow> Group \<Rightarrow> key \<Rightarrow> nat option" where
  "forwards pick n g k =
     (if g_peers g then (case pick n k of (Some m, True, False) \<Rightarrow> Some m | _ \<Rightarrow> None) else None)"

text \<open>The node a thread is about to ask: it runs the function of a load.\<close>

fun asks_node :: "cluster_pick \<Rightarrow> nat \<Rightarrow> Group \<Rightarrow> group_call \<Rightarrow> group_pc \<Rightarrow> nat option" where
  "asks_node pick n g (GGet k) (GLoad (SfRun c)) = forwards pick n g k"
| "asks_node pick n g x pc = None"

text \<open>
  What surrounds a section on a node: its picker is the node's, and \<open>env_quiet\<close>, so that in every
  step of the cluster the data sources do not panic and no picker reports a missing peer as found.
\<close>

definition env_at :: "cluster_pick \<Rightarrow> nat \<Rightarrow> group_env \<Rightarrow> bool" where
  "env_at pick n e \<longleftrightarrow> le_pick (ge_load e) = pick n \<and> env_quiet e"

subsection \<open>Steps\<close>

text \<open>
  \<open>wire\<close> is the text that the RPC library makes of a handler's error, and \<open>late\<close> whether a
  client's timeout may expire;  \<open>calls\<close> and \<open>sources\<close> restrict the calls that begin and what the
  data source of a node does.  A request that nobody waits for any more is served to its end.  A
  synchronisation has a peer to write to, or it has none, or its request is lost.
\<close>

inductive cluster_step ::
    "cluster_pick \<Rightarrow> (string \<Rightarrow> string) \<Rightarrow> (group_call \<Rightarrow> bool) \<Rightarrow> (nat \<Rightarrow> (key \<Rightarrow> getter_outcome) \<Rightarrow> bool) \<Rightarrow> bool
      \<Rightarrow> Cluster \<Rightarrow> Cluster \<Rightarrow> bool"
  for pick wire calls sources late where
  cl_begin: "cl_threads s n i = None \<Longrightarrow> calls x
    \<Longrightarrow> cluster_step pick wire calls sources late s (set_thread n i (Some (x, GStart)) s)"
| cl_local: "cl_threads s n i = Some (x, pc) \<Longrightarrow> asks_node pick n (cl_group s n) x pc = None
    \<Longrightarrow> env_at pick n e \<Longrightarrow> sources n (le_getter (ge_load e)) \<Longrightarrow> group_section e x pc (cl_group s n) = Some (pc', g')
    \<Longrightarrow> cluster_step pick wire calls sources late s (set_group n g' (set_thread n i (Some (x, pc')) s))"
| cl_send: "cl_threads s n i = Some (GGet k, GLoad (SfRun c)) \<Longrightarrow> forwards pick n (cl_group s n) k = Some m
    \<Longrightarrow> cl_request s n i = None \<Longrightarrow> cl_threads s m j = None
    \<Longrightarrow> cluster_step pick wire calls sources late s
          (set_request n i (Some (m, j)) (set_thread m j (Some (GGet k, GStart)) s))"
| cl_reply: "cl_threads s n i = Some (GGet k, GLoad (SfRun c)) \<Longrightarrow> cl_request s n i = Some (m, j)
    \<Longrightarrow> forwards pick n (cl_group s n) k = Some m
    \<Longrightarrow> cl_threads s m j = Some (GGet k, GReturn r) \<Longrightarrow> get_response r = Some resp
    \<Longrightarrow> env_at pick n e \<Longrightarrow> sources n (le_getter (ge_load e))
    \<Longrightarrow> le_peer (ge_load e) m (g_name (cl_group s n)) k = Client_Get (deliver wire resp)
    \<Longrightarrow> group_section e (GGet k) (GLoad (SfRun c)) (cl_group s n) = Some (pc', g')
    \<Longrightarrow> cluster_step pick wire calls sources late s
          (set_request n i None (set_group n g' (set_thread n i (Some (GGet k, pc')) (set_thread m j None s))))"
| cl_late: "late \<Longrightarrow> cl_threads s n i = Some (GGet k, GLoad (SfRun c)) \<Longrightarrow> cl_request s n i = Some (m, j)
    \<Longrightarrow> forwards pick n (cl_group s n) k = Some m
    \<Longrightarrow> env_at pick n e \<Longrightarrow> sources n (le_getter (ge_load e)) \<Longrightarrow> le_peer (ge_load e) m (g_name (cl_group s n)) k = Client_Get (Inl err)
    \<Longrightarrow> group_section e (GGet k) (GLoad (SfRun c)) (cl_group s n) = Some (pc', g')
    \<Longrightarrow> cluster_step pick wire calls sources late s
          (set_request n i None (set_group n g' (set_thread n i (Some (GGet k, pc')) s)))"
| cl_end: "cl_threads s n i = Some (x, pc) \<Longrightarrow> group_finished pc \<Longrightarrow> \<forall>n' i'. cl_request s n' i' \<noteq> Some (n, i)
    \<Longrightarrow> cluster_step pick wire calls sources late s (set_syncs n (cl_syncs s n @ left_behind pc) (set_thread n i None s))"
| cl_sync: "y \<in> set (cl_syncs s n) \<Longrightarrow> env_at pick n e \<Longrightarrow> syncToPeers (ge_load e) (cl_group s n) y = Some [req]
    \<Longrightarrow> served_write req = (m, x) \<Longrightarrow> cl_threads s m j = None
    \<Longrightarrow> cluster_step pick wire calls sources late s
          (set_syncs n (remove1 y (cl_syncs s n)) (set_thread m j (Some (x, GStart)) s))"
| cl_unsent: "y \<in> set (cl_syncs s n)
    \<Longrightarrow> cluster_step pick wire calls sources late s (set_syncs n (remove1 y (cl_syncs s n)) s)"
| cl_cleanup: "c_store (g_mainCache (cl_group s n)) = Some st \<Longrightarrow> store_step (OpTick now) st = Some (out, st')
    \<Longrightarrow> cluster_step pick wire calls sources late s
          (set_group n ((cl_group s n)\<lparr>g_mainCache := (g_mainCache (cl_group s n))\<lparr>c_store := Some st'\<rparr>\<rparr>) s)"

text \<open>A cluster before its first call.\<close>

definition cluster_init :: "(nat \<Rightarrow> Group) \<Rightarrow> Cluster" where
  "cluster_init gs = \<lparr>cl_group = gs, cl_threads = (\<lambda>_ _. None), cl_request = (\<lambda>_ _. None),
     cl_syncs = (\<lambda>_. [])\<rparr>"

end
