(* ===== verification/Cluster_Nodes.thy ===== *)
theory Cluster_Nodes
  imports Cluster
begin

text \<open>
  What one node does in a step of a cluster: a step of its own group, in which the answer of a
  peer is what the other node answered.
\<close>

subsection \<open>A node of a cluster\<close>

lemma cluster_sel [simp]:
  "cl_group (set_group n g s) p = (if p = n then g else cl_group s p)"
  "cl_group (set_thread n i t s) = cl_group s" "cl_group (set_request n i r s) = cl_group s"
  "cl_threads (set_thread n i t s) p = (if p = n then (cl_threads s n)(i := t) else cl_threads s p)"
  "cl_threads (set_group n g s) = cl_threads s" "cl_threads (set_request n i r s) = cl_threads s"
  "cl_request (set_request n i r s) p = (if p = n then (cl_request s n)(i := r) else cl_request s p)"
  "cl_request (set_group n g s) = cl_request s" "cl_request (set_thread n i t s) = cl_request s"
  "cl_syncs (set_syncs n ys s) p = (if p = n then ys else cl_syncs s p)" "cl_syncs (set_group n g s) = cl_syncs s"
  "cl_syncs (set_thread n i t s) = cl_syncs s" "cl_syncs (set_request n i r s) = cl_syncs s"
  "cl_group (set_syncs n ys s) = cl_group s" "cl_threads (set_syncs n ys s) = cl_threads s"
  "cl_request (set_syncs n ys s) = cl_request s"
  by (simp_all add: set_group_def set_thread_def set_request_def set_syncs_def)

text \<open>A section uses the interfaces of a load only where it runs the load.\<close>

lemma section_env:
  assumes "\<And>k c. x = GGet k \<Longrightarrow> pc = GLoad (SfRun c) \<Longrightarrow>
      loadData (g_peers g) (g_name g) l k (g_stats g) = loadData (g_peers g) (g_name g) (ge_load e) k (g_stats g)"
  shows "group_section (e\<lparr>ge_load := l\<rparr>) x pc g = group_section e x pc g"
proof -
  have w: "cache_write (e\<lparr>ge_load := l\<rparr>) = cache_write e" by (simp add: fun_eq_iff cache_write_def)
  have load: "group_load (e\<lparr>ge_load := l\<rparr>) k spc g = group_load e k spc g"
    if "x = GGet k" "pc = GLoad spc" for k spc
    using assms that by (cases spc) (simp_all add: w Let_def split: option.split)
  show ?thesis
  proof (cases pc)
    case GStart
    then show ?thesis by (cases x) (simp_all add: w)
  next
    case (GCache y cpc)
    then show ?thesis by (cases x; cases cpc) simp_all
  next
    case (GLoad spc)
    then show ?thesis using load by (cases x) simp_all
  qed (cases x; simp)+
qed

lemma loadData_local:
  assumes "forwards pick n g k = None" and "env_at pick n e"
  shows "loadData (g_peers g) (g_name g) (ge_load e) k s = from_getter (ge_load e) k s"
proof -
  have "le_pick (ge_load e) k \<noteq> (None, True, b)" for b using assms(2) unfolding env_at_def env_quiet_def by blast
  with assms show ?thesis
    by (auto simp: loadData_def forwards_def env_at_def split: prod.splits option.splits bool.splits)
qed

lemma run_moves: "group_section e (GGet k) (GLoad (SfRun c)) g = Some (pc', g') \<Longrightarrow> pc' \<noteq> GLoad (SfRun c)"
  by (auto simp: Let_def case_prod_beta split: Option.bind_splits fn_outcome.splits)

text \<open>The environment of a section with the answers it does not use taken out.\<close>

definition trim :: "(key \<Rightarrow> bool) \<Rightarrow> (nat \<Rightarrow> string \<Rightarrow> key \<Rightarrow> string + bytes) \<Rightarrow> load_env \<Rightarrow> load_env" where
  "trim B peer l = l\<lparr>le_peer := peer, le_getter := \<lambda>k. if B k then GetterReturn [] (Some []) else le_getter l k\<rparr>"

lemma trim_ok:
  assumes "env_at pick n e" and "\<And>k b. le_getter (ge_load e) k = GetterReturn b None \<Longrightarrow> \<not> B k \<Longrightarrow> P k (ByteView b)"
    and "\<And>p m k b. peer p m k = Inr b \<Longrightarrow> P k (ByteView b)"
  shows "env_at pick n (e\<lparr>ge_load := trim B peer (ge_load e)\<rparr>) \<and> answers_in P (e\<lparr>ge_load := trim B peer (ge_load e)\<rparr>)"
  using assms by (auto simp: env_at_def env_quiet_def answers_in_def trim_def split: if_splits)

lemma trim_load:
  assumes "\<not> B k" and "\<And>m. le_pick l k = (Some m, True, False) \<Longrightarrow> peers \<Longrightarrow> peer m name k = le_peer l m name k"
  shows "loadData peers name (trim B peer l) k s = loadData peers name l k s"
proof -
  have fg: "from_getter (trim B peer l) k s = from_getter l k s" for s using assms(1) by (simp add: from_getter_def trim_def)
  have fp: "getFromPeer (trim B peer l) m name k = getFromPeer l m name k"
    if "le_pick l k = (Some m, True, False)" "peers" for m
    using assms(2) [OF that] by (simp add: getFromPeer_def trim_def)
  have pick: "le_pick (trim B peer l) = le_pick l" by (simp add: trim_def)
  show ?thesis
    using fp by (auto simp: loadData_def fg pick Let_def split: prod.splits option.splits bool.splits sum.splits)
qed

definition source_in :: "(key \<Rightarrow> byteview \<Rightarrow> bool) \<Rightarrow> (key \<Rightarrow> bool) \<Rightarrow> (key \<Rightarrow> getter_outcome) \<Rightarrow> bool" where
  "source_in P B f \<longleftrightarrow> (\<forall>k b. f k = GetterReturn b None \<longrightarrow> B k \<or> P k (ByteView b))"

definition sync_in :: "(key \<Rightarrow> byteview \<Rightarrow> bool) \<Rightarrow> sync \<Rightarrow> bool" where
  "sync_in P y = (case y of SyncSet k v \<Rightarrow> P k (ByteView v) | SyncDelete k \<Rightarrow> True)"

subsection \<open>Steps of a node\<close>

text \<open>
  A step of a group in which no load of a key in \<open>B\<close> ends; what the data source has for those
  keys does not matter then.
\<close>

definition holds_loads :: "(key \<Rightarrow> bool) \<Rightarrow> Group \<times> group_threads \<Rightarrow> Group \<times> group_threads \<Rightarrow> bool" where
  "holds_loads B s s' \<longleftrightarrow> (\<forall>i k c. B k \<and> snd s i = Some (GGet k, GLoad (SfRun c)) \<longrightarrow> snd s' i = snd s i)"

abbreviation node_step ::
    "(key \<Rightarrow> bool) \<Rightarrow> (group_call \<Rightarrow> bool) \<Rightarrow> (group_env \<Rightarrow> bool) \<Rightarrow> Group \<times> group_threads \<Rightarrow> Group \<times> group_threads \<Rightarrow> bool" where
  "node_step B C E s s' \<equiv> group_step C E s s' \<and> holds_loads B s s'"

lemma node_begin: "ts i = None \<Longrightarrow> C x \<Longrightarrow> node_step B C E (g, ts) (g, ts(i \<mapsto> (x, GStart)))"
  by (auto simp: holds_loads_def intro: group_begin)

lemma node_end: "ts i = Some (x, pc) \<Longrightarrow> group_finished pc \<Longrightarrow> node_step B C E (g, ts) (g, ts(i := None))"
  by (auto simp: holds_loads_def intro: group_end)

lemma node_one:
  assumes i: "ts i = Some (x, pc)" and e: "env_at pick p e" "source_in P B (le_getter (ge_load e))"
    and sec: "group_section e x pc g = Some (pc', g')"
    and peer: "\<And>q m k b. peer q m k = Inr b \<Longrightarrow> P k (ByteView b)"
    and run: "\<And>k c. x = GGet k \<Longrightarrow> pc = GLoad (SfRun c) \<Longrightarrow> \<not> B k \<and>
        (\<forall>m. le_pick (ge_load e) k = (Some m, True, False) \<longrightarrow> g_peers g \<longrightarrow>
          peer m (g_name g) k = le_peer (ge_load e) m (g_name g) k)"
  shows "node_step B C (\<lambda>e. env_at pick p e \<and> answers_in P e) (g, ts) (g', ts(i \<mapsto> (x, pc')))"
proof
  show "group_step C (\<lambda>e. env_at pick p e \<and> answers_in P e) (g, ts) (g', ts(i \<mapsto> (x, pc')))"
  proof (rule group_one [where x = x and pc = pc])
    show "ts i = Some (x, pc)" by (rule i)
    show "env_at pick p (e\<lparr>ge_load := trim B peer (ge_load e)\<rparr>) \<and> answers_in P (e\<lparr>ge_load := trim B peer (ge_load e)\<rparr>)"
      by (rule trim_ok [OF e(1)]) (use e(2) peer in \<open>auto simp: source_in_def\<close>)
    show "group_section (e\<lparr>ge_load := trim B peer (ge_load e)\<rparr>) x pc g = Some (pc', g')"
      using sec run by (subst section_env) (auto intro!: trim_load)
  qed
  show "holds_loads B (g, ts) (g', ts(i \<mapsto> (x, pc')))" using i run by (auto simp: holds_loads_def)
qed

text \<open>The section that ends a load which has asked node \<open>m\<close>.\<close>

lemma node_asked:
  assumes i: "ts i = Some (GGet k, GLoad (SfRun c))" and e: "env_at pick p e" "source_in P B (le_getter (ge_load e))"
    and sec: "group_section e (GGet k) (GLoad (SfRun c)) g = Some (pc', g')"
    and fwd: "forwards pick p g k = Some m" and ans: "\<And>b. le_peer (ge_load e) m (g_name g) k = Inr b \<Longrightarrow> P k (ByteView b)"
    and B: "\<not> B k"
  shows "node_step B C (\<lambda>e. env_at pick p e \<and> answers_in P e) (g, ts) (g', ts(i \<mapsto> (GGet k, pc')))"
proof (rule node_one [where ts = ts and i = i, OF i e sec])
  let ?peer = "\<lambda>q l k'. if (q, l, k') = (m, g_name g, k) then le_peer (ge_load e) q l k' else Inl []"
  show "?peer q l k' = Inr b \<Longrightarrow> P k' (ByteView b)" for q l k' b using ans by (auto split: if_splits)
  have "q = m" if "le_pick (ge_load e) k = (Some q, True, False)" "g_peers g" for q
    using that fwd e(1) by (simp add: forwards_def env_at_def)
  then show "\<not> B k' \<and> (\<forall>q. le_pick (ge_load e) k' = (Some q, True, False) \<longrightarrow> g_peers g \<longrightarrow>
      ?peer q (g_name g) k' = le_peer (ge_load e) q (g_name g) k')"
    if "GGet k = GGet k'" "GLoad (SfRun c) = GLoad (SfRun c')" for k' c' using that B by auto
qed

text \<open>The section of a call that asks no node.\<close>

lemma node_local:
  assumes i: "ts i = Some (x, pc)" and loc: "asks_node pick p g x pc = None"
    and e: "env_at pick p e" "source_in P B (le_getter (ge_load e))"
    and sec: "group_section e x pc g = Some (pc', g')" and B: "\<And>k c. x = GGet k \<Longrightarrow> pc = GLoad (SfRun c) \<Longrightarrow> \<not> B k"
  shows "node_step B C (\<lambda>e. env_at pick p e \<and> answers_in P e) (g, ts) (g', ts(i \<mapsto> (x, pc')))"
proof (rule node_one [where peer = "\<lambda>_ _ _. Inl []" and ts = ts and i = i, OF i e sec])
  show "\<not> B k \<and> (\<forall>m. le_pick (ge_load e) k = (Some m, True, False) \<longrightarrow> g_peers g \<longrightarrow>
      Inl [] = le_peer (ge_load e) m (g_name g) k)" if "x = GGet k" "pc = GLoad (SfRun c)" for k c
    using that loc e(1) B by (auto simp: forwards_def env_at_def split: if_splits)
qed simp

text \<open>The calls that nodes begin for each other.\<close>

definition serves :: "(key \<Rightarrow> byteview \<Rightarrow> bool) \<Rightarrow> (group_call \<Rightarrow> bool) \<Rightarrow> bool" where
  "serves P C \<longleftrightarrow> (\<forall>k. C (GGet k)) \<and> (\<forall>k. C (GDelete k True)) \<and> (\<forall>k v. P k (ByteView v) \<longrightarrow> C (GSet k v True))"

lemma served_call:
  assumes "serves P C" and "sync_in P y" and "syncToPeers l g y = Some [req]" and "served_write req = (m, x)"
  shows "C x"
  using assms by (cases y) (auto simp: syncToPeers_def sync_in_def serves_def Let_def split: if_splits prod.splits)

lemma cluster_step_node:
  assumes step: "cluster_step pick wire calls sources late s s'"
    and calls: "\<And>x. calls x \<Longrightarrow> C x" "serves P C" and syncs: "\<And>n y. y \<in> set (cl_syncs s n) \<Longrightarrow> sync_in P y"
    and src: "\<And>f. sources p f \<Longrightarrow> source_in P B f"
    and rep: "\<And>m j k v. forwards pick p (cl_group s p) k = Some m \<Longrightarrow>
        cl_threads s m j = Some (GGet k, GReturn (GView v)) \<Longrightarrow> P k v"
    and blk: "\<And>i k c. B k \<Longrightarrow> cl_threads s p i = Some (GGet k, GLoad (SfRun c)) \<Longrightarrow> cl_threads s' p i = cl_threads s p i"
  shows "(node_step B C (\<lambda>e. env_at pick p e \<and> answers_in P e))\<^sup>*\<^sup>*
    (cl_group s p, cl_threads s p) (cl_group s' p, cl_threads s' p)" (is "?R\<^sup>*\<^sup>* ?q ?q'")
proof -
  have nob: "\<not> B k" if "cl_threads s p i = Some (GGet k, GLoad (SfRun c))" "cl_threads s' p i = Some (GGet k, pc')"
      "group_section e (GGet k) (GLoad (SfRun c)) g = Some (pc', g')" for i k c e g pc' g'
    using blk [OF _ that(1)] that(1,2) run_moves [OF that(3)] by auto
  show ?thesis
    using step
  proof cases
    case (cl_begin n i x)
    then show ?thesis using node_begin [of "cl_threads s n" i C x] calls(1) by auto
  next
    case (cl_local n i x pc e pc' g')
    then have "?R (cl_group s p, cl_threads s p) (g', (cl_threads s p)(i \<mapsto> (x, pc')))" if "p = n"
      by (intro node_local) (use that cl_local src nob in auto)
    then show ?thesis using cl_local by auto
  next
    case (cl_send n i k c m j)
    then show ?thesis using node_begin [of "cl_threads s m" j C "GGet k"] calls(2) by (auto simp: serves_def)
  next
    case (cl_reply n i k c m j r resp e pc' g')
    let ?ts = "if p = m then (cl_threads s p)(j := None) else cl_threads s p"
    have fin: "?R\<^sup>*\<^sup>* ?q (cl_group s p, ?ts)" using node_end [of "cl_threads s p" j "GGet k" "GReturn r"] cl_reply by auto
    have "?R (cl_group s p, ?ts) (g', ?ts(i \<mapsto> (GGet k, pc')))" if p: "p = n"
    proof (rule node_asked)
      show "P k (ByteView b)" if "le_peer (ge_load e) m (g_name (cl_group s p)) k = Inr b" for b
        using rep [of k m j] that cl_reply p by (cases r) (auto simp: deliver_def Client_Get_def)
      have "cl_threads s p i = Some (GGet k, GLoad (SfRun c))" "cl_threads s' p i = Some (GGet k, pc')" using cl_reply p by auto
      from nob [OF this cl_reply(10)] show "\<not> B k" .
    qed (use cl_reply p src in auto)
    then have "?R\<^sup>*\<^sup>* ?q (g', ?ts(i \<mapsto> (GGet k, pc')))" if "p = n"
      using rtranclp.rtrancl_into_rtrancl [of ?R, OF fin] that by blast
    then show ?thesis using cl_reply fin by auto
  next
    case (cl_late n i k c m j e err pc' g')
    then have "?R ?q (g', (cl_threads s p)(i \<mapsto> (GGet k, pc')))" if "p = n"
      by (intro node_asked) (use that cl_late src nob [of i k c pc' e "cl_group s p" g'] in \<open>auto simp: Client_Get_def\<close>)
    then show ?thesis using cl_late by auto
  next
    case (cl_end n i x pc)
    then show ?thesis using node_end [of "cl_threads s n" i x pc] by auto
  next
    case (cl_sync y n e req m x j)
    have "C x" by (rule served_call [OF calls(2) syncs [OF cl_sync(2)] cl_sync(4,5)])
    then show ?thesis using node_begin [of "cl_threads s m" j C x] cl_sync by auto
  next
    case (cl_unsent y n)
    then show ?thesis by simp
  next
    case (cl_cleanup n st now out st')
    then have "?R ?q ((cl_group s p)\<lparr>g_mainCache := (g_mainCache (cl_group s p))\<lparr>c_store := Some st'\<rparr>\<rparr>, cl_threads s p)"
      if "p = n" using that by (auto simp: holds_loads_def intro!: group_cleanup)
    then show ?thesis using cl_cleanup by auto
  qed
qed

end
