(* ===== verification/Cluster_Props.thy ===== *)
theory Cluster_Props
  imports Cluster_Nodes Cache_Group_Seq
begin

text \<open>
  Executions of a cluster: values belong to their keys across nodes and no node panics; and two
  nodes that send a key to each other wait for each other.
\<close>

subsection \<open>Values in a cluster\<close>

text \<open>The synchronisation a call starts is its own, and a write from a peer starts none.\<close>

fun sync_of :: "group_call \<Rightarrow> sync option" where
  "sync_of (GSet k v False) = Some (SyncSet k v)"
| "sync_of (GDelete k False) = Some (SyncDelete k)"
| "sync_of _ = None"

lemma section_left:
  "group_section e x pc g = Some (GReturn (GDone (Some y)), g') \<Longrightarrow> sync_of x = Some y"
  using group_load_sections [of e _ _ g "GReturn (GDone (Some y))" g']
  by (cases x; cases "(pc, g)" rule: group_Clear.cases)
    (auto simp: started_def in_cache_def Let_def split: if_splits Option.bind_splits call.splits result.splits)

text \<open>What the calls and the synchronisations of all nodes write belongs to \<open>P\<close>.\<close>

definition writes_ok :: "(key \<Rightarrow> byteview \<Rightarrow> bool) \<Rightarrow> Cluster \<Rightarrow> bool" where
  "writes_ok P s \<longleftrightarrow>
     (\<forall>n. \<forall>y \<in> set (cl_syncs s n). sync_in P y)
     \<and> (\<forall>n i x pc. cl_threads s n i = Some (x, pc) \<longrightarrow> call_in P x)
     \<and> (\<forall>n i x y. cl_threads s n i = Some (x, GReturn (GDone (Some y))) \<longrightarrow> sync_of x = Some y)"

lemma writes_okD:
  assumes "writes_ok P s"
  shows "y \<in> set (cl_syncs s n) \<Longrightarrow> sync_in P y" "cl_threads s n i = Some (x, pc) \<Longrightarrow> call_in P x"
    "cl_threads s n i = Some (x, GReturn (GDone (Some y))) \<Longrightarrow> sync_of x = Some y"
  using assms unfolding writes_ok_def by blast+

lemma sync_of_in: "sync_of x = Some y \<Longrightarrow> call_in P x \<Longrightarrow> sync_in P y"
  by (cases x rule: sync_of.cases) (auto simp: sync_in_def call_in_def)

lemma serves_call_in: "serves P (call_in P)"
  by (simp add: serves_def call_in_def)

lemma writes_ok_step:
  assumes step: "cluster_step pick wire calls sources late s s'" and ok: "writes_ok P s"
    and calls: "\<And>x. calls x \<Longrightarrow> call_in P x"
  shows "writes_ok P s'"
proof -
  note d = writes_okD [OF ok]
  have get: "call_in P (GGet k)" for k by (simp add: call_in_def)
  show ?thesis
    using step
  proof cases
    case (cl_end n i x pc)
    have "sync_in P y" if "y \<in> set (left_behind pc)" for y
      using d(3) [of n i x y] d(2) [OF cl_end(2)] cl_end(2) that sync_of_in
      by (cases pc rule: left_behind.cases) auto
    then show ?thesis using cl_end d by (auto simp: writes_ok_def split: if_splits)
  next
    case (cl_sync y n e req m x j)
    have "call_in P x" by (rule served_call [OF serves_call_in d(1) [OF cl_sync(2)] cl_sync(4,5)])
    then show ?thesis using cl_sync d by (auto simp: writes_ok_def split: if_splits dest: notin_set_remove1 [THEN contrapos_np])
  next
    case (cl_unsent y n)
    then show ?thesis using d by (auto simp: writes_ok_def split: if_splits dest: notin_set_remove1 [THEN contrapos_np])
  qed (use d calls get section_left section_left [of _ "GGet _"] in
      \<open>auto simp: writes_ok_def simp del: group_section.simps split: if_splits\<close>)
qed

definition cluster_ok :: "(key \<Rightarrow> byteview \<Rightarrow> bool) \<Rightarrow> Cluster \<Rightarrow> bool" where
  "cluster_ok P s \<longleftrightarrow> writes_ok P s \<and> (\<forall>n. group_ok P False (cl_group s n, cl_threads s n))"

lemma node_ok_run:
  assumes "(node_step B (call_in P) (\<lambda>e. env_at pick p e \<and> answers_in P e))\<^sup>*\<^sup>* q q'" and "group_ok P False q"
  shows "group_ok P False q'"
  using assms
proof (induction rule: rtranclp_induct)
  case (step y z)
  have "group_ok P False y" using step by blast
  from group_ok_step [OF conjunct1 [OF step.hyps(2)] this] show ?case by (auto simp: env_at_def)
qed

lemma at_view: "group_ok P q (g, ts) \<Longrightarrow> ts i = Some (GGet k, GReturn (GView v)) \<Longrightarrow> P k v"
proof -
  assume "group_ok P q (g, ts)" "ts i = Some (GGet k, GReturn (GView v))"
  then have "group_at_ok P q (GGet k) (GReturn (GView v))" unfolding group_ok_def snd_conv by blast
  then show "P k v" by simp
qed

lemma cluster_ok_step:
  assumes step: "cluster_step pick wire calls sources late s s'" and ok: "cluster_ok P s"
    and calls: "\<And>x. calls x \<Longrightarrow> call_in P x" and src: "\<And>n f. sources n f \<Longrightarrow> source_in P (\<lambda>_. False) f"
  shows "cluster_ok P s'"
proof -
  have w: "writes_ok P s" and g: "group_ok P False (cl_group s n, cl_threads s n)" for n using ok by (simp_all add: cluster_ok_def)
  have "group_ok P False (cl_group s' p, cl_threads s' p)" for p
  proof (rule node_ok_run [OF cluster_step_node [OF step calls serves_call_in writes_okD(1) [OF w] src] g])
    show "cl_threads s m j = Some (GGet k, GReturn (GView v)) \<Longrightarrow> P k v" for m j k v by (rule at_view [OF g])
  qed auto
  with writes_ok_step [OF step w calls] show ?thesis by (simp add: cluster_ok_def)
qed

lemma cluster_ok_init: "(\<And>n. fresh_group (name n) (gs n)) \<Longrightarrow> cluster_ok P (cluster_init gs)"
  using fresh_group_ok [of "name _" "gs _" P False] by (auto simp: cluster_ok_def writes_ok_def cluster_init_def)

lemma cluster_ok_reach:
  assumes "(cluster_step pick wire calls sources late)\<^sup>*\<^sup>* s s'" and "cluster_ok P s" and "\<And>x. calls x \<Longrightarrow> call_in P x"
    and "\<And>n f. sources n f \<Longrightarrow> source_in P (\<lambda>_. False) f"
  shows "cluster_ok P s'"
  using assms(1,2)
proof (induction rule: rtranclp_induct)
  case (step y z)
  have "cluster_ok P y" using step by blast
  from cluster_ok_step [OF step.hyps(2) this assms(3,4)] show ?case .
qed

text \<open>
  C16. Values never cross keys in a cluster either, whichever nodes ask each other and whether
  requests are answered, lost or time out: if the values the clients set and the data sources
  return belong to their keys, then so does every value that a \<open>Get\<close> returns on any node and that
  any node holds.  Provided that the data sources do not panic and the pickers report no missing
  peer as found, which \<open>env_at\<close> demands of every step, no call panics on any node, in the group,
  the cache or the store: it has returned, or has its next section, or waits for a load that is
  not done.
\<close>

theorem cluster_values_by_key:
  assumes "\<And>n. group_options_ok (opts n)"
    and "(cluster_step pick wire (call_in P) (\<lambda>n. source_in P (\<lambda>_. False)) True)\<^sup>*\<^sup>*
           (cluster_init (\<lambda>n. make_group name (bytes n) (opts n))) s"
  shows "(\<forall>n i k v. cl_threads s n i = Some (GGet k, GReturn (GView v)) \<longrightarrow> P k v)
    \<and> (\<forall>n k v. v \<in> cache_held (g_mainCache (cl_group s n)) k \<longrightarrow> P k v)
    \<and> (\<forall>n i x pc. cl_threads s n i = Some (x, pc) \<longrightarrow> (\<forall>r. pc \<noteq> GPanic r)
        \<and> (group_finished pc \<or> group_waits pc (cl_group s n) \<or> (\<forall>e. group_section e x pc (cl_group s n) \<noteq> None)))"
proof -
  have "cluster_ok P (cluster_init (\<lambda>n. make_group name (bytes n) (opts n)))"
    by (rule cluster_ok_init [of "\<lambda>_. name"]) (rule fresh_make_group [OF assms(1)])
  from cluster_ok_reach [OF assms(2) this] have ok: "cluster_ok P s" by simp
  then have g: "group_ok P False (cl_group s n, cl_threads s n)" for n by (simp add: cluster_ok_def)
  have "pc \<noteq> GPanic r" if "cl_threads s n i = Some (x, pc)" for n i x pc r
  proof -
    from g [of n] that have "group_at_ok P False x pc" unfolding group_ok_def snd_conv by blast
    then show ?thesis by (cases x) auto
  qed
  moreover have "group_finished pc \<or> group_waits pc (cl_group s n) \<or> group_section e x pc (cl_group s n) \<noteq> None"
    if "cl_threads s n i = Some (x, pc)" for n i x pc e
    using group_progress [OF g that, of e] by fastforce
  moreover have "P k v" if "v \<in> cache_held (g_mainCache (cl_group s n)) k" for n k v
    using g [of n] that by (simp add: group_ok_def held_in_def)
  ultimately show ?thesis using at_view [OF g] by blast
qed

subsection \<open>Two nodes that send a key to each other\<close>

text \<open>Where a \<open>Get\<close> of a key can be as long as no load of the key has ended.\<close>

fun before_end :: "group_pc \<Rightarrow> bool" where
  "before_end GStart = True"
| "before_end (GCache (CGet t k) pc) = True"
| "before_end (GLoad SfLoad) = True"
| "before_end (GLoad SfStore) = True"
| "before_end (GLoad (SfRun c)) = True"
| "before_end (GLoad (SfWait c)) = True"
| "before_end _ = False"

definition undone :: "key \<Rightarrow> sf_group \<times> sf_threads \<Rightarrow> bool" where
  "undone k q \<longleftrightarrow> (\<forall>c. refs k c q \<longrightarrow> \<not> sc_done (sf_calls (fst q) c))"

definition stuck :: "key \<Rightarrow> Group \<times> group_threads \<Rightarrow> bool" where
  "stuck k s \<longleftrightarrow> \<not> g_closed (fst s) \<and> (\<forall>i x pc. snd s i = Some (x, pc) \<longrightarrow> x \<noteq> GClose)
     \<and> (\<forall>i pc. snd s i = Some (GGet k, pc) \<longrightarrow> before_end pc) \<and> undone k (sf_part s)"

text \<open>A section of \<open>Do\<close> that is not the end of a load of the key leaves its calls undone.\<close>

lemma undone_section:
  assumes inv: "sf_inv (g, ts)" and kd: "sf_keyed P (g, ts)" and un: "undone k (g, ts)"
    and i: "ts i = Some (k', spc)" and sec: "Do k' fn spc g = Some (spc', g')"
    and go: "\<And>c p. k' = k \<Longrightarrow> spc \<noteq> SfDone c p"
  shows "undone k (g', ts(i \<mapsto> (k', spc')))"
proof -
  have u: "refs k c (g, ts) \<Longrightarrow> \<not> sc_done (sf_calls g c)" for c using un by (simp add: undone_def)
  have own: "refs k' c (g, ts)" if "owns spc = Some c \<or> waits spc = Some c" for c
    using i that by (auto simp: refs_def)
  have mp: "refs k c (g, ts)" if "mget (sf_map g) k = Some c" for c using that by (simp add: refs_def)
  have "\<not> sc_done (sf_calls g' c)" if r: "refs k c (g', ts(i \<mapsto> (k', spc')))" for c
  proof -
    from r consider "mget (sf_map g') k = Some c" | "k' = k" "owns spc' = Some c \<or> waits spc' = Some c"
      | j pc where "ts j = Some (k, pc)" "owns pc = Some c \<or> waits pc = Some c"
      unfolding refs_def by (auto split: if_splits)
    then have old: "refs k c (g, ts) \<or> spc = SfStore \<and> c = sf_next g"
    proof cases
      case 1
      then show ?thesis using sec mp by (cases spc) (auto simp: Let_def split: option.splits if_splits fn_outcome.splits)
    next
      case 2
      then show ?thesis using sec mp own by (cases spc) (auto simp: Let_def split: option.splits if_splits fn_outcome.splits)
    next
      case 3
      then show ?thesis by (auto simp: refs_def)
    qed
    show ?thesis
    proof (cases "\<exists>p. spc = SfDone c p")
      case True
      then have "refs k' c (g, ts)" "k' \<noteq> k" using own go by auto
      then show ?thesis using old True sf_keyedD(1) [OF kd] by blast
    next
      case False
      then show ?thesis using old u [of c] sec
        by (cases spc) (auto simp: Let_def split: option.splits if_splits fn_outcome.splits)
    qed
  qed
  then show ?thesis by (simp add: undone_def)
qed

text \<open>A section of a \<open>Get\<close> of the key, when no load of it has ended and no value is there.\<close>

lemma before_end_section:
  assumes ok: "group_ok P False (g, ts)" and no: "\<And>v. \<not> P k v" and st: "stuck k (g, ts)" and k: "k \<noteq> []"
    and i: "ts i = Some (GGet k, pc)" and sec: "group_section e (GGet k) pc g = Some (pc', g')"
    and go: "\<And>c. pc \<noteq> GLoad (SfRun c)"
  shows "before_end pc'"
proof -
  have bf: "before_end pc" and cl: "\<not> g_closed g" and un: "undone k (g_loader g, sf_thread \<circ> ts)"
    using st i by (auto simp: stuck_def parts)
  have at: "group_at_ok P False (GGet k) pc" using ok i unfolding group_ok_def snd_conv by blast
  show ?thesis
  proof (cases pc rule: before_end.cases)
    case 1
    then show ?thesis using sec cl k by auto
  next
    case (2 t k' cpc)
    show ?thesis
    proof (cases "\<exists>r. cpc = Return r")
      case True
      then obtain r where r: "cpc = Return r" by blast
      have "\<exists>v. r = RGet v False" using at no 2 r by (cases r) auto
      then show ?thesis using sec 2 r by (auto simp: Let_def)
    next
      case False
      from group_section_cache [OF this, of e "GGet k" "CGet t k'" g] sec 2 show ?thesis
        by (auto simp: in_cache_def simp del: group_section.simps split: Option.bind_splits)
    qed
  next
    case (6 c)
    then have "(sf_thread \<circ> ts) i = Some (k, SfWait c)" using i by simp
    then have "refs k c (g_loader g, sf_thread \<circ> ts)" unfolding refs_def snd_conv using waits.simps(1) by blast
    then have "\<not> sc_done (sf_calls (g_loader g) c)" using un by (simp add: undone_def)
    then show ?thesis using sec 6 by simp
  qed (use sec go bf in \<open>auto simp: Let_def split: option.splits\<close>)
qed

lemma section_fields:
  assumes "group_section e x pc g = Some (pc', g')"
  shows "g_peers g' = g_peers g \<and> (x \<noteq> GClose \<longrightarrow> g_closed g' = g_closed g)"
  using assms
proof (cases rule: group_section_cases)
  case (load k spc)
  then show ?thesis by (cases spc) (auto simp: Let_def case_prod_beta split: Option.bind_splits option.splits)
next
  case own
  then show ?thesis
    using assms by (cases x) (auto simp: Let_def split: if_splits call.splits result.splits)
qed simp

lemma undone_skip:
  "undone k (g, ts) \<Longrightarrow> t = None \<or> (\<exists>k'. t = Some (k', SfLoad)) \<Longrightarrow> undone k (g, ts(i := t))"
  by (auto simp: undone_def refs_def split: if_splits)

lemma stuck_step:
  assumes step: "node_step (\<lambda>k'. k' = k) (\<lambda>x. call_in P x \<and> x \<noteq> GClose) E s s'" and ok: "group_ok P False s"
    and no: "\<And>v. \<not> P k v" and st: "stuck k s" and k: "k \<noteq> []"
  shows "stuck k s'"
  using step [THEN conjunct1]
proof cases
  case (group_begin ts i x g)
  have "sf_part s' = sf_part s" using group_begin by (cases x) (simp_all add: parts part_update fun_upd_idem)
  then show ?thesis using st group_begin by (auto simp: stuck_def)
next
  case (group_one ts i x pc e g pc' g')
  have x: "x \<noteq> GClose" using st group_one by (auto simp: stuck_def)
  have run: "pc \<noteq> GLoad (SfRun c)" if "x = GGet k" for c
  proof
    assume pc: "pc = GLoad (SfRun c)"
    then have "snd s i = Some (GGet k, GLoad (SfRun c))" "pc' \<noteq> pc" using group_one that run_moves by auto
    moreover from this(1) have "snd s' i = snd s i" using step [THEN conjunct2] unfolding holds_loads_def by blast
    ultimately show False using group_one pc by simp
  qed
  have bf: "before_end pc'" if "x = GGet k"
    by (rule before_end_section [OF ok [unfolded group_one(1)] no st [unfolded group_one(1)] k])
      (use group_one that run in auto)
  have inv: "sf_inv (g_loader g, sf_thread \<circ> ts)" "sf_keyed P (g_loader g, sf_thread \<circ> ts)" "undone k (g_loader g, sf_thread \<circ> ts)"
    using ok st group_one by (simp_all add: group_ok_def stuck_def parts)
  have "undone k (g_loader g', (sf_thread \<circ> ts)(i := sf_thread (Some (x, pc'))))"
    using group_one(5)
  proof (cases rule: group_section_cases)
    case (load k' spc)
    have i: "(sf_thread \<circ> ts) i = Some (k', spc)" using group_one load by simp
    note l = group_load_sections [OF load(3)]
    show ?thesis
    proof (cases "\<exists>spc'. pc' = GLoad spc'")
      case True
      then obtain spc' fn where d: "pc' = GLoad spc'" "Do k' fn spc (g_loader g) = Some (spc', g_loader g')" using l by auto
      have "spc \<noteq> SfDone c p" if "k' = k" for c p
        using st group_one(1,3) load(1,2) that by (fastforce simp: stuck_def)
      from undone_section [OF inv i d(2) this] show ?thesis using d(1) load(1) by (simp add: o_def)
    next
      case False
      then have "sf_thread (Some (x, pc')) = None" "g_loader g' = g_loader g" using l sf_thread_none [of pc' x] by auto
      then show ?thesis using undone_skip [OF inv(3)] by simp
    qed
  next
    case (cache y cpc cpc' c')
    then show ?thesis using undone_skip [OF inv(3)] sf_thread_none [of pc' x] by simp
  next
    case own
    note o = group_section_own [OF group_one(5) own]
    then have "sf_thread (Some (x, pc')) = None \<or> (\<exists>k. sf_thread (Some (x, pc')) = Some (k, SfLoad))"
      by (cases "sf_thread (Some (x, pc'))") (auto simp: sf_thread_eq)
    then show ?thesis using undone_skip [OF inv(3)] o by simp
  qed
  then show ?thesis
    using st group_one x bf section_fields [OF group_one(5)] by (auto simp: stuck_def parts part_update)
next
  case (group_end ts i x pc g)
  then have "sf_thread (ts i) = None" by (cases pc; cases x) auto
  then have "sf_part s' = sf_part s" using group_end by (simp add: parts part_update fun_upd_idem)
  then show ?thesis using st group_end by (auto simp: stuck_def split: if_splits)
next
  case (group_cleanup g st now out st' ts)
  then show ?thesis using st by (auto simp: stuck_def parts)
qed

lemma stuck_run:
  assumes "(node_step (\<lambda>k'. k' = k) (\<lambda>x. call_in P x \<and> x \<noteq> GClose) (\<lambda>e. env_at pick p e \<and> answers_in P e))\<^sup>*\<^sup>* q q'"
    and "group_ok P False q" and "stuck k q" and "\<And>v. \<not> P k v" and "k \<noteq> []"
  shows "group_ok P False q' \<and> stuck k q'"
  using assms(1-3)
proof (induction rule: rtranclp_induct)
  case (step y z)
  then have y: "group_ok P False y" "stuck k y" by blast+
  have "stuck k z" by (rule stuck_step [OF step.hyps(2) y(1) assms(4) y(2) assms(5)])
  moreover have "group_ok P False z"
    using group_ok_step [OF conjunct1 [OF step.hyps(2)] y(1)] by (auto simp: env_at_def)
  ultimately show ?case by blast
qed simp

text \<open>The keys other than \<open>k\<close>.\<close>

abbreviation apart :: "key \<Rightarrow> key \<Rightarrow> byteview \<Rightarrow> bool" where
  "apart k \<equiv> \<lambda>k' v. k' \<noteq> k"

text \<open>Node \<open>n\<close> sends \<open>k\<close> to \<open>m\<close>, and nothing on \<open>n\<close> has ended a load of it.\<close>

definition sends_to :: "cluster_pick \<Rightarrow> key \<Rightarrow> nat \<Rightarrow> nat \<Rightarrow> Cluster \<Rightarrow> bool" where
  "sends_to pick k n m s \<longleftrightarrow> g_peers (cl_group s n) \<and> pick n k = (Some m, True, False)
     \<and> group_ok (apart k) False (cl_group s n, cl_threads s n) \<and> stuck k (cl_group s n, cl_threads s n)"

lemma before_end_going: "before_end pc \<Longrightarrow> \<not> group_finished pc"
  by (cases pc rule: before_end.cases) auto

lemma sends_to_step:
  assumes step: "cluster_step pick wire calls sources False s s'"
    and calls: "\<And>x. calls x \<Longrightarrow> call_in (apart k) x \<and> x \<noteq> GClose" and k: "k \<noteq> []"
    and w: "writes_ok (apart k) s" and ab: "sends_to pick k n m s" "sends_to pick k m r s"
  shows "sends_to pick k n m s'"
proof -
  have n: "g_peers (cl_group s n)" "pick n k = (Some m, True, False)" "group_ok (apart k) False (cl_group s n, cl_threads s n)"
      "stuck k (cl_group s n, cl_threads s n)" using ab(1) by (simp_all add: sends_to_def)
  have end_n: "cl_threads s n i = Some (GGet k, pc) \<Longrightarrow> \<not> group_finished pc" for i pc
    using ab(1) before_end_going by (auto simp: sends_to_def stuck_def)
  have end_m: "cl_threads s m i = Some (GGet k, pc) \<Longrightarrow> \<not> group_finished pc" for i pc
    using ab(2) before_end_going by (auto simp: sends_to_def stuck_def)
  have fwd: "forwards pick n (cl_group s n) k' = Some q \<Longrightarrow> k' = k \<Longrightarrow> q = m" for k' q
    using n by (auto simp: forwards_def)
  have serve: "serves (apart k) (\<lambda>x. call_in (apart k) x \<and> x \<noteq> GClose)" by (simp add: serves_def call_in_def)
  have "(node_step (\<lambda>k'. k' = k) (\<lambda>x. call_in (apart k) x \<and> x \<noteq> GClose) (\<lambda>e. env_at pick n e \<and> answers_in (apart k) e))\<^sup>*\<^sup>*
      (cl_group s n, cl_threads s n) (cl_group s' n, cl_threads s' n)"
  proof (rule cluster_step_node [OF step calls serve writes_okD(1) [OF w]])
    show "source_in (apart k) (\<lambda>k'. k' = k) f" for f by (simp add: source_in_def)
    show "k' \<noteq> k" if "forwards pick n (cl_group s n) k' = Some q" "cl_threads s q j = Some (GGet k', GReturn (GView v))" for q j k' v
      using fwd [OF that(1)] end_m [of j "GReturn (GView v)"] that(2) by auto
    show "cl_threads s' n i = cl_threads s n i" if "k' = k" "cl_threads s n i = Some (GGet k', GLoad (SfRun c))" for i k' c
      using step
    proof cases
      case (cl_reply n' i' k'' c' m' j r resp e pc' g')
      have "\<not> (n' = n \<and> i' = i)"
      proof
        assume "n' = n \<and> i' = i"
        then have "m' = m" "k'' = k" using cl_reply that fwd by auto
        then show False using end_m [of j "GReturn r"] cl_reply by auto
      qed
      moreover have "\<not> (m' = n \<and> j = i)" using cl_reply that by auto
      ultimately show ?thesis using cl_reply by auto
    qed (use that n in \<open>auto simp: forwards_def\<close>)
  qed
  from stuck_run [OF this n(3,4) _ k] have "group_ok (apart k) False (cl_group s' n, cl_threads s' n) \<and> stuck k (cl_group s' n, cl_threads s' n)"
    by simp
  moreover have "g_peers (cl_group s' n)" using step n(1) by cases (auto dest: section_fields simp del: group_section.simps)
  ultimately show ?thesis using n(2) by (simp add: sends_to_def)
qed

text \<open>Nodes each of which sends the key to one of them: nothing ends a load on any of them.\<close>

lemma closed_forwarding:
  assumes "\<And>n. group_options_ok (opts n)"
    and "\<forall>n \<in> S. pick n k = (Some (succ n), True, False) \<and> succ n \<in> S \<and> g_peers (make_group name (bytes n) (opts n))"
    and "k \<noteq> []"
    and "(cluster_step pick wire (\<lambda>x. x \<noteq> GClose \<and> (\<forall>v p. x \<noteq> GSet k v p)) sources False)\<^sup>*\<^sup>*
           (cluster_init (\<lambda>n. make_group name (bytes n) (opts n))) s"
    and "n \<in> S"
  shows "(\<forall>i pc. cl_threads s n i = Some (GGet k, pc) \<longrightarrow> \<not> group_finished pc) \<and> cache_held (g_mainCache (cl_group s n)) k = {}"
proof -
  let ?s0 = "cluster_init (\<lambda>n. make_group name (bytes n) (opts n))"
  have fresh: "fresh_group name (make_group name (bytes n) (opts n))" for n by (rule fresh_make_group [OF assms(1)])
  have calls: "call_in (apart k) x \<and> x \<noteq> GClose" if "x \<noteq> GClose \<and> (\<forall>v p. x \<noteq> GSet k v p)" for x
    using that by (cases x) (auto simp: call_in_def)
  have "undone k (sf_part (make_group name (bytes n) (opts n), \<lambda>_. None))" for n
    using fresh_idle [OF fresh, of n] by (simp add: group_idle_def undone_def refs_def parts o_def)
  then have 0: "sends_to pick k n (succ n) ?s0" if "n \<in> S" for n
    using that assms(2) fresh_group_ok [OF fresh] fresh_idle [OF fresh] by (simp add: sends_to_def stuck_def cluster_init_def)
  have "writes_ok (apart k) s \<and> (\<forall>n \<in> S. sends_to pick k n (succ n) s)"
    using assms(4)
  proof (induction rule: rtranclp_induct)
    case base
    then show ?case using 0 by (simp add: writes_ok_def cluster_init_def)
  next
    case (step y z)
    then show ?case
      using writes_ok_step [OF step.hyps(2), of "apart k"] sends_to_step [OF step.hyps(2) _ assms(3)] calls assms(2) by blast
  qed
  then have "sends_to pick k n (succ n) s" using assms(5) by blast
  then show ?thesis
    using before_end_going by (auto simp: sends_to_def stuck_def group_ok_def held_in_def)
qed

text \<open>
  Two nodes that send a key to each other, as the nodes of a cluster of two do with every key
  (\<open>two_nodes_forward_to_each_other\<close>): as long as no client's timeout expires, no \<open>Get\<close> of the
  key returns on either node, whatever all nodes do meanwhile, unless the key is set or the group
  is closed, even though both have a data source that answers; and neither node gets a value.
\<close>

theorem mutual_forward_waits:
  assumes "pick a k = (Some b, True, False)" and "pick b k = (Some a, True, False)" and "k \<noteq> []"
    and "\<And>n. group_options_ok (opts n)" and "g_peers (make_group name (bytes a) (opts a))" and "g_peers (make_group name (bytes b) (opts b))"
    and "(cluster_step pick wire (\<lambda>x. x \<noteq> GClose \<and> (\<forall>v p. x \<noteq> GSet k v p)) sources False)\<^sup>*\<^sup>*
           (cluster_init (\<lambda>n. make_group name (bytes n) (opts n))) s"
    and "n = a \<or> n = b"
  shows "(\<forall>i pc. cl_threads s n i = Some (GGet k, pc) \<longrightarrow> \<not> group_finished pc) \<and> cache_held (g_mainCache (cl_group s n)) k = {}"
proof -
  have "\<forall>n \<in> {a, b}. pick n k = (Some (if n = a then b else a), True, False) \<and> (if n = a then b else a) \<in> {a, b}
      \<and> g_peers (make_group name (bytes n) (opts n))"
    using assms(1,2,5,6) by auto
  from closed_forwarding [OF assms(4) this assms(3,7)] show ?thesis using assms(8) by blast
qed

text \<open>The cycle is reached: a \<open>Get\<close> that misses on a new node reaches its load.\<close>

definition pair_pick :: cluster_pick where
  "pair_pick n k = (Some (1 - n), True, False)"

definition pair_env :: "nat \<Rightarrow> group_env" where
  "pair_env n = idle_env\<lparr>ge_load := (ge_load idle_env)\<lparr>le_pick := pair_pick n\<rparr>\<rparr>"

abbreviation pair_step :: "Cluster \<Rightarrow> Cluster \<Rightarrow> bool" where
  "pair_step \<equiv> cluster_step pair_pick (\<lambda>s. s) (\<lambda>x. x \<noteq> GClose \<and> (\<forall>v p. x \<noteq> GSet ''k'' v p)) (\<lambda>_ _. True) False"

text \<open>\<open>moved n i s s'\<close>: thread \<open>i\<close> of node \<open>n\<close> has moved, and its group, but nothing else.\<close>

definition moved :: "nat \<Rightarrow> nat \<Rightarrow> Cluster \<Rightarrow> Cluster \<Rightarrow> bool" where
  "moved n i s s' \<longleftrightarrow> pair_step\<^sup>*\<^sup>* s s' \<and> (\<forall>m. m \<noteq> n \<longrightarrow> cl_group s' m = cl_group s m)
     \<and> (\<forall>m j. (m, j) \<noteq> (n, i) \<longrightarrow> cl_threads s' m j = cl_threads s m j) \<and> cl_request s' = cl_request s"

lemma moved_trans: "moved n i s s' \<Longrightarrow> moved n i s' s'' \<Longrightarrow> moved n i s s''"
  unfolding moved_def by (metis (no_types, lifting) rtranclp_trans)

lemma moved_one:
  assumes "cl_threads s n i = Some (GGet ''k'', pc)" and "\<And>c. pc \<noteq> GLoad (SfRun c)"
    and "group_section (pair_env n) (GGet ''k'') pc (cl_group s n) = Some (pc', g')"
  shows "\<exists>s'. moved n i s s' \<and> cl_threads s' n i = Some (GGet ''k'', pc') \<and> cl_group s' n = g'"
proof -
  let ?s = "set_group n g' (set_thread n i (Some (GGet ''k'', pc')) s)"
  have loc: "asks_node pair_pick n (cl_group s n) (GGet ''k'') pc = None" using assms(2) by (cases pc rule: before_end.cases) auto
  have env: "env_at pair_pick n (pair_env n)" by (simp add: env_at_def env_quiet_def pair_env_def pair_pick_def idle_env_def)
  have "pair_step s ?s" by (rule cl_local [OF assms(1) loc env _ assms(3)]) simp
  then have "pair_step\<^sup>*\<^sup>* s ?s" by (rule r_into_rtranclp)
  then have "moved n i s ?s" unfolding moved_def by simp
  then show ?thesis by (intro exI [of _ ?s]) simp
qed

text \<open>A group whose cache has not been made.\<close>

definition unused :: "Group \<Rightarrow> bool" where
  "unused g \<longleftrightarrow> g_peers g \<and> \<not> g_closed g \<and> \<not> c_closed (g_mainCache g) \<and> \<not> c_initialized (g_mainCache g)"

lemma moved_to_load:
  assumes "cl_threads s n i = Some (GGet ''k'', GStart)" and "unused (cl_group s n)"
  shows "\<exists>s'. moved n i s s' \<and> cl_threads s' n i = Some (GGet ''k'', GLoad SfLoad) \<and> unused (cl_group s' n)
    \<and> g_loader (cl_group s' n) = g_loader (cl_group s n)"
proof -
  let ?y = "CGet (ge_clk (pair_env n)) ''k''"
  have u: "\<not> g_closed (cl_group s n)" "\<not> c_closed (g_mainCache (cl_group s n))" "\<not> c_initialized (g_mainCache (cl_group s n))"
    using assms(2) by (simp_all add: unused_def)
  obtain s1 where 1: "moved n i s s1" "cl_threads s1 n i = Some (GGet ''k'', GCache ?y Load_closed)" "cl_group s1 n = cl_group s n"
    using moved_one [OF assms(1), of "GCache ?y Load_closed" "cl_group s n"] u by auto
  obtain s2 where 2: "moved n i s1 s2" "cl_threads s2 n i = Some (GGet ''k'', GCache ?y Load_init)" "cl_group s2 n = cl_group s n"
    using moved_one [OF 1(2), of "GCache ?y Load_init" "cl_group s n"] u 1(3) by (auto simp: in_cache_def)
  let ?g = "(cl_group s n)\<lparr>g_mainCache := (g_mainCache (cl_group s n))\<lparr>c_misses := c_misses (g_mainCache (cl_group s n)) + 1\<rparr>\<rparr>"
  obtain s3 where 3: "moved n i s2 s3" "cl_threads s3 n i = Some (GGet ''k'', GCache ?y (Return (RGet empty_view False)))" "cl_group s3 n = ?g"
    using moved_one [OF 2(2), of "GCache ?y (Return (RGet empty_view False))" ?g] u 2(3) by (auto simp: in_cache_def)
  let ?h = "?g\<lparr>g_stats := (g_stats ?g)\<lparr>gs_localMisses := gs_localMisses (g_stats ?g) + 1\<rparr>\<rparr>"
  obtain s4 where 4: "moved n i s3 s4" "cl_threads s4 n i = Some (GGet ''k'', GLoad SfLoad)" "cl_group s4 n = ?h"
    using moved_one [OF 3(2), of "GLoad SfLoad" ?h] u 3(3) by (auto simp: Let_def)
  have "moved n i s s4" using moved_trans [OF 1(1) moved_trans [OF 2(1) moved_trans [OF 3(1) 4(1)]]] .
  with 4 assms(2) show ?thesis by (intro exI [of _ s4]) (simp add: unused_def)
qed

lemma moved_to_run:
  assumes "cl_threads s n i = Some (GGet ''k'', GStart)" and "unused (cl_group s n)" and "sf_map (g_loader (cl_group s n)) = []"
  shows "\<exists>s' c. moved n i s s' \<and> cl_threads s' n i = Some (GGet ''k'', GLoad (SfRun c)) \<and> unused (cl_group s' n)
    \<and> mget (sf_map (g_loader (cl_group s' n))) ''k'' = Some c"
proof -
  obtain s1 where 1: "moved n i s s1" "cl_threads s1 n i = Some (GGet ''k'', GLoad SfLoad)" "unused (cl_group s1 n)"
      "sf_map (g_loader (cl_group s1 n)) = []" using moved_to_load [OF assms(1,2)] assms(3) by auto
  obtain s2 where 2: "moved n i s1 s2" "cl_threads s2 n i = Some (GGet ''k'', GLoad SfStore)" "cl_group s2 n = cl_group s1 n"
    using moved_one [OF 1(2), of "GLoad SfStore" "cl_group s1 n"] 1(4) by auto
  let ?c = "sf_next (g_loader (cl_group s2 n))"
  obtain s3 where 3: "moved n i s2 s3" "cl_threads s3 n i = Some (GGet ''k'', GLoad (SfRun ?c))"
      "unused (cl_group s3 n)" "mget (sf_map (g_loader (cl_group s3 n))) ''k'' = Some ?c"
    using moved_one [OF 2(2), of "GLoad (SfRun ?c)"] 1(3) 2(3) by (fastforce simp: Let_def unused_def)
  with moved_trans [OF 1(1) moved_trans [OF 2(1) 3(1)]] show ?thesis by blast
qed

abbreviation pair_init :: Cluster where
  "pair_init \<equiv> cluster_init (\<lambda>_. make_group ''g'' 1 [WithPeers True])"

text \<open>Node 0 asks node 1, which asks node 0, which waits for its first load.\<close>

lemma cycle_reached:
  "\<exists>s c d. pair_step\<^sup>*\<^sup>* pair_init s
     \<and> cl_threads s 0 0 = Some (GGet ''k'', GLoad (SfRun c)) \<and> cl_request s 0 0 = Some (1, 0)
     \<and> cl_threads s 1 0 = Some (GGet ''k'', GLoad (SfRun d)) \<and> cl_request s 1 0 = Some (0, 1)
     \<and> cl_threads s 0 1 = Some (GGet ''k'', GLoad (SfWait c))"
proof -
  let ?x = "GGet ''k''"
  have new: "unused (make_group ''g'' 1 [WithPeers True])" "sf_map (g_loader (make_group ''g'' 1 [WithPeers True])) = []"
    by (simp_all add: unused_def make_group_def NewCache_def new_sf_group_def)
  have fwd: "unused g \<Longrightarrow> forwards pair_pick n g ''k'' = Some (1 - n)" for n g by (simp add: forwards_def unused_def pair_pick_def)
  let ?s1 = "set_thread 0 0 (Some (?x, GStart)) pair_init"
  have 1: "pair_step pair_init ?s1" by (rule cl_begin) (simp_all add: cluster_init_def)
  obtain s2 c where 2: "moved 0 0 ?s1 s2" "cl_threads s2 0 0 = Some (?x, GLoad (SfRun c))" "unused (cl_group s2 0)"
      "mget (sf_map (g_loader (cl_group s2 0))) ''k'' = Some c"
    using moved_to_run [of ?s1 0 0] new by (auto simp: cluster_init_def)
  have t2: "cl_threads s2 1 j = None" "cl_threads s2 0 (Suc j) = None" "cl_request s2 = (\<lambda>_ _. None)"
      "cl_group s2 1 = make_group ''g'' 1 [WithPeers True]" for j
    using 2(1) by (simp_all add: moved_def cluster_init_def)
  let ?s3 = "set_request 0 0 (Some (1, 0)) (set_thread 1 0 (Some (?x, GStart)) s2)"
  have 3: "pair_step s2 ?s3" by (rule cl_send [OF 2(2)]) (use fwd [OF 2(3), of 0] t2 in simp_all)
  obtain s4 d where 4: "moved 1 0 ?s3 s4" "cl_threads s4 1 0 = Some (?x, GLoad (SfRun d))" "unused (cl_group s4 1)"
    using moved_to_run [of ?s3 1 0] new t2 by auto
  have t4: "cl_threads s4 0 0 = Some (?x, GLoad (SfRun c))" "cl_threads s4 0 1 = None" "cl_request s4 1 0 = None"
      "cl_group s4 0 = cl_group s2 0" "cl_request s4 0 0 = Some (1, 0)"
    using 4(1) 2(2) t2 by (simp_all add: moved_def)
  let ?s5 = "set_request 1 0 (Some (0, 1)) (set_thread 0 1 (Some (?x, GStart)) s4)"
  have 5: "pair_step s4 ?s5" by (rule cl_send [OF 4(2)]) (use fwd [OF 4(3), of 1] t4 in simp_all)
  obtain s6 where 6: "moved 0 1 ?s5 s6" "cl_threads s6 0 1 = Some (?x, GLoad SfLoad)" "unused (cl_group s6 0)"
      "g_loader (cl_group s6 0) = g_loader (cl_group s2 0)"
    using moved_to_load [of ?s5 0 1] 2(3) t4 by auto
  obtain s7 where 7: "moved 0 1 s6 s7" "cl_threads s7 0 1 = Some (?x, GLoad (SfWait c))"
    using moved_one [OF 6(2), of "GLoad (SfWait c)" "cl_group s6 0"] 2(4) 6(4) by auto
  have reach: "pair_step\<^sup>*\<^sup>* ?s1 s2" "pair_step\<^sup>*\<^sup>* ?s3 s4" "pair_step\<^sup>*\<^sup>* ?s5 s6" "pair_step\<^sup>*\<^sup>* s6 s7"
    using 2(1) 4(1) 6(1) 7(1) by (simp_all add: moved_def)
  have "pair_step\<^sup>*\<^sup>* pair_init s7"
    by (rule converse_rtranclp_into_rtranclp [of pair_step, OF 1], rule rtranclp_trans [of pair_step, OF reach(1)],
        rule converse_rtranclp_into_rtranclp [of pair_step, OF 3], rule rtranclp_trans [of pair_step, OF reach(2)],
        rule converse_rtranclp_into_rtranclp [of pair_step, OF 5], rule rtranclp_trans [of pair_step, OF reach(3,4)])
  moreover have "cl_threads s7 0 0 = Some (?x, GLoad (SfRun c))" "cl_threads s7 1 0 = Some (?x, GLoad (SfRun d))"
      "cl_request s7 0 0 = Some (1, 0)" "cl_request s7 1 0 = Some (0, 1)"
    using 6(1) 7(1) t4 4(2) by (simp_all add: moved_def)
  ultimately show ?thesis using 7(2) by blast
qed

theorem mutual_forward_waits_witness:
  "\<exists>s. pair_step\<^sup>*\<^sup>* pair_init s \<and> cl_request s 0 0 = Some (1, 0) \<and> cl_request s 1 0 = Some (0, 1)
     \<and> (\<forall>s' pc. pair_step\<^sup>*\<^sup>* s s' \<and> cl_threads s' 0 0 = Some (GGet ''k'', pc) \<longrightarrow> \<not> group_finished pc)"
proof -
  obtain s where s: "pair_step\<^sup>*\<^sup>* pair_init s" "cl_request s 0 0 = Some (1, 0)" "cl_request s 1 0 = Some (0, 1)"
    using cycle_reached by blast
  have "\<not> group_finished pc" if r: "pair_step\<^sup>*\<^sup>* s s'" "cl_threads s' 0 0 = Some (GGet ''k'', pc)" for s' pc
  proof -
    have "pair_step\<^sup>*\<^sup>* pair_init s'" by (rule rtranclp_trans [of pair_step, OF s(1) r(1)])
    from mutual_forward_waits [of pair_pick 0 "''k''" 1 "\<lambda>_. [WithPeers True]" "''g''" "\<lambda>_. 1", OF _ _ _ _ _ _ this, of 0] r(2)
    show ?thesis by (simp add: pair_pick_def group_options_ok_def make_group_def)
  qed
  with s show ?thesis by blast
qed

end
