(* ===== verification/Lru2_Recent.thy ===== *)
theory Lru2_Recent
  imports Lru2_Props
begin

text \<open>
  What \<open>store/lru2.go\<close> promises a writer: a value that was just set is the one a read finds, and
  stays so as long as fewer other keys are set in its bucket than level 1 has room for.
\<close>

subsection \<open>A node near the head of a level\<close>

text \<open>The key \<open>k\<close> is in one of the first \<open>m + 1\<close> places, with this value and deadline.\<close>

definition recent :: "key \<Rightarrow> svalue option \<Rightarrow> int \<Rightarrow> nat \<Rightarrow> node list \<Rightarrow> bool" where
  "recent k v e m ns \<longleftrightarrow>
     (\<exists>as bs. ns = as @ \<lparr>nd_k = k, nd_v = v, nd_expireAt = e\<rparr> # bs \<and> length as \<le> m \<and> k \<notin> nd_k ` set as)"

lemma without_append: "without k (as @ bs) = without k as @ without k bs"
  by (simp add: without_def)

lemma without_head: "nd_k nd \<noteq> k \<Longrightarrow> without k (nd # ns) = nd # without k ns"
  by (simp add: without_def)

lemma recent_head: "recent k v e m (\<lparr>nd_k = k, nd_v = v, nd_expireAt = e\<rparr> # ns)"
  unfolding recent_def by (rule exI [of _ "[]"]) simp

lemma recent_put_same: "recent k v e 0 (snd (spec_put cap k v e ns))"
  by (simp add: spec_put_def Let_def recent_head)

lemma recent_without:
  assumes "recent k v e m ns" and "k' \<noteq> k"
  shows "recent k v e m (without k' ns @ xs)"
proof -
  obtain as bs where ns: "ns = as @ \<lparr>nd_k = k, nd_v = v, nd_expireAt = e\<rparr> # bs" "length as \<le> m" "k \<notin> nd_k ` set as"
    using assms(1) unfolding recent_def by blast
  have "without k' ns @ xs = without k' as @ \<lparr>nd_k = k, nd_v = v, nd_expireAt = e\<rparr> # (without k' bs @ xs)"
    using assms(2) by (simp add: ns(1) without_append without_head)
  moreover have "length (without k' as) \<le> m"
    using ns(2) length_filter_le [of "\<lambda>nd. nd_k nd \<noteq> k'" as] unfolding without_def by (rule order_trans [rotated])
  moreover have "k \<notin> nd_k ` set (without k' as)" using ns(3) by (auto simp: without_def)
  ultimately show ?thesis unfolding recent_def by blast
qed

lemma recent_cons:
  assumes "recent k v e m ns" and "nd_k nd \<noteq> k"
  shows "recent k v e (Suc m) (nd # ns)"
proof -
  obtain as bs where "ns = as @ \<lparr>nd_k = k, nd_v = v, nd_expireAt = e\<rparr> # bs" "length as \<le> m" "k \<notin> nd_k ` set as"
    using assms(1) unfolding recent_def by blast
  then show ?thesis unfolding recent_def using assms(2) by (intro exI [of _ "nd # as"] exI [of _ bs]) auto
qed

lemma recent_butlast:
  assumes "recent k v e m ns" and "Suc m < length ns"
  shows "recent k v e m (butlast ns)"
proof -
  obtain as bs where ns: "ns = as @ \<lparr>nd_k = k, nd_v = v, nd_expireAt = e\<rparr> # bs" "length as \<le> m" "k \<notin> nd_k ` set as"
    using assms(1) unfolding recent_def by blast
  then have "bs \<noteq> []" using assms(2) by auto
  then have "butlast ns = as @ \<lparr>nd_k = k, nd_v = v, nd_expireAt = e\<rparr> # butlast bs" by (simp add: ns(1) butlast_append)
  then show ?thesis using ns(2,3) unfolding recent_def by blast
qed

lemma recent_put:
  assumes "recent k v e m ns" and "k' \<noteq> k" and "Suc m < cap"
  shows "recent k v e (Suc m) (snd (spec_put cap k' v' e' ns))"
proof -
  have "recent k v e (Suc m) (nd # without k' ns)" if "nd_k nd = k'" for nd
    using recent_cons [OF recent_without [OF assms(1,2), of "[]"]] that assms(2) by simp
  moreover have "recent k v e (Suc m) (nd # butlast ns)" if "nd_k nd = k'" "length ns = cap" for nd
    using recent_cons [OF recent_butlast [OF assms(1)]] that assms(2,3) by simp
  moreover have "recent k v e (Suc m) (nd # ns)" if "nd_k nd = k'" for nd
    using recent_cons [OF assms(1)] that assms(2) by simp
  ultimately show ?thesis by (simp add: spec_put_def Let_def)
qed

lemma recent_del:
  assumes "recent k v e m ns" and "k' \<noteq> k"
  shows "recent k v e m (snd (spec_del k' ns))"
  using recent_without [OF assms] assms(1) by (simp add: spec_del_def split: option.split)

lemma recent_find: "recent k v e m ns \<Longrightarrow> node_at k ns = Some \<lparr>nd_k = k, nd_v = v, nd_expireAt = e\<rparr>"
proof -
  assume "recent k v e m ns"
  then obtain as bs where "ns = as @ \<lparr>nd_k = k, nd_v = v, nd_expireAt = e\<rparr> # bs" "k \<notin> nd_k ` set as"
    unfolding recent_def by blast
  then show ?thesis by (induction as arbitrary: ns) (auto simp: node_at_def)
qed

subsection \<open>Steps of the store\<close>

text \<open>Calls that are not about \<open>k\<close> and do not clear.\<close>

fun leaves_alone :: "key \<Rightarrow> store_op \<Rightarrow> bool" where
  "leaves_alone k (OpGet t k') \<longleftrightarrow> k' \<noteq> k"
| "leaves_alone k (OpSet t k' v d) \<longleftrightarrow> k' \<noteq> k"
| "leaves_alone k (OpDelete k') \<longleftrightarrow> k' \<noteq> k"
| "leaves_alone k OpClear \<longleftrightarrow> False"
| "leaves_alone k x \<longleftrightarrow> True"

fun sets_beside :: "(key \<Rightarrow> nat) \<Rightarrow> key \<Rightarrow> store_op \<Rightarrow> bool" where
  "sets_beside home k (OpSet t k' v d) \<longleftrightarrow> home k' = home k"
| "sets_beside home k x \<longleftrightarrow> False"

text \<open>Cleanup rounds before the deadline, and none when an older copy may be in level 2.\<close>

fun tick_before :: "int \<Rightarrow> bool \<Rightarrow> store_op \<Rightarrow> bool" where
  "tick_before e copied (OpTick now) \<longleftrightarrow> now < e \<and> \<not> copied"
| "tick_before e copied x \<longleftrightarrow> True"

lemma get_bucket_level1:
  "fst (snd (snd (spec_get_bucket n2 t k l))) \<in>
     {snd (spec_del k (fst l)), snd (spec_del k (snd (spec_del k (fst l))))}"
  by (simp add: spec_get_bucket_def case_prod_beta spec_delete_snd split: option.split)

lemma recent_get_bucket:
  assumes "recent k v e m (fst l)" and "k' \<noteq> k"
  shows "recent k v e m (fst (snd (snd (spec_get_bucket n2 t k' l))))"
  using get_bucket_level1 [of n2 t k' l] recent_del [OF assms] recent_del [OF recent_del [OF assms] assms(2)]
  by auto

lemma recent_delete_keys:
  "recent k v e m (fst l) \<Longrightarrow> k \<notin> set ks \<Longrightarrow> recent k v e m (fst (fold (\<lambda>k l. snd (spec_delete k l)) ks l))"
  by (induction ks arbitrary: l) (auto simp: spec_delete_snd recent_del)

lemma recent_expire:
  assumes "recent k v e m (fst l)" and "bucket_wf l" and "k \<notin> nd_k ` set (snd l)" and "now < e"
  shows "recent k v e m (fst (spec2_expire now l))"
proof -
  have d: "distinct (map nd_k (fst l))" using assms(2) by (simp add: bucket_wf_def)
  have "nd_expireAt nd = e" if "nd \<in> set (fst l)" "nd_k nd = k" for nd
  proof -
    have "node_at k (fst l) = Some nd" using node_at_Some [OF d] that by blast
    with recent_find [OF assms(1)] show ?thesis by simp
  qed
  moreover have "nd_k nd \<noteq> k" if "nd \<in> set (snd l)" for nd using that assms(3) by blast
  ultimately have "\<not> (is_live nd \<and> now \<ge> nd_expireAt nd)" if "nd \<in> set (bucket_nodes l)" "nd_k nd = k" for nd
    using that assms(4) by (force simp: bucket_nodes_def)
  then have "k \<notin> set (expired_key_list now l)"
    unfolding expired_key_list_def set_fold_add_key by auto
  then show ?thesis unfolding spec2_expire_def by (rule recent_delete_keys [OF assms(1)])
qed

lemma recent_step:
  assumes wf: "buckets_wf home bs" and r: "recent k v e m (fst (bs ! home k))" and x: "leaves_alone k x"
    and tick: "tick_before e (k \<in> nd_k ` set (snd (bs ! home k))) x"
    and room: "m + of_bool (sets_beside home k x) < n1"
  shows "recent k v e (m + of_bool (sets_beside home k x)) (fst (snd (spec2_step n1 n2 home x bs) ! home k))"
proof -
  have less: "home k < length bs" for k using wf by (simp add: buckets_wf_def)
  show ?thesis
  proof (cases x)
    case (OpGet t k')
    then show ?thesis using x r less recent_get_bucket [OF r]
      by (cases "home k' = home k") (simp_all add: spec2_get_def case_prod_beta)
  next
    case (OpSet t k' w d)
    then show ?thesis using x r less room recent_put [OF r, of k' n1]
      by (cases "home k' = home k") (simp_all add: spec2_set_def Let_def)
  next
    case (OpDelete k')
    then show ?thesis using x r less recent_del [OF r]
      by (cases "home k' = home k") (simp_all add: spec2_delete_def case_prod_beta spec_delete_snd)
  next
    case (OpTick now)
    then show ?thesis using tick less recent_expire [OF r buckets_wf_nth [OF wf]] by simp
  qed (use x r in simp_all)
qed

text \<open>Only a read of the key copies it to level 2.\<close>

definition promoted :: "(key \<Rightarrow> nat) \<Rightarrow> key \<Rightarrow> bucket list \<Rightarrow> bool" where
  "promoted home k bs \<longleftrightarrow> k \<in> nd_k ` set (snd (bs ! home k))"

lemma keys_get_level:
  "nd_k ` set (snd (spec_get_level now k ns)) \<subseteq> nd_k ` set ns"
proof -
  have "snd (spec_get_level now k ns) = snd (spec_get_node k ns)"
    by (auto simp: spec_get_level_def split: prod.split option.split)
  moreover have "node_at k ns = Some nd \<Longrightarrow> nd \<in> set ns" for nd
    by (auto simp: node_at_def find_Some_iff)
  ultimately show ?thesis by (auto simp: spec_get_node_def without_def split: option.splits)
qed

lemma get_bucket_level2:
  "snd (snd (snd (spec_get_bucket n2 t k l))) \<in>
     {snd (spec_del k (snd l)), snd (spec_get_level (snd t) k (snd l)), snd (spec_del k (snd (spec_get_level (snd t) k (snd l))))}
     \<union> range (\<lambda>(v, e). snd (spec_put n2 k v e (snd l)))"
  by (auto simp: spec_get_bucket_def case_prod_beta spec_delete_snd image_iff split: option.split)

lemma keys_get_bucket:
  assumes "bucket_wf l"
  shows "nd_k ` set (snd (snd (snd (spec_get_bucket n2 t k l)))) \<subseteq> insert k (nd_k ` set (snd l))"
proof -
  have d: "distinct (map nd_k (snd l))" using assms by (simp add: bucket_wf_def)
  from get_bucket_level2 [of n2 t k l] consider
      (del) "snd (snd (snd (spec_get_bucket n2 t k l))) = snd (spec_del k (snd l))"
    | (get) "snd (snd (snd (spec_get_bucket n2 t k l))) = snd (spec_get_level (snd t) k (snd l))"
    | (both) "snd (snd (snd (spec_get_bucket n2 t k l))) = snd (spec_del k (snd (spec_get_level (snd t) k (snd l))))"
    | (put) v e where "snd (snd (snd (spec_get_bucket n2 t k l))) = snd (spec_put n2 k v e (snd l))"
    by fastforce
  then show ?thesis
    using keys_get_level [of "snd t" k "snd l"] keys_del [OF d, of k]
      keys_del [OF distinct_get_level [OF d], of k "snd t" k] keys_put [of n2 k _ _ "snd l"]
    by cases auto
qed

lemma keys2_delete_keys:
  assumes "bucket_wf l"
  shows "nd_k ` set (snd (fold (\<lambda>k l. snd (spec_delete k l)) ks l)) = nd_k ` set (snd l)"
  using assms
proof (induction ks arbitrary: l)
  case (Cons k ks)
  then have "bucket_wf (snd (spec_delete k l))" by (simp add: bucket_wf_def spec_delete_snd distinct_del)
  from Cons.IH [OF this] Cons.prems show ?case by (simp add: spec_delete_snd keys_del bucket_wf_def)
qed simp

lemma promoted_delete:
  assumes "buckets_wf home bs"
  shows "promoted home k (snd (spec2_delete home k' bs)) \<longleftrightarrow> promoted home k bs"
  using assms keys_del [of "snd (bs ! home k')" k'] buckets_wf_nth [OF assms, of k']
  by (cases "home k' = home k")
    (simp_all add: promoted_def spec2_delete_def case_prod_beta spec_delete_snd buckets_wf_def bucket_wf_def)

lemma promoted_delete_keys:
  "buckets_wf home bs \<Longrightarrow> promoted home k (spec2_delete_keys home ks bs) \<longleftrightarrow> promoted home k bs"
  by (induction ks arbitrary: bs) (simp_all add: spec2_delete_keys_def promoted_delete wf_spec2_delete)

lemma promoted_step:
  assumes wf: "buckets_wf home bs" and p: "\<not> promoted home k bs" and x: "\<And>t. x \<noteq> OpGet t k"
  shows "\<not> promoted home k (snd (spec2_step n1 n2 home x bs))"
proof -
  have less: "home k < length bs" for k using wf by (simp add: buckets_wf_def)
  show ?thesis
  proof (cases x)
    case (OpGet t k')
    then have "k' \<noteq> k" using x by blast
    with OpGet show ?thesis using p less keys_get_bucket [OF buckets_wf_nth [OF wf, of k'], of n2 t k']
      by (cases "home k' = home k") (auto simp: promoted_def spec2_get_def case_prod_beta simp del: split_paired_All)
  next
    case (OpSet t k' w d)
    then show ?thesis using p less
      by (cases "home k' = home k") (simp_all add: promoted_def spec2_set_def Let_def)
  next
    case (OpDelete k')
    then show ?thesis using p promoted_delete [OF wf, of k k'] by (simp add: case_prod_beta)
  next
    case OpClear
    then show ?thesis using p promoted_delete_keys [OF wf] by simp
  next
    case (OpTick now)
    then show ?thesis using p less keys2_delete_keys [OF buckets_wf_nth [OF wf, of k]]
      by (simp add: promoted_def spec2_expire_def)
  qed (use p in simp)
qed

subsection \<open>Runs\<close>

lemma promoted_run:
  assumes "lru2_rep n1 n2 s bs" and "\<not> promoted (\<lambda>k. bucket_of k s) k bs" and "\<And>t. OpGet t k \<notin> set xs"
    and "run_ops lru2_step xs s = Some (outs, s')"
  shows "\<exists>bs'. lru2_rep n1 n2 s' bs' \<and> s_mask s' = s_mask s \<and> \<not> promoted (\<lambda>k. bucket_of k s) k bs'"
  using assms
proof (induction xs arbitrary: s bs outs)
  case (Cons x xs)
  obtain out s1 outs1 where run: "lru2_step x s = Some (out, s1)" "run_ops lru2_step xs s1 = Some (outs1, s')"
    using Cons.prems(4) by (auto split: option.splits prod.splits)
  let ?bs1 = "snd (spec2_step n1 n2 (\<lambda>k. bucket_of k s) x bs)"
  have s1: "lru2_rep n1 n2 s1 ?bs1" "s_mask s1 = s_mask s"
    using refine_step [OF Cons.prems(1), of x] run(1) by auto
  have home: "(\<lambda>k. bucket_of k s1) = (\<lambda>k. bucket_of k s)" using s1(2) by (simp add: bucket_of_def)
  have "\<not> promoted (\<lambda>k. bucket_of k s1) k ?bs1"
    unfolding home using Cons.prems(3) by (intro promoted_step lru2_rep_wf [OF Cons.prems(1)] Cons.prems(2)) auto
  from Cons.IH [OF s1(1) this _ run(2)] Cons.prems(3) s1(2) show ?case unfolding home by auto
qed auto

lemma tick_before_mono: "tick_before e c x \<Longrightarrow> c \<or> \<not> c' \<Longrightarrow> tick_before e c' x"
  by (cases x) auto

lemma recent_run:
  assumes "lru2_rep n1 n2 s bs" and "recent k v e m (fst (bs ! bucket_of k s))"
    and "\<forall>x \<in> set xs. leaves_alone k x \<and> tick_before e (promoted (\<lambda>k. bucket_of k s) k bs) x"
    and "m + length (filter (sets_beside (\<lambda>k. bucket_of k s) k) xs) < n1"
    and "run_ops lru2_step xs s = Some (outs, s')"
  shows "\<exists>bs' m'. lru2_rep n1 n2 s' bs' \<and> recent k v e m' (fst (bs' ! bucket_of k s'))"
  using assms
proof (induction xs arbitrary: s bs m outs)
  case (Cons x xs)
  obtain out s1 outs1 where run: "lru2_step x s = Some (out, s1)" "run_ops lru2_step xs s1 = Some (outs1, s')"
    using Cons.prems(5) by (auto split: option.splits prod.splits)
  let ?home = "\<lambda>k. bucket_of k s" let ?bs1 = "snd (spec2_step n1 n2 ?home x bs)"
  have s1: "lru2_rep n1 n2 s1 ?bs1" "s_mask s1 = s_mask s"
    using refine_step [OF Cons.prems(1), of x] run(1) by auto
  have home: "bucket_of k s1 = bucket_of k s" for k using s1(2) by (simp add: bucket_of_def)
  note wf = lru2_rep_wf [OF Cons.prems(1)]
  have "promoted ?home k bs \<or> \<not> promoted ?home k ?bs1"
    using promoted_step [OF wf, of k x n1 n2] Cons.prems(3) by (cases x) auto
  then have ticks: "\<forall>x \<in> set xs. leaves_alone k x \<and> tick_before e (promoted (\<lambda>k. bucket_of k s1) k ?bs1) x"
    using Cons.prems(3) tick_before_mono unfolding home by (meson list.set_intros(2))
  have "recent k v e (m + of_bool (sets_beside ?home k x)) (fst (?bs1 ! ?home k))"
    using Cons.prems(3,4) by (intro recent_step wf Cons.prems(2)) (auto simp: promoted_def)
  then have "recent k v e (m + of_bool (sets_beside ?home k x)) (fst (?bs1 ! bucket_of k s1))" by (simp only: home)
  moreover have "m + of_bool (sets_beside ?home k x) + length (filter (sets_beside (\<lambda>k. bucket_of k s1) k) xs) < n1"
    using Cons.prems(4) by (simp add: home split: if_splits)
  ultimately show ?case using Cons.IH [OF s1(1) _ ticks _ run(2)] by blast
qed auto

text \<open>A read that finds the key in level 1.\<close>

lemma get_recent:
  assumes rep: "lru2_rep n1 n2 s bs" and "recent k v e m (fst (bs ! bucket_of k s))" and "0 < e" and "fst t < e"
  shows "\<exists>s'. lru2_Get t k s = Some ((v, True), s')"
proof -
  have "fst (spec2_get n2 (\<lambda>k. bucket_of k s) t k bs) = (v, True)"
    using recent_find [OF assms(2)] assms(3,4)
    by (simp add: spec2_get_def spec_get_bucket_def spec_del_def case_prod_beta)
  with refine_get [OF rep, of t k] show ?thesis by auto
qed

lemma set_recent:
  assumes rep: "lru2_rep n1 n2 s bs" and "lru2_step (OpSet t k v d) s = Some (out, s')"
  shows "\<exists>bs'. lru2_rep n1 n2 s' bs' \<and> s_mask s' = s_mask s \<and> recent k v (expire_at (fst t) d) 0 (fst (bs' ! bucket_of k s'))
    \<and> (promoted (\<lambda>k. bucket_of k s) k bs' \<longrightarrow> promoted (\<lambda>k. bucket_of k s) k bs)"
proof -
  let ?bs' = "spec2_set n1 (\<lambda>k. bucket_of k s) t k v d bs"
  have s': "lru2_rep n1 n2 s' ?bs'" "s_mask s' = s_mask s" using refine_set [OF rep, of t k v d] assms(2) by auto
  have "bucket_of k s < length bs" using bucket_of_less [OF rep, of k] lru2_rep_bucket(2) [OF rep] by simp
  then have "recent k v (expire_at (fst t) d) 0 (fst (?bs' ! bucket_of k s'))"
    using s'(2) recent_put_same by (simp add: spec2_set_def Let_def bucket_of_def)
  moreover have "promoted (\<lambda>k. bucket_of k s) k ?bs' \<longrightarrow> promoted (\<lambda>k. bucket_of k s) k bs"
    using promoted_step [OF lru2_rep_wf [OF rep], of k "OpSet t k v d" n1 n2] by auto
  ultimately show ?thesis using s' by blast
qed

text \<open>
  C23. A value that was set is kept: on a store with any history, after a set of a key its read
  answers with that value until its deadline, as long as the calls in between are not about the
  key, set fewer other keys of its bucket than level 1 has room for, do not clear the store, and
  (when the key was read before the set, so that level 2 may hold an older copy) run no cleanup.
\<close>

theorem lru2_retains_recent:
  assumes "lru2_options_ok opts" and "run_ops lru2_step ops (newLRU2Cache opts) = Some (outs, s)"
    and "run_ops lru2_step (OpSet t k v d # xs) s = Some (outs', s')"
    and "\<forall>x \<in> set xs. leaves_alone k x \<and> tick_before (expire_at (fst t) d) (\<exists>t. OpGet t k \<in> set ops) x"
    and "length (filter (sets_beside (\<lambda>k. bucket_of k s) k) xs) < unat (CapPerBucket (lru2_options opts))"
    and "0 < expire_at (fst t) d" and "fst t' < expire_at (fst t) d"
  shows "\<exists>s''. lru2_Get t' k s' = Some ((v, True), s'')"
proof -
  let ?n1 = "unat (CapPerBucket (lru2_options opts))" and ?n2 = "unat (Level2Cap (lru2_options opts))"
  let ?e = "expire_at (fst t) d"
  obtain bs0 where rep0: "lru2_rep ?n1 ?n2 (newLRU2Cache opts) bs0" and bs0: "bs0 = replicate (bucket_total opts) ([], [])"
    using new_rep [OF assms(1)] by blast
  have "\<exists>bs. lru2_rep ?n1 ?n2 s bs \<and> (promoted (\<lambda>k. bucket_of k s) k bs \<longrightarrow> (\<exists>t. OpGet t k \<in> set ops))"
  proof (cases "\<exists>t. OpGet t k \<in> set ops")
    case True
    with refine_run [OF rep0, of ops] assms(2) show ?thesis by auto
  next
    case False
    have "bucket_of k (newLRU2Cache opts) < length bs0"
      using bucket_of_less [OF rep0, of k] lru2_rep_bucket(2) [OF rep0] by simp
    then have "\<not> promoted (\<lambda>k. bucket_of k (newLRU2Cache opts)) k bs0" by (simp add: promoted_def bs0)
    from promoted_run [OF rep0 this _ assms(2)] False obtain bs where
      bs: "lru2_rep ?n1 ?n2 s bs" "s_mask s = s_mask (newLRU2Cache opts)"
        "\<not> promoted (\<lambda>k. bucket_of k (newLRU2Cache opts)) k bs" by blast
    have "\<not> promoted (\<lambda>k. bucket_of k s) k bs" using bs(3) by (simp add: bucket_of_def bs(2))
    with bs(1) show ?thesis by blast
  qed
  then obtain bs where bs: "lru2_rep ?n1 ?n2 s bs" "promoted (\<lambda>k. bucket_of k s) k bs \<longrightarrow> (\<exists>t. OpGet t k \<in> set ops)"
    by blast
  obtain out s1 outs1 where run: "lru2_step (OpSet t k v d) s = Some (out, s1)" "run_ops lru2_step xs s1 = Some (outs1, s')"
    using assms(3) by (auto split: option.splits prod.splits)
  obtain bs1 where bs1: "lru2_rep ?n1 ?n2 s1 bs1" "s_mask s1 = s_mask s" "recent k v ?e 0 (fst (bs1 ! bucket_of k s1))"
      "promoted (\<lambda>k. bucket_of k s) k bs1 \<longrightarrow> promoted (\<lambda>k. bucket_of k s) k bs"
    using set_recent [OF bs(1) run(1)] by blast
  have home: "bucket_of k s1 = bucket_of k s" for k using bs1(2) by (simp add: bucket_of_def)
  have "tick_before ?e (promoted (\<lambda>k. bucket_of k s1) k bs1) x" if "x \<in> set xs" for x
    unfolding home using assms(4) that bs(2) bs1(4) by (blast intro: tick_before_mono)
  with assms(4) have "\<forall>x \<in> set xs. leaves_alone k x \<and> tick_before ?e (promoted (\<lambda>k. bucket_of k s1) k bs1) x" by blast
  from recent_run [OF bs1(1,3) this _ run(2)] assms(5) obtain bs' m' where
    "lru2_rep ?n1 ?n2 s' bs'" "recent k v ?e m' (fst (bs' ! bucket_of k s'))" by (auto simp: home)
  from get_recent [OF this assms(6,7)] show ?thesis .
qed

text \<open>
  The cleanup is excluded for a reason: the deadline of an old copy in level 2 makes it delete the
  key from both levels, and with it the value that was set since and has not expired.
\<close>

lemma lru2_cleanup_deletes_fresh_value:
  "map_option fst (run_ops lru2_step
     [OpSet (0, 0) ''k'' (Some (Opaque 1)) 5, OpGet (1, 1) ''k'', OpSet (2, 2) ''k'' (Some (Opaque 2)) 100,
      OpTick 5, OpGet (6, 6) ''k''] (newLRU2Cache tiny))
   = Some [OUnit, OVal (Some (Opaque 1)) True, OUnit, OUnit, OVal None False]"
  unfolding tiny_run by (simp add: spec2_simps spec2_expire_def expired_key_list_def add_key_def)

theorem lru2_retains_recent_witness:
  "\<exists>outs s s''. run_ops lru2_step [OpSet (0, 0) ''k'' (Some (Opaque 7)) 9, OpGet (1, 1) ''j'', OpTick 2, OpDelete ''j'']
       (newLRU2Cache tiny) = Some (outs, s) \<and> lru2_Get (8, 8) ''k'' s = Some ((Some (Opaque 7), True), s'')"
proof -
  let ?xs = "[OpGet (1, 1) ''j'', OpTick 2, OpDelete ''j'']"
  obtain outs s where run: "run_ops lru2_step (OpSet (0, 0) ''k'' (Some (Opaque 7)) 9 # ?xs) (newLRU2Cache tiny) = Some (outs, s)"
    using lru2.run_total [OF new_inv [OF tiny_options(1)]] by blast
  have "\<exists>s''. lru2_Get (8, 8) ''k'' s = Some ((Some (Opaque 7), True), s'')"
    by (rule lru2_retains_recent [OF tiny_options(1) _ run, of "[]"]) (simp_all add: tiny_options expire_at_def max_int64_def)
  with run show ?thesis by blast
qed

end
