(* ===== verification/Cache_Group_Writes.thy ===== *)
theory Cache_Group_Writes
  imports Lru2_Recent Cache_Group_Props
begin

text \<open>
  What a write to a \<open>Group\<close> (\<open>group.go\<close>) over the default engine promises the next reader,
  through the layers \<open>group.go\<close>, \<open>cache.go\<close> and \<open>store/lru2.go\<close>, and the write of a load that
  was overtaken.
\<close>

subsection \<open>The cache\<close>

text \<open>A cache whose store is, or will be, the two-level engine.\<close>

definition lru2_cache :: "Cache \<Rightarrow> bool" where
  "lru2_cache c \<longleftrightarrow>
     (case c_store c of None \<Rightarrow> co_CacheType (c_opts c) = LRU2 | Some st \<Rightarrow> (case st of StLru2 s \<Rightarrow> True | StLru s \<Rightarrow> False))"

text \<open>The deadline the store gives to a value that a call adds, and whether the call adds it.\<close>

fun deadline :: "call \<Rightarrow> int" where
  "deadline (CAdd t k v) = expire_at (fst t) 0"
| "deadline (CAddExp t now k v e) = expire_at (fst t) (e - now)"
| "deadline x = 0"

fun adds :: "call \<Rightarrow> key \<Rightarrow> byteview \<Rightarrow> bool" where
  "adds (CAdd t k' v') k v \<longleftrightarrow> k' = k \<and> v' = v"
| "adds (CAddExp t now k' v' e) k v \<longleftrightarrow> k' = k \<and> v' = v \<and> now < e"
| "adds x k v \<longleftrightarrow> False"

lemma initialize_lru2:
  assumes "cache_inv c" and "lru2_cache c"
  obtains s where "c_store (initialize c) = Some (StLru2 s)" "lru2_inv s"
proof -
  have i: "cache_inv (initialize c)" using initialize_inv [OF assms(1)] by blast
  have "\<exists>s. c_store (initialize c) = Some (StLru2 s)"
    using assms by (cases "c_store c"; cases "the (c_store c)")
      (auto simp: initialize_def lru2_cache_def cache_inv_def NewStore_def)
  then obtain s where s: "c_store (initialize c) = Some (StLru2 s)" by blast
  moreover have "lru2_inv s" using i s by (auto simp: cache_inv_def store_ok_def)
  ultimately show thesis by (rule that)
qed

lemma lru2_set_then_get:
  assumes "lru2_inv s" and "lru2_step (OpSet t k v d) s = Some (out, s')"
    and "0 < expire_at (fst t) d" and "fst t' < expire_at (fst t) d"
  shows "\<exists>s''. lru2_step (OpGet t' k) s' = Some (OVal v True, s'')"
proof -
  obtain n1 n2 bs where rep: "lru2_rep n1 n2 s bs" using assms(1) by (auto simp: lru2_inv_def)
  obtain bs' where "lru2_rep n1 n2 s' bs'" "recent k v (expire_at (fst t) d) 0 (fst (bs' ! bucket_of k s'))"
    using set_recent [OF rep assms(2)] by blast
  from get_recent [OF this assms(3,4)] show ?thesis by auto
qed

lemma cache_add:
  assumes inv: "cache_inv c" and opn: "\<not> c_closed c" and lru2: "lru2_cache c" and x: "adds x k v"
    and call: "cache_call x c = Some (r, c1)"
  obtains t e s s1 out where "deadline x = expire_at (fst t) e" "lru2_inv s"
    "lru2_step (OpSet t k (Some (BV v)) e) s = Some (out, s1)"
    "c_store c1 = Some (StLru2 s1)" "c_initialized c1" "\<not> c_closed c1"
proof -
  obtain s where s: "c_store (initialize c) = Some (StLru2 s)" "lru2_inv s" by (rule initialize_lru2 [OF inv lru2])
  obtain t e where set: "deadline x = expire_at (fst t) e"
      "cache_section x Locked (initialize c) =
        do { (_, c) \<leftarrow> on_store (OpSet t k (Some (BV v)) e) (initialize c); Some (Return RUnit, c) }"
    using x opn by (cases x) auto
  have w: "is_write x" using x by (cases x) auto
  have "x = CAddExp t n k' v' e \<Longrightarrow> n < e" for t n k' v' e using x by simp
  then have last: "last_section x (initialize c) = Some (r, c1)" using call_write [OF opn w] call by auto
  obtain out s1 where s1: "lru2_step (OpSet t k (Some (BV v)) e) s = Some (out, s1)"
    using lru2.step_total [OF s(2)] by blast
  then have "c1 = (initialize c)\<lparr>c_store := Some (StLru2 s1)\<rparr>"
    using last s(1) unfolding last_section_def set(2) by (auto simp: on_store_def)
  then show thesis using opn by (intro that [OF set(1) s(2) s1]) (simp_all add: initialize_def)
qed

lemma cache_add_then_get:
  assumes "cache_inv c" and "\<not> c_closed c" and "lru2_cache c" and "adds x k v" and "cache_call x c = Some (r, c1)"
    and d: "0 < deadline x" "fst t' < deadline x"
  shows "\<exists>c2. cache_call (CGet t' k) c1 = Some (RGet v True, c2)"
proof (rule cache_add [OF assms(1-5)])
  fix t e s s1 out
  assume a: "deadline x = expire_at (fst t) e" "lru2_inv s" "lru2_step (OpSet t k (Some (BV v)) e) s = Some (out, s1)"
    "c_store c1 = Some (StLru2 s1)" "c_initialized c1" "\<not> c_closed c1"
  obtain s2 where "lru2_step (OpGet t' k) s1 = Some (OVal (Some (BV v)) True, s2)"
    using lru2_set_then_get [OF a(2,3)] d unfolding a(1) by blast
  then have "\<exists>c2. last_section (CGet t' k) c1 = Some (RGet v True, c2)"
    using a(4,6) by (simp add: last_section_def on_store_def del: lru2_step.simps)
  with a(5,6) show ?thesis using call_read [of c1 "CGet t' k"] by simp
qed

subsection \<open>The group\<close>

text \<open>The write of a group is in time: its deadline has not passed when \<open>AddWithExpiration\<close> checks it.\<close>

definition in_time :: "group_env \<Rightarrow> Group \<Rightarrow> bool" where
  "in_time e g \<longleftrightarrow> (0 < g_expiration g \<longrightarrow> ge_until e < ge_now e + g_expiration g)"

definition group_deadline :: "group_env \<Rightarrow> Group \<Rightarrow> int" where
  "group_deadline e g =
     expire_at (fst (ge_clk e)) (if 0 < g_expiration g then ge_now e + g_expiration g - ge_until e else 0)"

text \<open>A group that accepts calls, over the two-level engine.\<close>

definition serving :: "Group \<Rightarrow> bool" where
  "serving g \<longleftrightarrow> group_idle g \<and> \<not> g_closed g \<and> \<not> c_closed (g_mainCache g) \<and> lru2_cache (g_mainCache g)"

lemma write_adds: "in_time e g \<Longrightarrow> adds (cache_write e g k v) k v"
  by (simp add: cache_write_def in_time_def)

lemma write_deadline: "deadline (cache_write e g k v) = group_deadline e g"
  by (simp add: cache_write_def group_deadline_def)

text \<open>What \<open>Get\<close> answers once a write of the group has been made on its cache.\<close>

lemma get_after_write:
  assumes g: "serving g" and w: "in_time e h" "0 < group_deadline e h" "fst (ge_clk e') < group_deadline e h"
    and call: "cache_call (cache_write e h k v) (g_mainCache g) = Some (r, c)" and k: "k \<noteq> []" and quiet: "env_quiet e'"
  shows "\<exists>g2. group_do e' (GGet k) (g\<lparr>g_stats := s, g_mainCache := c\<rparr>) = Some (GView v, g2)"
proof -
  let ?g = "g\<lparr>g_stats := s, g_mainCache := c\<rparr>"
  have inv: "cache_inv (g_mainCache g)" using g by (simp add: serving_def group_idle_def)
  obtain c2 where "cache_call (CGet (ge_clk e') k) c = Some (RGet v True, c2)"
    using cache_add_then_get [OF inv _ _ write_adds [OF w(1)] call, of "ge_clk e'"] g w(2,3)
    by (auto simp: serving_def write_deadline)
  moreover have "group_idle ?g" using g cache_call_ok [OF inv, of "cache_write e h k v"] call
    by (auto simp: serving_def group_idle_def)
  ultimately show ?thesis using group_do_get [OF _ quiet, of ?g k] g k
    by (simp add: read_through_def Let_def serving_def)
qed

lemma serving_write:
  assumes g: "serving g" and w: "in_time e h" and call: "cache_call (cache_write e h k v) (g_mainCache g) = Some (r, c)"
  shows "serving (g\<lparr>g_stats := s, g_mainCache := c\<rparr>)"
proof -
  have inv: "cache_inv (g_mainCache g)" and opn: "\<not> c_closed (g_mainCache g)" "lru2_cache (g_mainCache g)"
    using g by (simp_all add: serving_def group_idle_def)
  have "cache_inv c" using cache_call_ok [OF inv, of "cache_write e h k v"] call by auto
  moreover have "\<not> c_closed c \<and> lru2_cache c"
    by (rule cache_add [OF inv opn write_adds [OF w] call]) (simp add: lru2_cache_def)
  ultimately show ?thesis using g by (simp add: serving_def group_idle_def)
qed

lemma group_write_read:
  assumes "serving g" and "k \<noteq> []" and "v \<noteq> []" and "in_time e g"
    and "0 < group_deadline e g" and "fst (ge_clk e') < group_deadline e g" and "env_quiet e'"
  shows "\<exists>g1 g2. group_do e (GSet k v p) g = Some (GDone (started p g (SyncSet k v)), g1)
    \<and> group_do e' (GGet k) g1 = Some (GView (ByteView v), g2)"
proof -
  have inv: "cache_inv (g_mainCache g)" using assms(1) by (simp add: serving_def group_idle_def)
  obtain r c where c: "cache_call (cache_write e g k (ByteView v)) (g_mainCache g) = Some (r, c)"
    using cache_total [OF inv] by metis
  have "group_do e (GSet k v p) g = Some (GDone (started p g (SyncSet k v)), g\<lparr>g_mainCache := c\<rparr>)"
    using group_do_set [of g e k v p] assms(1-3) c by (simp add: serving_def cache_then_def)
  with get_after_write [OF assms(1) assms(4-6) c assms(2,7), of "g_stats g"] show ?thesis by simp
qed

text \<open>
  C26. A write can be lost to a slower load of the same key: a \<open>Get\<close> whose load has already read
  the old value stores it without looking, also after a \<open>Set\<close> of a new value has returned; from
  then on the group answers the old value.
\<close>

theorem late_load_hides_set:
  assumes "serving g" and "k \<noteq> []" and "v \<noteq> []" and "in_time e0 g"
    and "in_time e g" and "0 < group_deadline e g" and "fst (ge_clk e') < group_deadline e g" and "env_quiet e'"
  shows "\<exists>g1 g2 g3. group_do e0 (GSet k v p) g = Some (GDone (started p g (SyncSet k v)), g1)
    \<and> group_run 11 e (GGet k) (GLoad (SfReturn (Some old) None)) g1 = Some (GView old, g2)
    \<and> group_do e' (GGet k) g2 = Some (GView old, g3)"
proof -
  have inv: "cache_inv (g_mainCache g)" using assms(1) by (simp add: serving_def group_idle_def)
  obtain r c where c: "cache_call (cache_write e0 g k (ByteView v)) (g_mainCache g) = Some (r, c)"
    using cache_total [OF inv] by metis
  let ?g1 = "g\<lparr>g_mainCache := c\<rparr>"
  have set: "group_do e0 (GSet k v p) g = Some (GDone (started p g (SyncSet k v)), ?g1)"
    using group_do_set [of g e0 k v p] assms(1-3) c by (simp add: serving_def cache_then_def)
  have g1: "serving ?g1" using serving_write [OF assms(1,4) c, of "g_stats g"] by simp
  then have inv1: "cache_inv (g_mainCache ?g1)" by (simp add: serving_def group_idle_def)
  obtain r2 c2 where c2: "cache_call (cache_write e ?g1 k old) (g_mainCache ?g1) = Some (r2, c2)"
    using cache_total [OF inv1] by metis
  have "in_time e ?g1" "0 < group_deadline e ?g1" "fst (ge_clk e') < group_deadline e ?g1"
    using assms(5-7) by (simp_all add: in_time_def group_deadline_def split: if_splits)
  from get_after_write [OF g1 this c2 assms(2,8), of "record_load e False (g_stats g)"] load_value_run [OF c2] set
  show ?thesis by simp
qed

subsection \<open>The values of calls that run alone\<close>

lemma held_in_call:
  assumes "cache_inv c" and "held_in P c" and "cache_call x c = Some (r, c')" and "writes_in P x"
  shows "held_in P c'"
  unfolding held_in_def
proof (intro allI impI)
  fix k v assume "v \<in> cache_held c' k"
  with held_call [OF assms(1,3), of k] have "v \<in> call_keeps x k (cache_held c k)" by blast
  then show "P k v" using assms(2,4) by (cases x) (auto simp: held_in_def writes_in_def split: if_splits)
qed

lemma held_in_hit:
  assumes "cache_inv c" and "held_in P c" and "cache_call (CGet t k) c = Some (RGet v True, c')"
  shows "P k v"
proof (cases "c_closed c")
  case True
  then show ?thesis using assms(3) call_closed [OF True, of "CGet t k"] by simp
next
  case False
  from get_answer [OF assms(1) False assms(3)] obtain st where "c_store c = Some st" "BV v \<in> store_held st k" by auto
  then show ?thesis using assms(2) False by (simp add: held_in_def cache_held_def)
qed

lemma write_writes_in: "P k v \<Longrightarrow> writes_in P (cache_write e g k v)"
  by (simp add: cache_write_def writes_in_def)

lemma group_do_idle:
  assumes "group_idle g" and "env_quiet e" and "group_do e x g = Some (r, g')"
  shows "group_idle g'" and "group_kept g g'"
  using group_do_ok [OF assms(1,2), of x] assms(3) by (auto simp: group_kept_def)

lemma group_set_values:
  assumes "group_idle g" and "held_in P (g_mainCache g)" and "P k (ByteView v)" and "group_do e (GSet k v p) g = Some (r, g')"
  shows "held_in P (g_mainCache g')"
proof -
  have "cache_inv (g_mainCache g)" using assms(1) by (simp add: group_idle_def)
  from held_in_call [OF this assms(2) _ write_writes_in [where P = P and k = k, OF assms(3)]] assms(2,4) show ?thesis
    by (auto simp: group_do_set [OF assms(1)] cache_then_def split: if_splits)
qed

lemma group_get_values:
  assumes idle: "group_idle g" and P: "held_in P (g_mainCache g)" and e: "answers_in P e" "env_quiet e"
    and get: "group_do e (GGet k) g = Some (r, g')"
  shows "held_in P (g_mainCache g') \<and> (\<forall>v. r = GView v \<longrightarrow> P k v)"
proof -
  have rt: "read_through e k g = Some (r, g')" using get group_do_get [OF idle e(2)] by simp
  have inv: "cache_inv (g_mainCache g)" using idle by (simp add: group_idle_def)
  show ?thesis
  proof (cases "g_closed g \<or> k = []")
    case True
    then have "read_through e k g = Some (if g_closed g then GError ErrGroupClosed else GError ErrKeyRequired, g)"
      by (auto simp: read_through_def)
    with rt P show ?thesis by (auto split: if_splits)
  next
    case False
    obtain q c where c: "cache_call (CGet (ge_clk e) k) (g_mainCache g) = Some (q, c)" "cache_inv c"
      using cache_total [OF inv] by metis
    obtain view hit where q: "q = RGet view hit" using get_call_shape [OF inv c(1)] by blast
    have Pc: "held_in P c" by (rule held_in_call [OF inv P c(1)]) (simp add: writes_in_def)
    show ?thesis
    proof (cases hit)
      case True
      then show ?thesis using rt False c(1) q Pc held_in_hit [OF inv P, of "ge_clk e" k view c]
        by (auto simp: read_through_def Let_def)
    next
      case miss: False
      show ?thesis
      proof (cases rule: loadData_shape [OF e(2), of "g_peers g" "g_name g" k "count_hit hit (g_stats g)"])
        case (1 v s)
        then have Pv: "P k v" using loadData_good [OF e(1), of k "g_peers g" "g_name g" "count_hit hit (g_stats g)"]
          by (simp add: fn_good_def)
        show ?thesis using rt False c(1) q miss 1 Pv held_in_call [OF c(2) Pc _ write_writes_in [where P = P and k = k, OF Pv]]
          by (auto simp: read_through_def Let_def)
      next
        case (2 v err s)
        then show ?thesis using rt False c(1) q miss Pc by (auto simp: read_through_def Let_def)
      qed
    qed
  qed
qed

text \<open>A group over the default options before its first call.\<close>

lemma serving_new: "serving (make_group n b [])"
proof -
  note f = fresh_idle [OF fresh_default [of n b]]
  have "\<not> c_closed (g_mainCache (make_group n b [])) \<and> lru2_cache (g_mainCache (make_group n b []))"
    by (simp add: make_group_def NewCache_def DefaultCacheOptions_def lru2_cache_def)
  with f show ?thesis by (simp add: serving_def)
qed

lemma new_deadline: "in_time idle_env (make_group n b [])" "group_deadline idle_env (make_group n b []) = max_int64"
    "fst (ge_clk idle_env) < max_int64" "0 < max_int64"
  by (simp_all add: in_time_def group_deadline_def make_group_def expire_at_def idle_env_def max_int64_def)

theorem late_load_hides_set_witness:
  "\<exists>g1 g2 g3. group_do idle_env (GSet ''k'' [2] True) (make_group ''g'' 1 []) = Some (GDone None, g1)
     \<and> group_run 11 idle_env (GGet ''k'') (GLoad (SfReturn (Some (ByteView [1])) None)) g1 = Some (GView (ByteView [1]), g2)
     \<and> group_do idle_env (GGet ''k'') g2 = Some (GView (ByteView [1]), g3)"
proof -
  have "started True (make_group ''g'' 1 []) (SyncSet ''k'' [2]) = None" by (simp add: started_def)
  with late_load_hides_set [OF serving_new _ _ new_deadline(1,1) _ _ idle_env_quiet, of "''k''" "[2]" "''g''" 1 True "ByteView [1]"]
  show ?thesis by (simp add: new_deadline)
qed

text \<open>A whole call, as steps of the interleaved system.\<close>

lemma run_steps:
  assumes "group_run n e x pc g = Some (r, g')" and "envs e" and "ts i = Some (x, pc)"
  shows "(group_step calls envs)\<^sup>*\<^sup>* (g, ts) (g', ts(i \<mapsto> (x, GReturn r)))"
  using assms(1,3)
proof (induction n arbitrary: pc g ts)
  case (Suc n)
  show ?case
  proof (cases "\<exists>r. pc = GReturn r")
    case True
    with Suc.prems(1) have "g' = g" "pc = GReturn r" by auto
    with fun_upd_idem [of ts i, OF Suc.prems(2)] show ?thesis by simp
  next
    case False
    then obtain pc' g1 where 1: "group_section e x pc g = Some (pc', g1)" "group_run n e x pc' g1 = Some (r, g')"
      using Suc.prems(1) by (auto simp: group_run_step split: Option.bind_splits)
    have "group_step calls envs (g, ts) (g1, ts(i \<mapsto> (x, pc')))" by (rule group_one) (rule Suc.prems(2) assms(2) 1(1))+
    moreover have "(group_step calls envs)\<^sup>*\<^sup>* (g1, ts(i \<mapsto> (x, pc'))) (g', ts(i \<mapsto> (x, GReturn r)))"
      using Suc.IH [OF 1(2), of "ts(i \<mapsto> (x, pc'))"] by (metis fun_upd_same fun_upd_upd)
    ultimately show ?thesis by (rule converse_rtranclp_into_rtranclp)
  qed
qed simp

lemma call_steps:
  assumes "group_do e x g = Some (r, g')" and "envs e" and "calls x" and "ts i = None"
  shows "(group_step calls envs)\<^sup>*\<^sup>* (g, ts) (g', ts(i \<mapsto> (x, GReturn r)))"
proof -
  have "group_step calls envs (g, ts) (g, ts(i \<mapsto> (x, GStart)))" by (rule group_begin) (rule assms)+
  moreover have "(group_step calls envs)\<^sup>*\<^sup>* (g, ts(i \<mapsto> (x, GStart))) (g', ts(i \<mapsto> (x, GReturn r)))"
    using run_steps [of group_fuel e x GStart g r g' envs "ts(i \<mapsto> (x, GStart))" i calls] assms(1,2)
    unfolding group_do_def by (metis fun_upd_same fun_upd_upd)
  ultimately show ?thesis by (rule converse_rtranclp_into_rtranclp)
qed

text \<open>
  One goroutine reads a key that the data source has, a second sets another key, and a third reads
  that one.
\<close>

definition two_keys :: "key \<Rightarrow> byteview \<Rightarrow> bool" where
  "two_keys k v \<longleftrightarrow> (k, v) = (''j'', ByteView [2]) \<or> (k, v) = (''k'', ByteView [1])"

definition source_env :: group_env where
  "source_env = idle_env\<lparr>ge_load := (ge_load idle_env)
     \<lparr>le_getter := \<lambda>k. if k = ''j'' then GetterReturn [2] None else GetterReturn [] (Some [])\<rparr>\<rparr>"

lemma source_env_ok: "answers_in two_keys source_env" "env_quiet source_env" "answers_in two_keys idle_env"
  by (simp_all add: answers_in_def env_quiet_def source_env_def idle_env_def two_keys_def)

lemma fresh_source_get:
  "\<exists>g1. group_do source_env (GGet ''j'') (make_group n b []) = Some (GView (ByteView [2]), g1)
     \<and> serving g1 \<and> in_time idle_env g1 \<and> group_deadline idle_env g1 = max_int64"
proof -
  let ?g = "make_group n b []" let ?c = "(g_mainCache ?g)\<lparr>c_misses := 1\<rparr>" let ?v = "ByteView [2]"
  have s: "serving ?g" by (rule serving_new)
  then have idle: "group_idle ?g" and inv: "cache_inv ?c" "\<not> c_closed ?c" "lru2_cache ?c" and opn: "\<not> g_closed ?g"
    by (simp_all add: serving_def group_idle_def lru2_cache_def cache_inv_def cong: option.case_cong)
  obtain r c where c: "cache_call (cache_write source_env ?g ''j'' ?v) ?c = Some (r, c)"
    using cache_total [OF inv(1)] by metis
  have "adds (cache_write source_env ?g ''j'' ?v) ''j'' ?v" by (rule write_adds) (simp add: in_time_def make_group_def)
  then have cl: "\<not> c_closed c \<and> lru2_cache c" by (rule cache_add [OF inv _ c]) (simp add: lru2_cache_def)
  have w: "g_expiration h = 0 \<Longrightarrow> cache_write source_env h ''j'' ?v = CAdd (ge_clk source_env) ''j'' ?v" for h
    by (simp add: cache_write_def make_group_def)
  have x: "g_expiration ?g = 0" by (simp add: make_group_def)
  have "fst (loadData (g_peers ?g) m (ge_load source_env) ''j'' st) = FnReturn (Some ?v) None" for m st
    by (simp add: loadData_def from_getter_def source_env_def make_group_def)
  then have ld: "\<exists>st'. loadData (g_peers ?g) m (ge_load source_env) ''j'' st = (FnReturn (Some ?v) None, st')" for m st
    by (metis prod.collapse)
  have "\<exists>st l. read_through source_env ''j'' ?g = Some (GView ?v, ?g\<lparr>g_loader := l, g_stats := st, g_mainCache := c\<rparr>)"
    using opn ld [of "g_name ?g" "count_hit False (g_stats ?g)"] c [unfolded w [OF x]] x fresh_get_misses [of "ge_clk source_env" "''j''" n b]
    by (auto simp: read_through_def Let_def w after_load_def) (intro exI, rule refl)
  then obtain st l where do: "group_do source_env (GGet ''j'') ?g = Some (GView ?v, ?g\<lparr>g_loader := l, g_stats := st, g_mainCache := c\<rparr>)"
    using group_do_get [OF idle source_env_ok(2), of "''j''"] by metis
  moreover from group_do_idle(1) [OF idle source_env_ok(2) this]
  have "serving (?g\<lparr>g_loader := l, g_stats := st, g_mainCache := c\<rparr>)" using cl opn by (simp add: serving_def)
  ultimately show ?thesis using new_deadline(1,2) [of n b] by (auto simp: in_time_def group_deadline_def)
qed

theorem group_values_by_key_witness:
  "\<exists>g ts. (group_step (call_in two_keys) (answers_in two_keys))\<^sup>*\<^sup>* (make_group ''g'' 1 [], no_threads) (g, ts)
     \<and> ts 1 = Some (GGet ''j'', GReturn (GView (ByteView [2])))
     \<and> ts 2 = Some (GSet ''k'' [1] False, GReturn (GDone None))
     \<and> ts 3 = Some (GGet ''k'', GReturn (GView (ByteView [1])))
     \<and> cache_held (g_mainCache g) ''k'' \<subseteq> {ByteView [1]} \<and> cache_held (g_mainCache g) ''j'' \<subseteq> {ByteView [2]}"
proof -
  let ?R = "group_step (call_in two_keys) (answers_in two_keys)" let ?g = "make_group ''g'' 1 []"
  obtain g1 where 1: "group_do source_env (GGet ''j'') ?g = Some (GView (ByteView [2]), g1)"
      "serving g1" "in_time idle_env g1" "group_deadline idle_env g1 = max_int64"
    using fresh_source_get by blast
  have "\<not> g_peers g1" using group_do_idle(2) [OF _ source_env_ok(2) 1(1)] serving_new [of "''g''" 1]
    by (simp add: group_kept_def serving_def make_group_def)
  then have "started False g1 (SyncSet ''k'' [1]) = None" by (simp add: started_def)
  then obtain g2 g3 where 2: "group_do idle_env (GSet ''k'' [1] False) g1 = Some (GDone None, g2)"
      "group_do idle_env (GGet ''k'') g2 = Some (GView (ByteView [1]), g3)"
    using group_write_read [OF 1(2) _ _ 1(3) _ _ idle_env_quiet, of "''k''" "[1]" False] 1(4) new_deadline(3,4) by auto
  let ?t1 = "no_threads(1 \<mapsto> (GGet ''j'', GReturn (GView (ByteView [2]))))"
  let ?t2 = "?t1(2 \<mapsto> (GSet ''k'' [1] False, GReturn (GDone None)))"
  let ?t3 = "?t2(3 \<mapsto> (GGet ''k'', GReturn (GView (ByteView [1]))))"
  have a: "?R\<^sup>*\<^sup>* (?g, no_threads) (g1, ?t1)"
    by (rule call_steps [where i = 1, OF 1(1)]) (simp_all add: source_env_ok call_in_def)
  have b: "?R\<^sup>*\<^sup>* (g1, ?t1) (g2, ?t2)"
    by (rule call_steps [where i = 2, OF 2(1)]) (simp_all add: source_env_ok call_in_def two_keys_def)
  have c: "?R\<^sup>*\<^sup>* (g2, ?t2) (g3, ?t3)"
    by (rule call_steps [where i = 3, OF 2(2)]) (simp_all add: source_env_ok call_in_def)
  have run: "?R\<^sup>*\<^sup>* (?g, no_threads) (g3, ?t3)" by (rule rtranclp_trans [OF a rtranclp_trans [OF b c]])
  have "group_options_ok []" by (simp add: group_options_ok_def)
  from group_values_by_key [OF this run]
  have "cache_held (g_mainCache g3) ''k'' \<subseteq> {ByteView [1]}" "cache_held (g_mainCache g3) ''j'' \<subseteq> {ByteView [2]}"
    by (auto simp: two_keys_def)
  with run show ?thesis by (intro exI [of _ g3] exI [of _ ?t3]) simp
qed

end
