(* ===== verification/Cache_Group_Recent.thy ===== *)
theory Cache_Group_Recent
  imports Cache_Group_Writes
begin

text \<open>
  Read your writes through the layers \<open>group.go\<close>, \<open>cache.go\<close> and \<open>store/lru2.go\<close>: a value that was
  set stays readable while the group is used for other keys.
\<close>

subsection \<open>The cache\<close>

text \<open>The number of entries that level 1 of a bucket has room for.\<close>

definition level1_room :: "nat \<Rightarrow> Cache \<Rightarrow> bool" where
  "level1_room cap c \<longleftrightarrow> (\<exists>s n2 bs. c_store (initialize c) = Some (StLru2 s) \<and> lru2_rep cap n2 s bs)"

text \<open>A value that is among the first \<open>m + 1\<close> entries of level 1 of its bucket.\<close>

definition cached_recent :: "nat \<Rightarrow> key \<Rightarrow> byteview \<Rightarrow> int \<Rightarrow> nat \<Rightarrow> Cache \<Rightarrow> bool" where
  "cached_recent cap k v e m c \<longleftrightarrow> \<not> c_closed c \<and> c_initialized c
     \<and> (\<exists>s n2 bs. c_store c = Some (StLru2 s) \<and> lru2_rep cap n2 s bs
          \<and> recent k (Some (BV v)) e m (fst (bs ! bucket_of k s)))"

text \<open>Calls that are not about \<open>k\<close>.\<close>

fun call_beside :: "key \<Rightarrow> call \<Rightarrow> bool" where
  "call_beside k (CGet t k') \<longleftrightarrow> k' \<noteq> k"
| "call_beside k (CAdd t k' v) \<longleftrightarrow> k' \<noteq> k"
| "call_beside k (CAddExp t n k' v d) \<longleftrightarrow> k' \<noteq> k"
| "call_beside k (CDelete k') \<longleftrightarrow> k' \<noteq> k"
| "call_beside k CLen \<longleftrightarrow> True"
| "call_beside k x \<longleftrightarrow> False"

lemma recent_mono: "recent k v e m ns \<Longrightarrow> m \<le> m' \<Longrightarrow> recent k v e m' ns"
proof -
  assume "recent k v e m ns" "m \<le> m'"
  then obtain as bs where "ns = as @ \<lparr>nd_k = k, nd_v = v, nd_expireAt = e\<rparr> # bs" "length as \<le> m'" "k \<notin> nd_k ` set as"
    unfolding recent_def by (blast intro: order_trans)
  then show ?thesis unfolding recent_def by blast
qed

lemma cached_recent_mono: "cached_recent cap k v e m c \<Longrightarrow> m \<le> m' \<Longrightarrow> cached_recent cap k v e m' c"
  unfolding cached_recent_def by (blast intro: recent_mono)

lemma store_call_beside:
  assumes "call_beside k x"
  shows "leaves_alone k (store_call x) \<and> tick_before e b (store_call x)
    \<and> (sets_beside home k (store_call x) \<longrightarrow> is_write x)"
  using assms by (cases x) (auto simp: store_call_def)

lemma cached_recent_call:
  assumes inv: "cache_inv c" and rec: "cached_recent cap k v e m c" and x: "call_beside k x" and room: "m + of_bool (is_write x) < cap"
    and call: "cache_call x c = Some (r, c')"
  shows "cached_recent cap k v e (m + of_bool (is_write x)) c'"
proof -
  obtain s n2 bs where c: "\<not> c_closed c" "c_initialized c" "c_store c = Some (StLru2 s)" "lru2_rep cap n2 s bs"
      "recent k (Some (BV v)) e m (fst (bs ! bucket_of k s))"
    using rec unfolding cached_recent_def by blast
  have init: "initialize c = c" using c(2) by (simp add: initialize_def)
  have ne: "x \<noteq> CClose" using x by auto
  consider (late) t n k' v' d where "x = CAddExp t n k' v' d" "d \<le> n" | (last) "cache_call x c = last_section x c"
    using call_write [OF c(1), of x] call_read [OF c(1) _ ne] init c(2)
    by (cases "is_write x"; cases x) force+
  then show ?thesis
  proof cases
    case late
    then have "c' = c" using call call_write_late [OF c(1) late(2)] init by simp
    then show ?thesis by (simp add: cached_recent_mono [OF rec])
  next
    case last
    then have "last_section x c = Some (r, c')" using call by simp
    from last_section_store [OF this ne c(1)] obtain out s' where
      s': "lru2_step (store_call x) s = Some (out, s')" "c_store c' = Some (StLru2 s')" "c_closed c' = c_closed c"
      using c(3) by auto
    have "cache_inv c'" using cache_call_ok [OF inv, of x] call by auto
    then have "c_initialized c'" using s'(2) by (simp add: cache_inv_def)
    let ?home = "\<lambda>k. bucket_of k s" let ?bs = "snd (spec2_step cap n2 ?home (store_call x) bs)"
    have rep: "lru2_rep cap n2 s' ?bs" "s_mask s' = s_mask s"
      using refine_step [OF c(4), of "store_call x"] s'(1) by auto
    note beside = store_call_beside [OF x, of e _ ?home]
    have "m + of_bool (sets_beside ?home k (store_call x)) \<le> m + of_bool (is_write x)" using beside by auto
    moreover have "recent k (Some (BV v)) e (m + of_bool (sets_beside ?home k (store_call x))) (fst (?bs ! bucket_of k s))"
      using beside room by (intro recent_step lru2_rep_wf [OF c(4)] c(5)) auto
    ultimately have "recent k (Some (BV v)) e (m + of_bool (is_write x)) (fst (?bs ! bucket_of k s'))"
      using recent_mono rep(2) by (simp only: bucket_of_def)
    with rep(1) s' c(1) \<open>c_initialized c'\<close> show ?thesis unfolding cached_recent_def by blast
  qed
qed

text \<open>The write of a value puts it at the head.\<close>

lemma cached_recent_add:
  assumes inv: "cache_inv c" and opn: "\<not> c_closed c" and room: "level1_room cap c" and x: "adds x k v"
    and call: "cache_call x c = Some (r, c')"
  shows "cached_recent cap k v (deadline x) 0 c'"
proof -
  obtain s n2 bs where s: "c_store (initialize c) = Some (StLru2 s)" "lru2_rep cap n2 s bs"
    using room by (auto simp: level1_room_def)
  obtain t e where set: "deadline x = expire_at (fst t) e" "store_call x = OpSet t k (Some (BV v)) e"
    using x by (cases x) (auto simp: store_call_def)
  have w: "is_write x" and ne: "x \<noteq> CClose" using x by (cases x; simp)+
  have "x = CAddExp t n k' v' d \<Longrightarrow> n < d" for t n k' v' d using x by simp
  then have "last_section x (initialize c) = Some (r, c')" using call_write [OF opn w] call by auto
  from last_section_store [OF this ne] opn obtain out s' where
    s': "lru2_step (OpSet t k (Some (BV v)) e) s = Some (out, s')" "c_store c' = Some (StLru2 s')" "\<not> c_closed c'"
    using s(1) set(2) by auto
  have "cache_inv c'" using cache_call_ok [OF inv, of x] call by auto
  then have "c_initialized c'" using s'(2) by (simp add: cache_inv_def)
  with set_recent [OF s(2) s'(1)] s' set(1) show ?thesis unfolding cached_recent_def by fastforce
qed

lemma cached_recent_get:
  assumes "cached_recent cap k v e m c" and "0 < e" and "fst t < e"
  shows "\<exists>c'. cache_call (CGet t k) c = Some (RGet v True, c')"
proof -
  obtain s n2 bs where c: "\<not> c_closed c" "c_initialized c" "c_store c = Some (StLru2 s)" "lru2_rep cap n2 s bs"
      "recent k (Some (BV v)) e m (fst (bs ! bucket_of k s))"
    using assms(1) unfolding cached_recent_def by blast
  obtain s' where "lru2_Get t k s = Some ((Some (BV v), True), s')" using get_recent [OF c(4,5) assms(2,3)] by blast
  then have "\<exists>c'. last_section (CGet t k) c = Some (RGet v True, c')"
    using c(1,3) by (simp add: last_section_def on_store_def)
  then show ?thesis using call_read [OF c(1), of "CGet t k"] c(2) by simp
qed

subsection \<open>The group\<close>

fun beside :: "key \<Rightarrow> group_call \<Rightarrow> bool" where
  "beside k (GGet k') \<longleftrightarrow> k' \<noteq> k"
| "beside k (GSet k' v p) \<longleftrightarrow> k' \<noteq> k"
| "beside k (GDelete k' p) \<longleftrightarrow> k' \<noteq> k"
| "beside k x \<longleftrightarrow> False"

lemma write_beside: "k' \<noteq> k \<Longrightarrow> call_beside k (cache_write e g k' v) \<and> is_write (cache_write e g k' v)"
  by (simp add: cache_write_def)

lemma cache_then_recent:
  assumes inv: "cache_inv (g_mainCache g)" and rec: "cached_recent cap k v e m (g_mainCache g)" and room: "Suc m < cap"
    and y: "call_beside k y" and call: "cache_then y res g = Some (r, g')"
  shows "cached_recent cap k v e (Suc m) (g_mainCache g')"
proof -
  obtain q c where c: "cache_call y (g_mainCache g) = Some (q, c)" "g' = g\<lparr>g_mainCache := c\<rparr>"
    using call by (auto simp: cache_then_def)
  have "m + of_bool (is_write y) < cap" "m + of_bool (is_write y) \<le> Suc m" using room by simp_all
  from cached_recent_mono [OF cached_recent_call [OF inv rec y this(1) c(1)] this(2)] c(2) show ?thesis by simp
qed

lemma read_through_recent:
  assumes idle: "group_idle g" and quiet: "env_quiet e'" and rec: "cached_recent cap k v e m (g_mainCache g)"
    and room: "Suc m < cap" and k': "k' \<noteq> k" and get: "read_through e' k' g = Some (r, g')"
  shows "cached_recent cap k v e (Suc m) (g_mainCache g')"
proof (cases "g_closed g \<or> k' = []")
  case True
  then have "read_through e' k' g = Some (if g_closed g then GError ErrGroupClosed else GError ErrKeyRequired, g)"
    by (auto simp: read_through_def)
  with get cached_recent_mono [OF rec] show ?thesis by auto
next
  case False
  have inv: "cache_inv (g_mainCache g)" using idle by (simp add: group_idle_def)
  obtain q c where c: "cache_call (CGet (ge_clk e') k') (g_mainCache g) = Some (q, c)" "cache_inv c"
    using cache_total [OF inv] by metis
  obtain view hit where q: "q = RGet view hit" using get_call_shape [OF inv c(1)] by blast
  have rec': "cached_recent cap k v e m c" using cached_recent_call [OF inv rec _ _ c(1)] k' room by simp
  show ?thesis
  proof (cases hit)
    case True
    then show ?thesis using get False c(1) q cached_recent_mono [OF rec'] by (auto simp: read_through_def Let_def)
  next
    case miss: False
    show ?thesis
    proof (cases rule: loadData_shape [OF quiet, of "g_peers g" "g_name g" k' "count_hit hit (g_stats g)"])
      case (1 w s)
      note wr = write_beside [OF k', of e' g w]
      obtain q' c' where c': "cache_call (cache_write e' g k' w) c = Some (q', c')"
        using cache_total [OF c(2)] by metis
      have "cached_recent cap k v e (Suc m) c'" using cached_recent_call [OF c(2) rec' _ _ c'] wr room by simp
      then show ?thesis using get False c(1) q miss 1 c' by (auto simp: read_through_def Let_def)
    next
      case (2 w err s)
      then show ?thesis using get False c(1) q miss cached_recent_mono [OF rec']
        by (auto simp: read_through_def Let_def)
    qed
  qed
qed

lemma group_do_recent:
  assumes idle: "group_idle g" and quiet: "env_quiet e'" and rec: "cached_recent cap k v e m (g_mainCache g)"
    and room: "Suc m < cap" and x: "beside k x" and call: "group_do e' x g = Some (r, g')"
  shows "cached_recent cap k v e (Suc m) (g_mainCache g')"
proof -
  have inv: "cache_inv (g_mainCache g)" using idle by (simp add: group_idle_def)
  have same: "g' = g \<Longrightarrow> ?thesis" using cached_recent_mono [OF rec] by simp
  show ?thesis
  proof (cases x)
    case (GGet k')
    then show ?thesis using read_through_recent [OF idle quiet rec room] x call group_do_get [OF idle quiet] by simp
  next
    case (GSet k' w p)
    with x have "call_beside k (cache_write e' g k' (ByteView w))" by (simp add: cache_write_def)
    from cache_then_recent [OF inv rec room this] call same show ?thesis
      unfolding GSet group_do_set [OF idle] by (auto split: if_splits)
  next
    case (GDelete k' p)
    with x have "call_beside k (CDelete k')" by simp
    from cache_then_recent [OF inv rec room this] call same show ?thesis
      unfolding GDelete group_do_delete [OF idle] by (auto split: if_splits)
  qed (use x in simp_all)
qed

lemma run_recent:
  assumes "group_idle g" and "cached_recent cap k v e m (g_mainCache g)" and "m + length xs < cap"
    and "\<forall>(e', x) \<in> set xs. env_quiet e' \<and> beside k x" and "run_group_calls xs g = Some (rs, g')"
  shows "cached_recent cap k v e (m + length xs) (g_mainCache g') \<and> group_kept g g' \<and> (g_closed g' \<longleftrightarrow> g_closed g)"
  using assms
proof (induction xs arbitrary: g m rs)
  case Nil
  then show ?case by (simp add: group_kept_def)
next
  case (Cons ex xs)
  obtain e' x where ex: "ex = (e', x)" by fastforce
  obtain r g1 rs1 where g1: "group_do e' x g = Some (r, g1)" "run_group_calls xs g1 = Some (rs1, g')"
    using Cons.prems(5) ex by (auto split: Option.bind_splits)
  have q: "env_quiet e'" "beside k x" using Cons.prems(4) ex by auto
  have k1: "group_kept g g1" "g_closed g1 \<longleftrightarrow> g_closed g"
    using group_do_ok [OF Cons.prems(1) q(1), of x] g1(1) q(2) by auto
  then have idle: "group_idle g1" by (simp add: group_kept_def)
  have "cached_recent cap k v e (Suc m) (g_mainCache g1)"
    using group_do_recent [OF Cons.prems(1) q(1) Cons.prems(2) _ q(2) g1(1)] Cons.prems(3) by simp
  from Cons.IH [OF idle this _ _ g1(2)] Cons.prems(3,4) k1 show ?case by (auto simp: group_kept_def)
qed

lemma group_retains:
  assumes "serving g" and "level1_room cap (g_mainCache g)" and "k \<noteq> []" and "v \<noteq> []" and "in_time e g"
    and "0 < group_deadline e g" and "fst (ge_clk e') < group_deadline e g" and "env_quiet e'"
    and "\<forall>(e', x) \<in> set xs. env_quiet e' \<and> beside k x" and "length xs < cap"
  shows "\<exists>g1 rs g2 g3. group_do e (GSet k v p) g = Some (GDone (started p g (SyncSet k v)), g1)
    \<and> run_group_calls xs g1 = Some (rs, g2) \<and> group_do e' (GGet k) g2 = Some (GView (ByteView v), g3)"
proof -
  have inv: "cache_inv (g_mainCache g)" and opn: "\<not> c_closed (g_mainCache g)"
    using assms(1) by (simp_all add: serving_def group_idle_def)
  obtain r c where c: "cache_call (cache_write e g k (ByteView v)) (g_mainCache g) = Some (r, c)"
    using cache_total [OF inv] by metis
  let ?g1 = "g\<lparr>g_mainCache := c\<rparr>"
  have set: "group_do e (GSet k v p) g = Some (GDone (started p g (SyncSet k v)), ?g1)"
    using group_do_set [of g e k v p] assms(1,3,4) c by (simp add: serving_def cache_then_def)
  have g1: "serving ?g1" using serving_write [OF assms(1,5) c, of "g_stats g"] by simp
  then have idle: "group_idle ?g1" by (simp add: serving_def)
  have rec: "cached_recent cap k (ByteView v) (group_deadline e g) 0 (g_mainCache ?g1)"
    using cached_recent_add [OF inv opn assms(2) write_adds [OF assms(5)] c] by (simp add: write_deadline)
  obtain rs g2 where run: "run_group_calls xs ?g1 = Some (rs, g2)"
    using run_group_calls_ok [OF idle, of xs] assms(9) by blast
  from run_recent [OF idle rec _ assms(9) run] assms(10) have g2:
    "cached_recent cap k (ByteView v) (group_deadline e g) (length xs) (g_mainCache g2)" "group_idle g2" "\<not> g_closed g2"
    using assms(1) by (auto simp: group_kept_def serving_def)
  obtain c2 where "cache_call (CGet (ge_clk e') k) (g_mainCache g2) = Some (RGet (ByteView v) True, c2)"
    using cached_recent_get [OF g2(1) assms(6,7)] by blast
  then have "\<exists>g3. group_do e' (GGet k) g2 = Some (GView (ByteView v), g3)"
    using group_do_get [OF g2(2) assms(8), of k] g2(3) assms(3) by (simp add: read_through_def Let_def)
  with set run show ?thesis by blast
qed

text \<open>
  C8. Read your writes: on an open group over the two-level engine with any history, \<open>Set\<close> of a
  key returns without an error, and after any calls for other keys, fewer than level 1 of a bucket
  has entries (512 by default), all of which return, \<open>Get\<close> of the key answers exactly the value
  that was set, whatever was cached before, as long as its deadline (the group's expiration, or
  none) has not passed and no cleanup runs in between.
\<close>

theorem group_keeps_set:
  assumes "serving g" and "level1_room cap (g_mainCache g)" and "k \<noteq> []" and "v \<noteq> []" and "in_time e g"
    and "0 < group_deadline e g" and "fst (ge_clk e') < group_deadline e g" and "env_quiet e'"
    and "\<forall>(e', x) \<in> set xs. env_quiet e' \<and> beside k x" and "length xs < cap"
  shows "\<exists>g1 rs g2 g3. group_do e (GSet k v p) g = Some (GDone (started p g (SyncSet k v)), g1)
    \<and> run_group_calls xs g1 = Some (rs, g2) \<and> group_do e' (GGet k) g2 = Some (GView (ByteView v), g3)"
  using assms by (rule group_retains)

lemma level1_room_new:
  "level1_room 512 (g_mainCache (make_group n b []))"
proof -
  let ?o = "store_options (DefaultCacheOptions\<lparr>co_MaxBytes := b\<rparr>)"
  have o: "lru2_options_ok ?o" "unat (CapPerBucket (lru2_options ?o)) = 512"
    by (simp_all add: DefaultCacheOptions_def store_options_def lru2_options_ok_def lru2_options_def Let_def)
  obtain bs where "lru2_rep 512 (unat (Level2Cap (lru2_options ?o))) (newLRU2Cache ?o) bs"
    using new_rep [OF o(1)] unfolding o(2) by blast
  moreover have "c_store (initialize (g_mainCache (make_group n b []))) = Some (StLru2 (newLRU2Cache ?o))"
    by (simp add: make_group_def NewCache_def initialize_def DefaultCacheOptions_def NewStore_def)
  ultimately show ?thesis unfolding level1_room_def by blast
qed

theorem group_keeps_set_witness:
  "\<exists>g1 rs g2 g3. group_do idle_env (GSet ''k'' [1] False) (make_group ''g'' 1 []) = Some (GDone None, g1)
     \<and> run_group_calls [(idle_env, GSet ''j'' [2] False), (idle_env, GGet ''i'')] g1 = Some (rs, g2)
     \<and> group_do idle_env (GGet ''k'') g2 = Some (GView (ByteView [1]), g3)"
proof -
  have "started False (make_group ''g'' 1 []) (SyncSet ''k'' [1]) = None" by (simp add: started_def make_group_def)
  with group_keeps_set [OF serving_new level1_room_new _ _ new_deadline(1) _ _ idle_env_quiet, where k = "''k''" and v = "[1]"
      and xs = "[(idle_env, GSet ''j'' [2] False), (idle_env, GGet ''i'')]" and p = False, of "''g''" 1]
  show ?thesis by (simp add: new_deadline idle_env_quiet)
qed

end
