(* ===== verification/Short_Code.thy ===== *)
theory Short_Code
  imports Reach_Prelude
begin

text \<open>
  \<open>examples/shortlink/shortcode.go\<close>: short codes of the link shortener.  A code is the first
  eight bytes of an HMAC-SHA256, read as a number and written in base 62.  The HMAC is not under
  \<open>src/\<close>: \<open>hmac key message\<close> is a parameter, and the writes to one \<open>hash.Hash\<close> append to its
  message.
\<close>

definition base62Chars :: string where
  "base62Chars = ''0123456789ABCDEFGHIJKLMNOPQRSTUVWXYZabcdefghijklmnopqrstuvwxyz''"

text \<open>The conversion \<open>[]byte(s)\<close>.\<close>

definition string_bytes :: "string \<Rightarrow> bytes" where
  "string_bytes s = map of_char s"

definition secretKey :: bytes where
  "secretKey = string_bytes ''reachcache-shortlink-secret-2026''"

subsection \<open>\<open>base62Encode\<close>\<close>

text \<open>\<open>big.Int.SetBytes\<close>: the number with these big-endian digits.\<close>

definition SetBytes :: "bytes \<Rightarrow> nat" where
  "SetBytes data = foldl (\<lambda>n b. 256 * n + unat b) 0 data"

text \<open>The loop that appends the digits, least significant first; \<open>None\<close> is an index out of range.\<close>

function append_digits :: "nat \<Rightarrow> string \<Rightarrow> string option" where
  "append_digits n result =
     (if n > 0
      then do { c \<leftarrow> rd base62Chars (n mod 62); append_digits (n div 62) (result @ [c]) }
      else Some result)"
  by auto
termination by (relation "measure fst") auto

declare append_digits.simps [simp del]

function pad8 :: "string \<Rightarrow> string" where
  "pad8 result = (if length result < 8 then pad8 (result @ ''0'') else result)"
  by auto
termination by (relation "measure (\<lambda>r. 8 - length r)") auto

declare pad8.simps [simp del]

text \<open>The loop that swaps the ends until they meet; \<open>j\<close> starts at \<open>len(result)-1\<close>.\<close>

function swap_ends :: "int \<Rightarrow> int \<Rightarrow> string \<Rightarrow> string option" where
  "swap_ends i j result =
     (if i < j then
        do { a \<leftarrow> rd result (nat i);
             b \<leftarrow> rd result (nat j);
             result \<leftarrow> wr result (nat i) b;
             result \<leftarrow> wr result (nat j) a;
             swap_ends (i + 1) (j - 1) result }
      else Some result)"
  by auto
termination by (relation "measure (\<lambda>(i, j, r). nat (j - i))") auto

declare swap_ends.simps [simp del]

definition base62Encode :: "bytes \<Rightarrow> string option" where
  "base62Encode data =
     do { result \<leftarrow> append_digits (SetBytes data) [];
          let result = pad8 result;
          swap_ends 0 (int (length result) - 1) result }"

subsection \<open>Codes\<close>

definition generateShortCode :: "(bytes \<Rightarrow> bytes \<Rightarrow> bytes) \<Rightarrow> string \<Rightarrow> string option" where
  "generateShortCode hmac url =
     (let hash = hmac secretKey (string_bytes url) in
      if 8 \<le> length hash then base62Encode (take 8 hash) else None)"

text \<open>\<open>binary.LittleEndian.PutUint64\<close>.\<close>

definition PutUint64 :: "64 word \<Rightarrow> bytes" where
  "PutUint64 v = map (\<lambda>i. ucast (drop_bit (8 * i) v)) [0..<8]"

definition createCollisionSafeCode :: "(bytes \<Rightarrow> bytes \<Rightarrow> bytes) \<Rightarrow> string \<Rightarrow> int \<Rightarrow> string option" where
  "createCollisionSafeCode hmac url retry =
     (let seed = PutUint64 (word_of_int retry);
          hash = hmac secretKey (seed @ string_bytes url)
      in if 8 \<le> length hash then base62Encode (take 8 hash) else None)"

subsection \<open>The loops\<close>

lemma length_base62Chars [simp]: "length base62Chars = 62"
  by (simp add: base62Chars_def)

text \<open>The digits of a number in base 62, least significant first.\<close>

fun digits62 :: "nat \<Rightarrow> nat list" where
  "digits62 n = (if n = 0 then [] else n mod 62 # digits62 (n div 62))"

declare digits62.simps [simp del]

lemma digits62_less: "d \<in> set (digits62 n) \<Longrightarrow> d < 62"
  by (induction n rule: digits62.induct) (subst (asm) digits62.simps, auto split: if_splits)

lemma append_digits_eq: "append_digits n result = Some (result @ map (\<lambda>d. base62Chars ! d) (digits62 n))"
  by (induction n result rule: append_digits.induct) (subst append_digits.simps, subst digits62.simps, auto)

lemma pad8_eq: "pad8 result = result @ replicate (8 - length result) (CHR ''0'')"
proof (induction result rule: pad8.induct)
  case (1 result)
  have "replicate (8 - length result) x = x # replicate (8 - Suc (length result)) x" if "length result < 8" for x :: char
    using that by (metis Suc_diff_Suc replicate_Suc)
  with 1 show ?case by (subst pad8.simps) auto
qed

lemma swap_ends_eq:
  "swap_ends (int (length as)) (int (length as) + int (length xs) - 1) (as @ xs @ bs) = Some (as @ rev xs @ bs)"
proof (induction xs arbitrary: as bs rule: length_induct)
  case (1 xs)
  show ?case
  proof (cases "length xs < 2")
    case True
    then have "rev xs = xs" by (cases xs) auto
    with True show ?thesis by (subst swap_ends.simps) auto
  next
    case False
    then obtain x ys y where xs: "xs = x # ys @ [y]"
      by (metis One_nat_def Suc_1 append_Nil length_0_conv length_Cons less_2_cases_iff list.exhaust rev_exhaust)
    have "swap_ends (int (length (as @ [y]))) (int (length (as @ [y])) + int (length ys) - 1) ((as @ [y]) @ ys @ (x # bs))
        = Some ((as @ [y]) @ rev ys @ x # bs)"
      using 1 xs by (intro 1 [rule_format]) simp
    moreover have "nat (int (length as) + (1 + int (length ys))) = Suc (length as + length ys)" by simp
    ultimately show ?thesis
      by (subst swap_ends.simps) (simp add: xs nth_append list_update_append algebra_simps)
  qed
qed

definition code_digits :: "bytes \<Rightarrow> nat list" where
  "code_digits data =
     (let ds = digits62 (SetBytes data) in rev (ds @ replicate (8 - length ds) 0))"

lemma base62Encode_eq: "base62Encode data = Some (map (\<lambda>d. base62Chars ! d) (code_digits data))"
  using swap_ends_eq [of "[]" "pad8 (map (\<lambda>d. base62Chars ! d) (digits62 (SetBytes data)))" "[]"]
  by (simp add: base62Encode_def append_digits_eq pad8_eq code_digits_def Let_def rev_map base62Chars_def)

subsection \<open>Reading a code back\<close>

definition decode62 :: "string \<Rightarrow> nat" where
  "decode62 s = foldl (\<lambda>n c. 62 * n + length (takeWhile (\<lambda>x. x \<noteq> c) base62Chars)) 0 s"

lemma distinct_base62Chars: "distinct base62Chars"
  by (simp add: base62Chars_def)

lemma char_value: "d < 62 \<Longrightarrow> length (takeWhile (\<lambda>x. x \<noteq> base62Chars ! d) base62Chars) = d"
  using distinct_base62Chars by (subst takeWhile_eq_take_P_nth [of d]) (auto simp: nth_eq_iff_index_eq)

lemma foldl_digits: "foldl (\<lambda>n d. 62 * n + d) 0 (rev (digits62 n)) = n"
proof (induction n rule: digits62.induct)
  case (1 n)
  then show ?case by (subst digits62.simps) (auto simp: )
qed

lemma foldl_zeros: "foldl (\<lambda>n d. 62 * n + d) 0 (replicate m 0) = (0 :: nat)"
  by (induction m) auto

lemma code_digits_less: "d \<in> set (code_digits data) \<Longrightarrow> d < 62"
  using digits62_less by (auto simp: code_digits_def Let_def)

lemma decode_digits:
  assumes "\<And>d. d \<in> set ds \<Longrightarrow> d < 62"
  shows "decode62 (map (\<lambda>d. base62Chars ! d) ds) = foldl (\<lambda>n d. 62 * n + d) 0 ds"
proof -
  have "foldl (\<lambda>n d. 62 * n + length (takeWhile (\<lambda>x. x \<noteq> base62Chars ! d) base62Chars)) n ds = foldl (\<lambda>n d. 62 * n + d) n ds" for n
    using assms by (induction ds arbitrary: n) (simp_all add: char_value)
  then show ?thesis by (simp add: decode62_def foldl_map)
qed

lemma decode_code: "decode62 (map (\<lambda>d. base62Chars ! d) (code_digits data)) = SetBytes data"
proof -
  have "decode62 (map (\<lambda>d. base62Chars ! d) (code_digits data)) = foldl (\<lambda>n d. 62 * n + d) 0 (code_digits data)"
    by (rule decode_digits) (rule code_digits_less)
  also have "\<dots> = SetBytes data" by (simp add: code_digits_def Let_def foldl_zeros foldl_digits)
  finally show ?thesis .
qed

lemma SetBytes_snoc: "SetBytes (xs @ [b]) = 256 * SetBytes xs + unat b"
  by (simp add: SetBytes_def)

lemma unat_byte: "unat (b :: 8 word) < 256"
  using unsigned_less [of b] by simp

lemma SetBytes_less: "SetBytes xs < 256 ^ length xs"
proof (induction xs rule: rev_induct)
  case (snoc b xs)
  then show ?case using unat_byte [of b] by (simp add: SetBytes_snoc)
qed (simp add: SetBytes_def)

lemma SetBytes_inj: "length xs = length ys \<Longrightarrow> SetBytes xs = SetBytes ys \<Longrightarrow> xs = ys"
proof (induction xs arbitrary: ys rule: rev_induct)
  case (snoc b xs)
  then obtain c zs where ys: "ys = zs @ [c]" by (cases ys rule: rev_cases) auto
  have "256 * SetBytes xs + unat b = 256 * SetBytes zs + unat c" using snoc.prems(2) by (simp add: ys SetBytes_snoc)
  moreover have "(256 * SetBytes xs + unat b) div 256 = SetBytes xs" "(256 * SetBytes zs + unat c) div 256 = SetBytes zs"
    using unat_byte [of b] unat_byte [of c] by simp_all
  ultimately have "SetBytes xs = SetBytes zs" "unat b = unat c" by simp_all
  with snoc.IH [of zs] snoc.prems(1) ys show ?case by (simp add: word_unat_eq_iff)
qed simp

lemma length_digits62: "n < 62 ^ m \<Longrightarrow> length (digits62 n) \<le> m"
proof (induction m arbitrary: n)
  case 0
  then show ?case by (subst digits62.simps) simp
next
  case (Suc m)
  then have "n div 62 < 62 ^ m" by (simp add: less_mult_imp_div_less mult.commute)
  from Suc.IH [OF this] show ?case by (subst digits62.simps) simp
qed

lemma length_code_digits:
  assumes "length data \<le> 8"
  shows "length (code_digits data) \<le> 11"
proof -
  have "SetBytes data < 256 ^ 8"
    using SetBytes_less [of data] power_increasing [OF assms, of "256 :: nat"] by linarith
  then have "SetBytes data < 62 ^ 11" by simp
  from length_digits62 [OF this] show ?thesis by (simp add: code_digits_def Let_def)
qed

lemma length_code: "base62Encode data = Some code \<Longrightarrow> 8 \<le> length code"
  by (auto simp: base62Encode_eq code_digits_def Let_def)

subsection \<open>Properties\<close>

text \<open>
  C28. Encoding is exact: \<open>base62Encode\<close> returns for every input without an index out of range,
  its code is over the 62 characters and at least eight long (at most eleven for the eight bytes
  of a short code), decoding the code gives the number the bytes are, and two inputs of the same
  length have the same code only if they are equal, so that the codes of two URLs collide only if
  the first eight bytes of their hashes do.
\<close>

theorem base62_roundtrip:
  shows "\<exists>code. base62Encode data = Some code \<and> decode62 code = SetBytes data \<and> set code \<subseteq> set base62Chars
    \<and> 8 \<le> length code \<and> (length data \<le> 8 \<longrightarrow> length code \<le> 11)
    \<and> (\<forall>other. length other = length data \<longrightarrow> base62Encode other = Some code \<longrightarrow> other = data)"
proof (intro exI conjI allI impI)
  show "base62Encode data = Some (map (\<lambda>d. base62Chars ! d) (code_digits data))" by (rule base62Encode_eq)
  show "decode62 (map (\<lambda>d. base62Chars ! d) (code_digits data)) = SetBytes data" by (rule decode_code)
  show "set (map (\<lambda>d. base62Chars ! d) (code_digits data)) \<subseteq> set base62Chars"
    using code_digits_less by (auto intro!: nth_mem)
  show "8 \<le> length (map (\<lambda>d. base62Chars ! d) (code_digits data))" by (simp add: code_digits_def Let_def)
  show "length (map (\<lambda>d. base62Chars ! d) (code_digits data)) \<le> 11" if "length data \<le> 8"
    using length_code_digits [OF that] by simp
  fix other assume other: "length other = length data"
    "base62Encode other = Some (map (\<lambda>d. base62Chars ! d) (code_digits data))"
  then have "SetBytes other = SetBytes data"
    using decode_code [of other] decode_code [of data] unfolding base62Encode_eq by simp
  with other(1) show "other = data" by (rule SetBytes_inj)
qed

theorem base62_roundtrip_witness:
  "base62Encode [1, 0] = Some ''00000048'' \<and> base62Encode [0, 255] \<noteq> Some ''00000048''
    \<and> decode62 ''00000048'' = 256 \<and> length ''00000048'' \<le> 11"
proof -
  have "base62Encode [1, 0] = Some ''00000048''" "SetBytes [1, 0] = 256"
    by (simp_all add: base62Encode_def SetBytes_def append_digits.simps pad8.simps swap_ends.simps base62Chars_def
        Let_def rd_def wr_def)
  with base62_roundtrip [of "[1, 0]"] show ?thesis by force
qed

end
