(* ===== verification/Short_Link.thy ===== *)
theory Short_Link
  imports Short_Code Cache_Group Group_Registry
begin

text \<open>
  \<open>examples/shortlink/db.go\<close> and \<open>main.go\<close>: a link shortener over a \<open>Group\<close>.  The SQL driver is
  not under \<open>src/\<close>: it is a parameter that gets the statements of the source as they are written.
  A \<open>QueryRow(..).Scan(..)\<close> answers an error or the columns of the first row.
\<close>

subsection \<open>\<open>db.go\<close>\<close>

datatype sql_value = SqlText string | SqlInt int

record 'd sql_driver =
  db_Exec :: "string \<Rightarrow> sql_value list \<Rightarrow> 'd \<Rightarrow> string option \<times> 'd"
  db_QueryRow :: "string \<Rightarrow> sql_value list \<Rightarrow> 'd \<Rightarrow> string + sql_value list"

record ShortLink =
  sl_Code :: string
  sl_URL :: string
  sl_Clicks :: int

definition create_shortlinks :: string where
  "create_shortlinks =
     ''CREATE TABLE IF NOT EXISTS shortlinks ('' @ [CHR 0x0A] @
     [CHR 0x09, CHR 0x09] @ ''code   TEXT PRIMARY KEY,'' @ [CHR 0x0A] @
     [CHR 0x09, CHR 0x09] @ ''url    TEXT NOT NULL,'' @ [CHR 0x0A] @
     [CHR 0x09, CHR 0x09] @ ''clicks INTEGER DEFAULT 0,'' @ [CHR 0x0A] @
     [CHR 0x09, CHR 0x09] @ ''created_at DATETIME DEFAULT CURRENT_TIMESTAMP'' @ [CHR 0x0A] @
     [CHR 0x09] @ '')''"

text \<open>\<open>opened\<close> is the answer of \<open>sql.Open\<close>.\<close>

definition initShortLinkDB :: "'d sql_driver \<Rightarrow> string + 'd \<Rightarrow> string + 'd" where
  "initShortLinkDB drv opened =
     (case opened of
        Inl err \<Rightarrow> Inl (''open db: '' @ err)
      | Inr db \<Rightarrow>
          (case db_Exec drv create_shortlinks [] db of
             (Some err, db) \<Rightarrow> Inl (''create table: '' @ err)
           | (None, db) \<Rightarrow> Inr db))"

definition insertLink :: "'d sql_driver \<Rightarrow> string \<Rightarrow> string \<Rightarrow> 'd \<Rightarrow> string option \<times> 'd" where
  "insertLink drv code url db =
     db_Exec drv ''INSERT INTO shortlinks (code, url) VALUES (?, ?)'' [SqlText code, SqlText url] db"

text \<open>\<open>Scan(&sl.Code, &sl.URL, &sl.Clicks)\<close>, and \<open>Scan\<close> of one integer.\<close>

fun scan_link :: "string + sql_value list \<Rightarrow> string + ShortLink" where
  "scan_link (Inl err) = Inl err"
| "scan_link (Inr [SqlText c, SqlText u, SqlInt n]) = Inr \<lparr>sl_Code = c, sl_URL = u, sl_Clicks = n\<rparr>"
| "scan_link (Inr _) = Inl ''sql: Scan error''"

fun scan_int :: "string + sql_value list \<Rightarrow> string + int" where
  "scan_int (Inl err) = Inl err"
| "scan_int (Inr [SqlInt n]) = Inr n"
| "scan_int (Inr _) = Inl ''sql: Scan error''"

definition getLink :: "'d sql_driver \<Rightarrow> string \<Rightarrow> 'd \<Rightarrow> string + ShortLink" where
  "getLink drv code db =
     scan_link (db_QueryRow drv ''SELECT code, url, clicks FROM shortlinks WHERE code = ?'' [SqlText code] db)"

definition incrementClicks :: "'d sql_driver \<Rightarrow> string \<Rightarrow> 'd \<Rightarrow> 'd" where
  "incrementClicks drv code db =
     snd (db_Exec drv ''UPDATE shortlinks SET clicks = clicks + 1 WHERE code = ?'' [SqlText code] db)"

definition linkExists :: "'d sql_driver \<Rightarrow> string \<Rightarrow> 'd \<Rightarrow> bool \<times> string option" where
  "linkExists drv code db =
     (case scan_int (db_QueryRow drv ''SELECT COUNT(*) FROM shortlinks WHERE code = ?'' [SqlText code] db) of
        Inl err \<Rightarrow> (False, Some err)
      | Inr found \<Rightarrow> (found > 0, None))"

definition findByURL :: "'d sql_driver \<Rightarrow> string \<Rightarrow> 'd \<Rightarrow> string + ShortLink" where
  "findByURL drv url db =
     scan_link (db_QueryRow drv ''SELECT code, url, clicks FROM shortlinks WHERE url = ?'' [SqlText url] db)"

text \<open>An integer whose \<open>Scan\<close> error is ignored keeps its zero.\<close>

definition scanned :: "string + int \<Rightarrow> int" where
  "scanned r = (case r of Inl _ \<Rightarrow> 0 | Inr n \<Rightarrow> n)"

definition seed_entries :: "(string \<times> string) list" where
  "seed_entries =
     [(''00000001'', ''https://github.com/vernmorn/reachcache''),
      (''00000002'', ''https://golang.org''),
      (''00000003'', ''https://google.com'')]"

definition initTestData :: "'d sql_driver \<Rightarrow> 'd \<Rightarrow> 'd" where
  "initTestData drv db =
     (let found = scanned (scan_int (db_QueryRow drv ''SELECT COUNT(*) FROM shortlinks'' [] db)) in
      if found > 0 then db
      else fold (\<lambda>(code, url) db. snd (insertLink drv code url db)) seed_entries db)"

text \<open>How \<open>main\<close> opens the table; \<open>Inl\<close> is the message it ends with.\<close>

definition open_shortlinks :: "'d sql_driver \<Rightarrow> string + 'd \<Rightarrow> string + 'd" where
  "open_shortlinks drv opened =
     (case initShortLinkDB drv opened of
        Inl err \<Rightarrow> Inl (''db init: '' @ err)
      | Inr db \<Rightarrow> Inr (initTestData drv db))"

subsection \<open>Configuration\<close>

text \<open>\<open>os.Getenv\<close> answers the empty string for a variable that is not set.\<close>

definition getEnv :: "(string \<Rightarrow> string) \<Rightarrow> string \<Rightarrow> string \<Rightarrow> string" where
  "getEnv env k def = (let v = env k in if v \<noteq> '''' then v else def)"

text \<open>The address \<open>main\<close> advertises; \<open>None\<close> is an index out of range.\<close>

definition advertise_addr :: "string \<Rightarrow> string \<Rightarrow> string option" where
  "advertise_addr grpcAddr advAddr =
     (if advAddr = '''' then
        do { let a = ''127.0.0.1'' @ grpcAddr;
             c \<leftarrow> rd a 0;
             Some (if c = CHR '':'' then ''127.0.0.1'' @ grpcAddr else grpcAddr) }
      else Some advAddr)"

text \<open>The group \<open>main\<close> makes, with a picker and an expiration of an hour.\<close>

definition shortlink_group :: Group where
  "shortlink_group =
     make_group ''shortlink'' (32 * 2 ^ 20) [WithPeers True, WithExpiration (3600 * 1000000000)]"

subsection \<open>Handlers\<close>

text \<open>The variables \<open>db\<close>, \<open>cache\<close>, \<open>baseURL\<close> and \<open>nodeName\<close>.\<close>

record 'd Shortener =
  sh_db :: 'd
  sh_cache :: Group
  sh_baseURL :: string
  sh_nodeName :: string

record http_request =
  hr_Method :: string
  hr_Path :: string
  hr_Host :: string
  hr_query :: "string \<Rightarrow> string"
  hr_form :: "string \<Rightarrow> string"

text \<open>
  What a handler writes: \<open>http.Error\<close>, the start page with a port, a JSON body, the printed map
  of statistics, \<open>http.Redirect\<close> with its arguments, or \<open>http.NotFound\<close>.
\<close>

datatype http_response =
    HttpError string nat
  | StartPage string
  | JsonBody string
  | StatsMap GroupStats string int int
  | Redirect string nat
  | NotFound

definition LastIndex :: "string \<Rightarrow> char \<Rightarrow> int" where
  "LastIndex s c =
     (if c \<in> set s then int (length s) - 1 - int (length (takeWhile (\<lambda>x. x \<noteq> c) (rev s))) else -1)"

definition portFromRequest :: "http_request \<Rightarrow> string" where
  "portFromRequest r =
     (let idx = LastIndex (hr_Host r) (CHR '':'') in
      if idx \<ge> 0 then drop (nat (idx + 1)) (hr_Host r) else ''8081'')"

text \<open>\<open>html.EscapeString\<close>.\<close>

fun escape_char :: "char \<Rightarrow> string" where
  "escape_char c =
     (if c = CHR ''&'' then ''&amp;''
      else if c = CHR 0x27 then ''&#39;''
      else if c = CHR ''<'' then ''&lt;''
      else if c = CHR ''>'' then ''&gt;''
      else if c = CHR 0x22 then ''&#34;''
      else [c])"

definition EscapeString :: "string \<Rightarrow> string" where
  "EscapeString s = concat (map escape_char s)"

text \<open>The body that \<open>handleShorten\<close> prints.\<close>

definition quoted :: "string \<Rightarrow> string" where
  "quoted s = CHR 0x22 # s @ [CHR 0x22]"

definition shorten_body :: "string \<Rightarrow> string \<Rightarrow> string \<Rightarrow> string" where
  "shorten_body code url base =
     ''{'' @ quoted ''code'' @ '':'' @ quoted code @ '','' @ quoted ''url'' @ '':'' @ quoted (EscapeString url) @ '',''
       @ quoted ''short_url'' @ '':'' @ quoted (base @ ''/'' @ code) @ ''}''"

text \<open>
  The getter of the group reads the database; the other answers of the environment stay.
\<close>

definition link_getter :: "'d sql_driver \<Rightarrow> 'd \<Rightarrow> key \<Rightarrow> getter_outcome" where
  "link_getter drv db k =
     (case getLink drv k db of
        Inl err \<Rightarrow> GetterReturn [] (Some err)
      | Inr sl \<Rightarrow> GetterReturn (string_bytes (sl_URL sl)) None)"

definition with_getter :: "(key \<Rightarrow> getter_outcome) \<Rightarrow> group_env \<Rightarrow> group_env" where
  "with_getter getter e = e\<lparr>ge_load := (ge_load e)\<lparr>le_getter := getter\<rparr>\<rparr>"

definition link_env :: "'d sql_driver \<Rightarrow> 'd Shortener \<Rightarrow> group_env \<Rightarrow> group_env" where
  "link_env drv s e = with_getter (link_getter drv (sh_db s)) e"

type_synonym 'd handled = "(http_response \<times> 'd Shortener) option"

definition handleRedirect :: "'d sql_driver \<Rightarrow> group_env \<Rightarrow> string \<Rightarrow> 'd Shortener \<Rightarrow> 'd handled" where
  "handleRedirect drv e code s =
     do { (r, g) \<leftarrow> group_do (link_env drv s e) (GGet code) (sh_cache s);
          (case r of
             GError err \<Rightarrow> Some (HttpError ''short link not found'' 404, s\<lparr>sh_cache := g\<rparr>)
           | GView val \<Rightarrow>
               Some (Redirect (ByteView_String val) 301,
                     s\<lparr>sh_cache := g, sh_db := incrementClicks drv code (sh_db s)\<rparr>)
           | GDone _ \<Rightarrow> None) }"

text \<open>
  The loop of \<open>handleShorten\<close>: a code that is not taken, or the response when all ten are.  An
  error of \<open>linkExists\<close> counts as not taken.
\<close>

function find_code ::
    "'d sql_driver \<Rightarrow> (bytes \<Rightarrow> bytes \<Rightarrow> bytes) \<Rightarrow> string \<Rightarrow> 'd \<Rightarrow> nat \<Rightarrow> string \<Rightarrow> (http_response + string) option" where
  "find_code drv hmac url db retry code =
     (if retry < 10 then
        do { code \<leftarrow> (if retry = 0 then generateShortCode hmac url
                        else createCollisionSafeCode hmac url (int retry));
             (if \<not> fst (linkExists drv code db) then Some (Inr code)
              else if retry = 9 then Some (Inl (HttpError ''failed to generate unique code'' 500))
              else find_code drv hmac url db (Suc retry) code) }
      else Some (Inr code))"
  by auto
termination by (relation "measure (\<lambda>(_, _, _, _, retry, _). 10 - retry)") auto

declare find_code.simps [simp del]

text \<open>\<open>handleShorten\<close> for a URL that has no code yet: what follows the lookup of the URL.\<close>

definition shorten_new ::
    "'d sql_driver \<Rightarrow> (bytes \<Rightarrow> bytes \<Rightarrow> bytes) \<Rightarrow> group_env \<Rightarrow> string \<Rightarrow> 'd Shortener \<Rightarrow> 'd handled" where
  "shorten_new drv hmac e targetURL s =
     do { found \<leftarrow> find_code drv hmac targetURL (sh_db s) 0 '''';
          (case found of
             Inl resp \<Rightarrow> Some (resp, s)
           | Inr code \<Rightarrow>
               (case insertLink drv code targetURL (sh_db s) of
                  (Some err, db) \<Rightarrow> Some (HttpError err 500, s\<lparr>sh_db := db\<rparr>)
                | (None, db) \<Rightarrow>
                    do { (_, g) \<leftarrow> group_do e (GSet code (string_bytes targetURL) False) (sh_cache s);
                         Some (JsonBody (shorten_body code targetURL (sh_baseURL s)),
                               s\<lparr>sh_db := db, sh_cache := g\<rparr>) })) }"

definition target_url :: "http_request \<Rightarrow> string" where
  "target_url r =
     (let targetURL = hr_query r ''url'' in
      if targetURL = '''' \<and> hr_Method r = ''POST'' then hr_form r ''url'' else targetURL)"

definition handleShorten ::
    "'d sql_driver \<Rightarrow> (bytes \<Rightarrow> bytes \<Rightarrow> bytes) \<Rightarrow> group_env \<Rightarrow> http_request \<Rightarrow> 'd Shortener \<Rightarrow> 'd handled" where
  "handleShorten drv hmac e r s =
     (if hr_Method r \<noteq> ''POST'' \<and> hr_Method r \<noteq> ''GET'' then Some (HttpError ''method not allowed'' 405, s)
      else if target_url r = '''' then Some (HttpError ''url parameter required'' 400, s)
      else
        (case findByURL drv (target_url r) (sh_db s) of
           Inr existing \<Rightarrow> Some (JsonBody (shorten_body (sl_Code existing) (target_url r) (sh_baseURL s)), s)
         | Inl _ \<Rightarrow> shorten_new drv hmac e (target_url r) s))"

definition handleRoot :: "'d sql_driver \<Rightarrow> group_env \<Rightarrow> http_request \<Rightarrow> 'd Shortener \<Rightarrow> 'd handled" where
  "handleRoot drv e r s =
     (let path = hr_Path r in
      if path = ''/'' \<or> path = '''' then Some (StartPage (portFromRequest r), s)
      else
        let code = (if take 1 path = ''/'' then drop 1 path else path) in
        if code = '''' then Some (NotFound, s) else handleRedirect drv e code s)"

definition handleStats :: "'d sql_driver \<Rightarrow> 'd Shortener \<Rightarrow> 'd handled" where
  "handleStats drv s =
     do { stats \<leftarrow> group_Stats (sh_cache s);
          let totalLinks = scanned (scan_int (db_QueryRow drv ''SELECT COUNT(*) FROM shortlinks'' [] (sh_db s)));
          let totalClicks = scanned (scan_int
            (db_QueryRow drv ''SELECT COALESCE(SUM(clicks), 0) FROM shortlinks'' [] (sh_db s)));
          Some (StatsMap stats (sh_nodeName s) totalLinks totalClicks, s) }"

text \<open>The routes of the \<open>ServeMux\<close>.\<close>

definition route ::
    "'d sql_driver \<Rightarrow> (bytes \<Rightarrow> bytes \<Rightarrow> bytes) \<Rightarrow> group_env \<Rightarrow> http_request \<Rightarrow> 'd Shortener \<Rightarrow> 'd handled" where
  "route drv hmac e r s =
     (if hr_Path r = ''/stats'' then handleStats drv s
      else if hr_Path r = ''/shorten'' then handleShorten drv hmac e r s
      else handleRoot drv e r s)"

end
