(* ===== verification/Short_Link_Props.thy ===== *)
theory Short_Link_Props
  imports Short_Link Cache_Group_Writes
begin

text \<open>
  The link shortener of \<open>examples/shortlink\<close>: what it assumes of the SQL driver, and that its
  redirects follow the table.
\<close>

subsection \<open>The table\<close>

definition links :: "ShortLink list \<Rightarrow> (string \<times> string) set" where
  "links ls = (\<lambda>sl. (sl_Code sl, sl_URL sl)) ` set ls"

definition click :: "string \<Rightarrow> ShortLink \<Rightarrow> ShortLink" where
  "click code sl = (if sl_Code sl = code then sl\<lparr>sl_Clicks := sl_Clicks sl + 1\<rparr> else sl)"

text \<open>
  What is assumed of the driver, with \<open>rows db\<close> the rows of the table: an insert that succeeds adds
  a row and needs a code that is not there (it is the primary key); one that fails, and an update
  that fails, change nothing; the queries answer from the rows, or fail.
\<close>

definition table_driver :: "'d sql_driver \<Rightarrow> ('d \<Rightarrow> ShortLink list) \<Rightarrow> bool" where
  "table_driver drv rows \<longleftrightarrow>
     (\<forall>db code url err db'. insertLink drv code url db = (err, db') \<longrightarrow>
        (if err = None
         then code \<notin> sl_Code ` set (rows db) \<and> rows db' = rows db @ [\<lparr>sl_Code = code, sl_URL = url, sl_Clicks = 0\<rparr>]
         else rows db' = rows db))
     \<and> (\<forall>db code. rows (incrementClicks drv code db) \<in> {rows db, map (click code) (rows db)})
     \<and> (\<forall>db code sl. getLink drv code db = Inr sl \<longrightarrow> sl \<in> set (rows db) \<and> sl_Code sl = code)
     \<and> (\<forall>db url sl. findByURL drv url db = Inr sl \<longrightarrow> sl \<in> set (rows db) \<and> sl_URL sl = url)
     \<and> (\<forall>db code b. linkExists drv code db = (b, None) \<longrightarrow> (b \<longleftrightarrow> code \<in> sl_Code ` set (rows db)))"

lemma insert_rows:
  assumes "table_driver drv rows" and "insertLink drv code url db = (None, db')"
  shows "code \<notin> sl_Code ` set (rows db)" "rows db' = rows db @ [\<lparr>sl_Code = code, sl_URL = url, sl_Clicks = 0\<rparr>]"
  using assms unfolding table_driver_def by (metis (full_types))+

lemma insert_fails:
  "table_driver drv rows \<Longrightarrow> insertLink drv code url db = (Some err, db') \<Longrightarrow> rows db' = rows db"
  unfolding table_driver_def by (metis option.distinct(1))

lemma links_append: "links (ls @ [sl]) = insert (sl_Code sl, sl_URL sl) (links ls)"
  by (auto simp: links_def)

lemma click_fields [simp]: "sl_Code (click c sl) = sl_Code sl" "sl_URL (click c sl) = sl_URL sl"
  by (simp_all add: click_def)

lemma click_rows:
  assumes "table_driver drv rows"
  shows "links (rows (incrementClicks drv code db)) = links (rows db)"
    and "map sl_Code (rows (incrementClicks drv code db)) = map sl_Code (rows db)"
proof -
  have "rows (incrementClicks drv code db) \<in> {rows db, map (click code) (rows db)}"
    using assms by (simp add: table_driver_def)
  then consider "rows (incrementClicks drv code db) = rows db"
    | "rows (incrementClicks drv code db) = map (click code) (rows db)" by blast
  then show "links (rows (incrementClicks drv code db)) = links (rows db)"
      "map sl_Code (rows (incrementClicks drv code db)) = map sl_Code (rows db)"
    by (cases; simp add: links_def image_image o_def)+
qed

text \<open>
  The table that \<open>main\<close> opens: creating it keeps its rows, and seeding adds rows with new codes
  only, so that a table without two rows for a code is opened as one.
\<close>

lemma insert_codes:
  assumes "table_driver drv rows" and "distinct (map sl_Code (rows db))"
  shows "distinct (map sl_Code (rows (snd (insertLink drv code url db))))
    \<and> links (rows db) \<subseteq> links (rows (snd (insertLink drv code url db)))"
proof (cases "insertLink drv code url db")
  case (Pair err db')
  then show ?thesis
    using insert_rows [OF assms(1), of code url db db'] insert_fails [OF assms(1), of code url db] assms(2)
    by (cases err) (auto simp: links_append)
qed

lemma seeded_codes:
  assumes "table_driver drv rows" and "distinct (map sl_Code (rows db))"
  shows "distinct (map sl_Code (rows (fold (\<lambda>(code, url) db. snd (insertLink drv code url db)) es db)))
    \<and> links (rows db) \<subseteq> links (rows (fold (\<lambda>(code, url) db. snd (insertLink drv code url db)) es db))"
  using assms(2)
proof (induction es arbitrary: db)
  case (Cons e es)
  note i = insert_codes [OF assms(1) Cons.prems, of "fst e" "snd e"]
  from Cons.IH [OF conjunct1 [OF i]] i show ?case by (cases e) (simp, blast)
qed simp

lemma open_shortlinks_ok:
  assumes "table_driver drv rows" and "\<And>db. rows (snd (db_Exec drv create_shortlinks [] db)) = rows db"
    and "distinct (map sl_Code (rows db0))" and "open_shortlinks drv (Inr db0) = Inr db"
  shows "distinct (map sl_Code (rows db)) \<and> links (rows db0) \<subseteq> links (rows db)"
proof -
  let ?db = "snd (db_Exec drv create_shortlinks [] db0)"
  have "db = ?db \<or> db = fold (\<lambda>(code, url) db. snd (insertLink drv code url db)) seed_entries ?db"
    using assms(4) by (auto simp: open_shortlinks_def initShortLinkDB_def initTestData_def Let_def split: prod.splits option.splits if_splits)
  then show ?thesis using seeded_codes [OF assms(1), of ?db seed_entries] assms(2) [of db0] assms(3) by auto
qed

subsection \<open>The values of the group\<close>

text \<open>The values that belong to a code: the URL the table has for it.\<close>

definition link_value :: "('d \<Rightarrow> ShortLink list) \<Rightarrow> 'd \<Rightarrow> key \<Rightarrow> byteview \<Rightarrow> bool" where
  "link_value rows db k v \<longleftrightarrow> (\<exists>url. (k, url) \<in> links (rows db) \<and> v = ByteView (string_bytes url))"

text \<open>The other nodes share the database.\<close>

definition peers_agree :: "('d \<Rightarrow> ShortLink list) \<Rightarrow> 'd \<Rightarrow> group_env \<Rightarrow> bool" where
  "peers_agree rows db e \<longleftrightarrow> (\<forall>p n k b. le_peer (ge_load e) p n k = Inr b \<longrightarrow> link_value rows db k (ByteView b))"

lemma view_string [simp]: "ByteView_String (ByteView (string_bytes s)) = s"
proof -
  have "char_of (unat (of_char c :: 8 word)) = c" for c
    by (subst of_nat_of_char [symmetric]) (simp add: unat_of_nat)
  then show ?thesis by (simp add: ByteView_String_def string_bytes_def o_def map_idI)
qed

lemma link_env_simps [simp]: "ge_clk (link_env drv s e) = ge_clk e" "link_env drv (s\<lparr>sh_cache := g\<rparr>) e = link_env drv s e"
  by (simp_all add: link_env_def with_getter_def)

lemma link_env_quiet: "env_quiet e \<Longrightarrow> env_quiet (link_env drv s e)"
  by (auto simp: env_quiet_def link_env_def with_getter_def link_getter_def split: sum.splits)

lemma link_env_answers:
  assumes "table_driver drv rows" and "peers_agree rows (sh_db s) e"
  shows "answers_in (link_value rows (sh_db s)) (link_env drv s e)"
proof -
  have "link_value rows (sh_db s) k (ByteView (string_bytes (sl_URL sl)))" if "getLink drv k (sh_db s) = Inr sl" for k sl
    using assms(1) that unfolding table_driver_def link_value_def links_def by blast
  then show ?thesis using assms(2)
    by (auto simp: answers_in_def link_env_def with_getter_def link_getter_def peers_agree_def split: sum.splits)
qed

lemma held_in_mono: "held_in P c \<Longrightarrow> (\<And>k v. P k v \<Longrightarrow> Q k v) \<Longrightarrow> held_in Q c"
  by (auto simp: held_in_def)

lemma link_value_mono: "link_value rows db k v \<Longrightarrow> links (rows db) \<subseteq> links (rows db') \<Longrightarrow> link_value rows db' k v"
  by (auto simp: link_value_def)

subsection \<open>Executions of the service\<close>

text \<open>
  A node serves requests; between them the other nodes use the shared table, and write to and
  read from this node's cache.
\<close>

inductive link_service ::
    "'d sql_driver \<Rightarrow> (bytes \<Rightarrow> bytes \<Rightarrow> bytes) \<Rightarrow> ('d \<Rightarrow> ShortLink list) \<Rightarrow> 'd Shortener
      \<Rightarrow> (http_request \<times> http_response) list \<Rightarrow> 'd Shortener \<Rightarrow> bool"
  for drv hmac rows s0 where
  ls_start: "link_service drv hmac rows s0 [] s0"
| ls_request: "link_service drv hmac rows s0 xs s \<Longrightarrow> env_quiet e \<Longrightarrow> peers_agree rows (sh_db s) e
    \<Longrightarrow> route drv hmac e r s = Some (resp, s') \<Longrightarrow> link_service drv hmac rows s0 (xs @ [(r, resp)]) s'"
| ls_table: "link_service drv hmac rows s0 xs s \<Longrightarrow> links (rows (sh_db s)) \<subseteq> links (rows db)
    \<Longrightarrow> distinct (map sl_Code (rows db)) \<Longrightarrow> link_service drv hmac rows s0 xs (s\<lparr>sh_db := db\<rparr>)"
| ls_write: "link_service drv hmac rows s0 xs s \<Longrightarrow> link_value rows (sh_db s) k (ByteView v) \<Longrightarrow> env_quiet e
    \<Longrightarrow> group_do e (GSet k v True) (sh_cache s) = Some (res, g) \<Longrightarrow> link_service drv hmac rows s0 xs (s\<lparr>sh_cache := g\<rparr>)"
| ls_read: "link_service drv hmac rows s0 xs s \<Longrightarrow> env_quiet e \<Longrightarrow> peers_agree rows (sh_db s) e
    \<Longrightarrow> group_do (link_env drv s e) (GGet k) (sh_cache s) = Some (res, g)
    \<Longrightarrow> link_service drv hmac rows s0 xs (s\<lparr>sh_cache := g\<rparr>)"

definition shortener_ok :: "('d \<Rightarrow> ShortLink list) \<Rightarrow> 'd Shortener \<Rightarrow> bool" where
  "shortener_ok rows s \<longleftrightarrow> group_idle (sh_cache s) \<and> distinct (map sl_Code (rows (sh_db s)))
     \<and> held_in (link_value rows (sh_db s)) (g_mainCache (sh_cache s))"

text \<open>The code a path names.\<close>

definition path_code :: "http_request \<Rightarrow> string" where
  "path_code r = (if take 1 (hr_Path r) = ''/'' then drop 1 (hr_Path r) else hr_Path r)"

text \<open>What a response says about the table.\<close>

definition response_ok :: "(string \<times> string) set \<Rightarrow> string \<Rightarrow> http_request \<Rightarrow> http_response \<Rightarrow> bool" where
  "response_ok table base r resp \<longleftrightarrow>
     (case resp of
        Redirect url status \<Rightarrow> (path_code r, url) \<in> table \<and> status = 301
      | JsonBody body \<Rightarrow> (\<exists>code. (code, target_url r) \<in> table \<and> body = shorten_body code (target_url r) base)
      | _ \<Rightarrow> True)"

lemma response_ok_mono: "response_ok T base r resp \<Longrightarrow> T \<subseteq> T' \<Longrightarrow> response_ok T' base r resp"
  by (auto simp: response_ok_def split: http_response.splits)

text \<open>What a handler keeps.\<close>

definition step_ok :: "('d \<Rightarrow> ShortLink list) \<Rightarrow> 'd Shortener \<Rightarrow> http_request \<Rightarrow> http_response \<Rightarrow> 'd Shortener \<Rightarrow> bool" where
  "step_ok rows s r resp s' \<longleftrightarrow> shortener_ok rows s' \<and> links (rows (sh_db s)) \<subseteq> links (rows (sh_db s'))
     \<and> sh_baseURL s' = sh_baseURL s \<and> response_ok (links (rows (sh_db s'))) (sh_baseURL s) r resp"

lemma handle_get:
  assumes d: "table_driver drv rows" and s: "shortener_ok rows s" and e: "env_quiet e" "peers_agree rows (sh_db s) e"
    and get: "group_do (link_env drv s e) (GGet code) (sh_cache s) = Some (res, g)"
  shows "shortener_ok rows (s\<lparr>sh_cache := g\<rparr>)" and "\<And>v. res = GView v \<Longrightarrow> link_value rows (sh_db s) code v"
proof -
  have idle: "group_idle (sh_cache s)" and held: "held_in (link_value rows (sh_db s)) (g_mainCache (sh_cache s))"
    using s by (simp_all add: shortener_ok_def)
  note q = link_env_quiet [OF e(1), of drv s]
  from group_get_values [OF idle held link_env_answers [OF d e(2)] q get] group_do_ok [OF idle q, of "GGet code"] get s
  show "shortener_ok rows (s\<lparr>sh_cache := g\<rparr>)" "\<And>v. res = GView v \<Longrightarrow> link_value rows (sh_db s) code v"
    by (auto simp: shortener_ok_def group_kept_def)
qed

lemma redirect_ok:
  assumes d: "table_driver drv rows" and s: "shortener_ok rows s" and e: "env_quiet e" "peers_agree rows (sh_db s) e"
    and h: "handleRedirect drv e (path_code r) s = Some (resp, s')"
  shows "step_ok rows s r resp s'"
proof -
  obtain res g where get: "group_do (link_env drv s e) (GGet (path_code r)) (sh_cache s) = Some (res, g)"
    using h by (auto simp: handleRedirect_def split: Option.bind_splits)
  note g = handle_get [OF d s e get]
  show ?thesis
  proof (cases res)
    case (GView v)
    from g(2) [OF GView] obtain url where url: "(path_code r, url) \<in> links (rows (sh_db s))" "v = ByteView (string_bytes url)"
      by (auto simp: link_value_def)
    have eq: "resp = Redirect url 301" "s' = s\<lparr>sh_cache := g, sh_db := incrementClicks drv (path_code r) (sh_db s)\<rparr>"
      using h get GView url(2) by (simp_all add: handleRedirect_def)
    have "link_value rows (incrementClicks drv (path_code r) (sh_db s)) = link_value rows (sh_db s)"
      by (simp add: link_value_def click_rows(1) [OF d] fun_eq_iff)
    with g(1) url(1) show ?thesis
      by (simp add: step_ok_def shortener_ok_def eq response_ok_def click_rows [OF d])
  next
    case (GError err)
    then show ?thesis using h get g(1) by (auto simp: handleRedirect_def step_ok_def response_ok_def)
  next
    case (GDone y)
    then show ?thesis using h get by (simp add: handleRedirect_def)
  qed
qed

lemma held_in_links:
  assumes "shortener_ok rows s" and "links (rows (sh_db s)) \<subseteq> links (rows db)"
  shows "held_in (link_value rows db) (g_mainCache (sh_cache s))"
proof (rule held_in_mono)
  show "held_in (link_value rows (sh_db s)) (g_mainCache (sh_cache s))" using assms(1) by (simp add: shortener_ok_def)
  fix k v assume "link_value rows (sh_db s) k v"
  then show "link_value rows db k v" using assms(2) by (auto simp: link_value_def)
qed

lemma find_code_result:
  assumes "find_code drv hmac url db retry code = Some found" and "retry < 10"
  shows "found = Inl (HttpError ''failed to generate unique code'' 500)
    \<or> (\<exists>c. found = Inr c \<and> 8 \<le> length c \<and> \<not> fst (linkExists drv c db))"
  using assms
proof (induction drv hmac url db retry code rule: find_code.induct)
  case (1 drv hmac url db retry code)
  then obtain c where c: "(if retry = 0 then generateShortCode hmac url else createCollisionSafeCode hmac url (int retry)) = Some c"
      "(if \<not> fst (linkExists drv c db) then Some (Inr c)
        else if retry = 9 then Some (Inl (HttpError ''failed to generate unique code'' 500))
        else find_code drv hmac url db (Suc retry) c) = Some found"
    by (subst (asm) find_code.simps) (auto split: Option.bind_splits if_splits)
  have "8 \<le> length c"
    using c(1) length_code by (auto simp: generateShortCode_def createCollisionSafeCode_def Let_def split: if_splits)
  moreover have "retry \<noteq> 9 \<Longrightarrow> Suc retry < 10" using "1.prems"(2) by simp
  ultimately show ?case using c 1 by (auto split: if_splits)
qed

lemma shorten_new_ok:
  assumes d: "table_driver drv rows" and s: "shortener_ok rows s" and e: "env_quiet e"
    and url: "url = target_url r" and h: "shorten_new drv hmac e url s = Some (resp, s')"
  shows "step_ok rows s r resp s'"
proof -
  obtain found where found: "find_code drv hmac url (sh_db s) 0 '''' = Some found"
    using h by (auto simp: shorten_new_def split: Option.bind_splits)
  show ?thesis
  proof (cases found)
    case (Inl x)
    then have "resp = HttpError ''failed to generate unique code'' 500" "s' = s"
      using h found find_code_result [OF found] by (auto simp: shorten_new_def)
    then show ?thesis using s by (simp add: step_ok_def response_ok_def)
  next
    case (Inr code)
    obtain err db where ins: "insertLink drv code url (sh_db s) = (err, db)" by fastforce
    show ?thesis
    proof (cases err)
      case (Some msg)
      then have "resp = HttpError msg 500" "s' = s\<lparr>sh_db := db\<rparr>" "rows db = rows (sh_db s)"
        using h found Inr ins insert_fails [OF d] by (auto simp: shorten_new_def)
      then show ?thesis using s by (simp add: step_ok_def shortener_ok_def response_ok_def link_value_def held_in_def)
    next
      case None
      then have ins: "insertLink drv code url (sh_db s) = (None, db)" using ins by simp
      then obtain res g where set: "group_do e (GSet code (string_bytes url) False) (sh_cache s) = Some (res, g)"
          and eq: "resp = JsonBody (shorten_body code url (sh_baseURL s))" "s' = s\<lparr>sh_db := db, sh_cache := g\<rparr>"
        using h found Inr by (auto simp: shorten_new_def split: Option.bind_splits)
      note rows = insert_rows [OF d ins]
      have table: "links (rows db) = insert (code, url) (links (rows (sh_db s)))" by (simp add: rows(2) links_append)
      have idle: "group_idle (sh_cache s)" using s by (simp add: shortener_ok_def)
      have held: "held_in (link_value rows db) (g_mainCache (sh_cache s))"
        by (rule held_in_links [OF s]) (use table in blast)
      have "link_value rows db code (ByteView (string_bytes url))" by (auto simp: link_value_def table)
      from group_set_values [where P = "link_value rows db", OF idle held this set]
      have "held_in (link_value rows db) (g_mainCache g)" .
      moreover have "group_idle g" by (rule group_do_idle(1) [OF idle e set])
      ultimately show ?thesis
        using s rows table by (auto simp: step_ok_def shortener_ok_def response_ok_def eq url)
    qed
  qed
qed

lemma shorten_ok:
  assumes d: "table_driver drv rows" and s: "shortener_ok rows s" and e: "env_quiet e"
    and h: "handleShorten drv hmac e r s = Some (resp, s')"
  shows "step_ok rows s r resp s'"
proof -
  have keep: "step_ok rows s r (HttpError msg n) s" for msg n using s by (simp add: step_ok_def response_ok_def)
  show ?thesis
  proof (cases "findByURL drv (target_url r) (sh_db s)")
    case (Inl err)
    then show ?thesis using h keep shorten_new_ok [OF d s e refl] by (auto simp: handleShorten_def split: if_splits)
  next
    case (Inr sl)
    then have "(sl_Code sl, target_url r) \<in> links (rows (sh_db s))"
      using d unfolding table_driver_def links_def by (metis (no_types, lifting) image_eqI)
    then show ?thesis using h keep s Inr
      by (auto simp: handleShorten_def step_ok_def response_ok_def split: if_splits)
  qed
qed

lemma route_ok:
  assumes d: "table_driver drv rows" and s: "shortener_ok rows s" and e: "env_quiet e" "peers_agree rows (sh_db s) e"
    and h: "route drv hmac e r s = Some (resp, s')"
  shows "step_ok rows s r resp s'"
proof -
  have keep: "step_ok rows s r (StartPage p) s" "step_ok rows s r NotFound s" "step_ok rows s r (StatsMap a b c d) s"
    for p a b c d using s by (simp_all add: step_ok_def response_ok_def)
  show ?thesis
  proof (cases "hr_Path r = ''/stats'' \<or> hr_Path r = ''/shorten''")
    case True
    then show ?thesis using h keep shorten_ok [OF d s e(1)]
      by (auto simp: route_def handleStats_def Let_def split: Option.bind_splits)
  next
    case False
    then have "handleRoot drv e r s = Some (resp, s')" using h by (simp add: route_def)
    then show ?thesis using keep redirect_ok [OF d s e, of r]
      by (auto simp: handleRoot_def path_code_def Let_def split: if_splits)
  qed
qed

lemma service_ok:
  assumes d: "table_driver drv rows" and s0: "shortener_ok rows s0" and run: "link_service drv hmac rows s0 xs s"
  shows "shortener_ok rows s \<and> sh_baseURL s = sh_baseURL s0
    \<and> (\<forall>(r, resp) \<in> set xs. response_ok (links (rows (sh_db s))) (sh_baseURL s0) r resp)"
  using run
proof induction
  case ls_start
  then show ?case using s0 by simp
next
  case (ls_request xs s e r resp s')
  have "step_ok rows s r resp s'" using ls_request by (intro route_ok [OF d]) auto
  with ls_request.IH show ?case by (auto simp: step_ok_def dest: response_ok_mono)
next
  case (ls_table xs s db)
  have "shortener_ok rows (s\<lparr>sh_db := db\<rparr>)"
    using ls_table.IH ls_table.hyps(3) held_in_links [OF _ ls_table.hyps(2)] by (simp add: shortener_ok_def)
  moreover have "response_ok (links (rows db)) (sh_baseURL s0) r resp" if "(r, resp) \<in> set xs" for r resp
    using ls_table.IH that response_ok_mono [OF _ ls_table.hyps(2)] by blast
  ultimately show ?case using ls_table.IH by auto
next
  case (ls_write xs s k v e res g)
  have idle: "group_idle (sh_cache s)" and held: "held_in (link_value rows (sh_db s)) (g_mainCache (sh_cache s))"
    using ls_write.IH by (simp_all add: shortener_ok_def)
  have "group_idle g" by (rule group_do_idle(1) [OF idle ls_write.hyps(3,4)])
  with ls_write.IH group_set_values [where P = "link_value rows (sh_db s)", OF idle held ls_write.hyps(2,4)]
  show ?case by (simp add: shortener_ok_def)
next
  case (ls_read xs s e k res g)
  from handle_get(1) [OF d _ ls_read.hyps(2-4)] ls_read.IH show ?case by simp
qed

subsection \<open>Properties\<close>

lemma shortlink_fresh: "fresh_group ''shortlink'' shortlink_group"
  unfolding shortlink_group_def by (rule fresh_make_group) (simp add: group_options_ok_def)

lemma shortlink_ok: "group_idle shortlink_group" "held_in P (g_mainCache shortlink_group)"
  using fresh_idle [OF shortlink_fresh] fresh_group_ok [OF shortlink_fresh, of P False] by (simp_all add: group_ok_def)

text \<open>
  C15. Redirects follow the table: however many requests a node serves, whatever the other nodes do
  with the shared table and through the peer protocol meanwhile, and whether a value comes from
  the cache, a peer or the database, every redirect is a 301 to the URL the table has for the code
  in the path, every code handed out is stored there for the URL that was asked for, and no code
  ever has two URLs.
\<close>

theorem redirects_follow_table:
  assumes "table_driver drv rows" and "sh_cache s0 = shortlink_group" and "distinct (map sl_Code (rows (sh_db s0)))"
    and "link_service drv hmac rows s0 xs s"
  shows "(\<forall>r url status. (r, Redirect url status) \<in> set xs \<longrightarrow> (path_code r, url) \<in> links (rows (sh_db s)) \<and> status = 301)
    \<and> (\<forall>r body. (r, JsonBody body) \<in> set xs \<longrightarrow>
         (\<exists>code. (code, target_url r) \<in> links (rows (sh_db s)) \<and> body = shorten_body code (target_url r) (sh_baseURL s0)))
    \<and> (\<forall>code u v. (code, u) \<in> links (rows (sh_db s)) \<longrightarrow> (code, v) \<in> links (rows (sh_db s)) \<longrightarrow> u = v)"
proof -
  have "shortener_ok rows s0" using assms(2,3) by (simp add: shortener_ok_def shortlink_ok)
  note ok = service_ok [OF assms(1) this assms(4)]
  then have "response_ok (links (rows (sh_db s))) (sh_baseURL s0) r resp" if "(r, resp) \<in> set xs" for r resp
    using that by blast
  note resp = this
  have "(\<forall>code u v. (code, u) \<in> links (rows (sh_db s)) \<longrightarrow> (code, v) \<in> links (rows (sh_db s)) \<longrightarrow> u = v)"
    using ok by (auto simp: links_def shortener_ok_def distinct_map inj_on_def)
  with resp show ?thesis by (fastforce simp: response_ok_def)
qed

text \<open>
  Shorten, then follow: when a URL without a code is shortened successfully, the code in the
  answer is a new one that the table now has for the URL, and following it on this node is a 301
  to the URL, as long as the hour of the group's expiration has not passed.
\<close>

theorem shorten_then_redirect:
  assumes "table_driver drv rows" and "serving (sh_cache s)" and "env_quiet e'"
    and "findByURL drv (target_url r) (sh_db s) = Inl err" and "handleShorten drv hmac e r s = Some (JsonBody body, s1)"
    and "in_time e (sh_cache s)" and "0 < group_deadline e (sh_cache s)" and "fst (ge_clk e') < group_deadline e (sh_cache s)"
  shows "\<exists>code s2. body = shorten_body code (target_url r) (sh_baseURL s) \<and> code \<notin> sl_Code ` set (rows (sh_db s))
    \<and> (code, target_url r) \<in> links (rows (sh_db s1)) \<and> handleRedirect drv e' code s1 = Some (Redirect (target_url r) 301, s2)"
proof -
  let ?url = "target_url r"
  have url: "?url \<noteq> ''''" and new: "shorten_new drv hmac e ?url s = Some (JsonBody body, s1)"
    using assms(4,5) by (auto simp: handleShorten_def split: if_splits)
  then obtain found where found: "find_code drv hmac ?url (sh_db s) 0 '''' = Some found"
    by (auto simp: shorten_new_def split: Option.bind_splits)
  then obtain code where code: "found = Inr code" "8 \<le> length code"
    using new find_code_result [OF found] by (auto simp: shorten_new_def)
  obtain db where ins: "insertLink drv code ?url (sh_db s) = (None, db)"
    using new found code(1) by (cases "insertLink drv code ?url (sh_db s)") (auto simp: shorten_new_def split: option.splits)
  have ne: "code \<noteq> []" "string_bytes ?url \<noteq> []" using code(2) url by (auto simp: string_bytes_def)
  let ?e = "link_env drv (s\<lparr>sh_db := db\<rparr>) e'"
  obtain g1 g2 where g1: "group_do e (GSet code (string_bytes ?url) False) (sh_cache s)
        = Some (GDone (started False (sh_cache s) (SyncSet code (string_bytes ?url))), g1)"
      and g2: "group_do ?e (GGet code) g1 = Some (GView (ByteView (string_bytes ?url)), g2)"
    using group_write_read [OF assms(2) ne assms(6,7) _ link_env_quiet [OF assms(3), of drv "s\<lparr>sh_db := db\<rparr>"], of False] assms(8)
    by auto
  have s1: "s1 = s\<lparr>sh_db := db, sh_cache := g1\<rparr>" and body: "body = shorten_body code ?url (sh_baseURL s)"
    using new found code(1) ins g1 by (simp_all add: shorten_new_def)
  have "(code, ?url) \<in> links (rows (sh_db s1))" using insert_rows [OF assms(1) ins] by (simp add: s1 links_append)
  moreover have "\<exists>s2. handleRedirect drv e' code s1 = Some (Redirect ?url 301, s2)"
    using g2 by (simp add: handleRedirect_def s1)
  ultimately show ?thesis using body insert_rows(1) [OF assms(1) ins] by blast
qed

subsection \<open>A driver\<close>

text \<open>A driver whose table is a list of rows: what is assumed of a driver can hold.\<close>

definition list_driver :: "ShortLink list sql_driver" where
  "list_driver =
     \<lparr>db_Exec = (\<lambda>stmt args rows.
        case args of
          [SqlText code, SqlText url] \<Rightarrow>
            if code \<in> sl_Code ` set rows then (Some ''UNIQUE constraint failed: shortlinks.code'', rows)
            else (None, rows @ [\<lparr>sl_Code = code, sl_URL = url, sl_Clicks = 0\<rparr>])
        | [SqlText code] \<Rightarrow> (None, map (click code) rows)
        | _ \<Rightarrow> (None, rows)),
      db_QueryRow = (\<lambda>stmt args rows.
        case args of
          [SqlText x] \<Rightarrow>
            if stmt = ''SELECT COUNT(*) FROM shortlinks WHERE code = ?''
            then Inr [SqlInt (int (length (filter (\<lambda>sl. sl_Code sl = x) rows)))]
            else
              (case find (\<lambda>sl. (if stmt = ''SELECT code, url, clicks FROM shortlinks WHERE code = ?'' then sl_Code sl else sl_URL sl) = x) rows of
                 None \<Rightarrow> Inl ''sql: no rows in result set''
               | Some sl \<Rightarrow> Inr [SqlText (sl_Code sl), SqlText (sl_URL sl), SqlInt (sl_Clicks sl)])
        | _ \<Rightarrow> Inr [SqlInt (int (length rows))])\<rparr>"

lemma find_in_set: "find P xs = Some x \<Longrightarrow> x \<in> set xs \<and> P x"
  by (auto simp: find_Some_iff)

lemma link_eta: "\<lparr>sl_Code = sl_Code x, sl_URL = sl_URL x, sl_Clicks = sl_Clicks x\<rparr> = x"
  by simp

lemma list_driver_ok: "table_driver list_driver id"
proof -
  have get: "getLink list_driver code rows = Inr sl \<Longrightarrow> sl \<in> set rows \<and> sl_Code sl = code" for code rows sl
    using find_in_set [of "\<lambda>sl. sl_Code sl = code" rows]
    by (auto simp: getLink_def list_driver_def link_eta simp del: ShortLink.surjective split: option.splits)
  have url: "findByURL list_driver url rows = Inr sl \<Longrightarrow> sl \<in> set rows \<and> sl_URL sl = url" for url rows sl
    using find_in_set [of "\<lambda>sl. sl_URL sl = url" rows]
    by (auto simp: findByURL_def list_driver_def link_eta simp del: ShortLink.surjective split: option.splits)
  have ex: "linkExists list_driver code rows = (b, None) \<Longrightarrow> b \<longleftrightarrow> code \<in> sl_Code ` set rows" for code rows b
    by (auto simp: linkExists_def list_driver_def filter_empty_conv image_iff simp del: length_filter_conv_card)
  show ?thesis unfolding table_driver_def
    using get url ex by (auto simp: insertLink_def incrementClicks_def list_driver_def split: if_splits)
qed

lemma idle_agrees: "peers_agree rows db idle_env"
  by (simp add: peers_agree_def idle_env_def)

text \<open>A code that is not cached is read from the table.\<close>

lemma fresh_redirect:
  assumes "sh_cache s = shortlink_group" and "getLink drv code (sh_db s) = Inr sl" and "code \<noteq> []"
  shows "\<exists>s'. handleRedirect drv idle_env code s = Some (Redirect (sl_URL sl) 301, s')"
proof -
  let ?e = "link_env drv s idle_env"
  note f = fresh_idle [OF shortlink_fresh]
  have "\<exists>c. cache_call (CGet (ge_clk ?e) code) (g_mainCache shortlink_group) = Some (RGet empty_view False, c)"
    using call_read [of "g_mainCache shortlink_group" "CGet (ge_clk ?e) code"]
    by (simp add: shortlink_group_def make_group_def NewCache_def)
  then obtain c where c: "cache_call (CGet (ge_clk ?e) code) (g_mainCache shortlink_group) = Some (RGet empty_view False, c)" by blast
  have "load_answer (ge_load ?e) shortlink_group code = GView (ByteView (string_bytes (sl_URL sl)))"
    by (simp add: load_answer_def source_answer_def link_env_def with_getter_def link_getter_def idle_env_def assms(2))
  with miss_answer [of shortlink_group ?e code, OF _ link_env_quiet [OF idle_env_quiet] _ assms(3) c] f
  show ?thesis by (auto simp: handleRedirect_def assms(1))
qed

definition shop :: "ShortLink list \<Rightarrow> ShortLink list Shortener" where
  "shop rows = \<lparr>sh_db = rows, sh_cache = shortlink_group, sh_baseURL = ''b'', sh_nodeName = ''n''\<rparr>"

definition request :: "string \<Rightarrow> string \<Rightarrow> string \<Rightarrow> http_request" where
  "request meth path url = \<lparr>hr_Method = meth, hr_Path = path, hr_Host = '''', hr_query = (\<lambda>_. url), hr_form = (\<lambda>_. '''')\<rparr>"

theorem redirects_follow_table_witness:
  "\<exists>s. link_service list_driver (\<lambda>_ _. []) id (shop [\<lparr>sl_Code = ''a'', sl_URL = ''u'', sl_Clicks = 0\<rparr>])
        [(request ''GET'' ''/a'' '''', Redirect ''u'' 301)] s \<and> (''a'', ''u'') \<in> links (sh_db s)"
proof -
  let ?sl = "\<lparr>sl_Code = ''a'', sl_URL = ''u'', sl_Clicks = 0\<rparr>" let ?r = "request ''GET'' ''/a'' ''''"
  let ?s = "shop [?sl]"
  have "getLink list_driver ''a'' (sh_db ?s) = Inr ?sl" by (simp add: getLink_def list_driver_def shop_def)
  then obtain s' where "handleRedirect list_driver idle_env ''a'' ?s = Some (Redirect ''u'' 301, s')"
    using fresh_redirect [of ?s list_driver "''a''" ?sl] by (auto simp: shop_def)
  then have step: "route list_driver (\<lambda>_ _. []) idle_env ?r ?s = Some (Redirect ''u'' 301, s')"
    by (simp add: route_def handleRoot_def request_def)
  have run: "link_service list_driver (\<lambda>_ _. []) id ?s ([] @ [(?r, Redirect ''u'' 301)]) s'"
    by (rule ls_request [OF ls_start idle_env_quiet idle_agrees step])
  have "(path_code ?r, ''u'') \<in> links (id (sh_db s'))"
    using redirects_follow_table [OF list_driver_ok _ _ run] by (simp add: shop_def)
  with run show ?thesis by (auto simp: path_code_def request_def)
qed

lemma shop_serving: "serving (sh_cache (shop rows))"
proof -
  have "\<not> c_closed (g_mainCache shortlink_group) \<and> lru2_cache (g_mainCache shortlink_group)"
    by (simp add: shortlink_group_def make_group_def NewCache_def DefaultCacheOptions_def lru2_cache_def)
  with fresh_idle [OF shortlink_fresh] show ?thesis by (simp add: serving_def shop_def)
qed

lemma shop_times: "in_time idle_env (sh_cache (shop rows))" "group_deadline idle_env (sh_cache (shop rows)) = 3600000000000"
    "0 < group_deadline idle_env (sh_cache (shop rows))" "fst (ge_clk idle_env) < group_deadline idle_env (sh_cache (shop rows))"
    "sh_baseURL (shop rows) = ''b''"
  by (simp_all add: in_time_def group_deadline_def shop_def shortlink_group_def make_group_def idle_env_def
      expire_at_def max_int64_def)

lemma shorten_body_inj:
  assumes "shorten_body c u b = shorten_body c' u b"
  shows "c = c'"
proof -
  have "length (shorten_body c u b) = length (shorten_body c' u b)" using assms by simp
  then have "length c = length c'" by (simp add: shorten_body_def quoted_def)
  with assms show ?thesis by (simp add: shorten_body_def quoted_def)
qed

theorem shorten_then_redirect_witness:
  "\<exists>s1 s2. handleShorten list_driver (\<lambda>_ _. replicate 32 0) idle_env (request ''POST'' ''/shorten'' ''u'') (shop [])
       = Some (JsonBody (shorten_body ''00000000'' ''u'' ''b''), s1)
     \<and> handleRedirect list_driver idle_env ''00000000'' s1 = Some (Redirect ''u'' 301, s2)"
proof -
  let ?r = "request ''POST'' ''/shorten'' ''u''" let ?h = "\<lambda>_ _. replicate 32 0 :: bytes"
  have r: "target_url ?r = ''u''" "hr_Method ?r = ''POST''" by (simp_all add: target_url_def request_def)
  have "base62Encode (replicate 8 0) = Some ''00000000''"
    by (simp add: base62Encode_def SetBytes_def append_digits.simps pad8.simps swap_ends.simps Let_def rd_def wr_def numeral_eq_Suc)
  then have code: "find_code list_driver ?h ''u'' (sh_db (shop [])) 0 '''' = Some (Inr ''00000000'')"
    by (subst find_code.simps) (simp add: generateShortCode_def linkExists_def list_driver_def shop_def)
  have none: "findByURL list_driver (target_url ?r) (sh_db (shop [])) = Inl ''sql: no rows in result set''"
    by (simp add: findByURL_def list_driver_def shop_def)
  obtain y g where "group_do idle_env (GSet ''00000000'' (string_bytes ''u'') False) (sh_cache (shop [])) = Some (y, g)"
    using group_do_ok [OF _ idle_env_quiet, of "sh_cache (shop [])"] shop_serving [of "[]"] unfolding serving_def by blast
  then obtain s1 where s1: "handleShorten list_driver ?h idle_env ?r (shop []) = Some (JsonBody (shorten_body ''00000000'' ''u'' ''b''), s1)"
    using none code r by (simp add: handleShorten_def shorten_new_def insertLink_def list_driver_def) (simp add: shop_def)
  obtain c s2 where c: "shorten_body ''00000000'' ''u'' ''b'' = shorten_body c ''u'' ''b''"
      "handleRedirect list_driver idle_env c s1 = Some (Redirect ''u'' 301, s2)"
    using shorten_then_redirect [OF list_driver_ok shop_serving idle_env_quiet none s1 shop_times(1) shop_times(3,4)] r(1)
    unfolding shop_times(5) by auto
  from shorten_body_inj [OF c(1)] have "c = ''00000000''" by simp
  with s1 c(2) show ?thesis by blast
qed

end
