(* ===== verification/User_Service.thy ===== *)
theory User_Service
  imports Short_Link Rpc Float64
begin

text \<open>
  \<open>examples/single/main.go\<close>: a service of users on one node, over a \<open>Group\<close> that reads through to
  a table.  As for the link shortener the SQL driver is a parameter; \<open>quote\<close>, a parameter too, is
  how \<open>encoding/json\<close> prints a string, about which nothing is assumed.
\<close>

subsection \<open>Numbers as text\<close>

definition Itoa :: "int \<Rightarrow> string" where
  "Itoa n = (if n < 0 then CHR ''-'' # dec (nat (- n)) else dec (nat n))"

definition is_digit :: "char \<Rightarrow> bool" where
  "is_digit c \<longleftrightarrow> 48 \<le> (of_char c :: nat) \<and> (of_char c :: nat) \<le> 57"

text \<open>
  \<open>strconv.Atoi\<close>: the number and whether there is an error; a syntax error gives 0 and a number
  out of the range of \<open>int\<close> its nearest bound.
\<close>

definition Atoi :: "string \<Rightarrow> int \<times> bool" where
  "Atoi s =
     (let sign = s \<noteq> [] \<and> (hd s = CHR ''-'' \<or> hd s = CHR ''+'');
          digits = (if sign then tl s else s)
      in if digits = [] \<or> \<not> list_all is_digit digits then (0, True)
         else
           let n = (if hd s = CHR ''-'' then - int (undec digits) else int (undec digits)) in
           if n > 2 ^ 63 - 1 then (2 ^ 63 - 1, True)
           else if n < - (2 ^ 63) then (- (2 ^ 63), True)
           else (n, False))"

subsection \<open>Users\<close>

record User =
  u_ID :: int
  u_Name :: string
  u_Age :: int

text \<open>\<open>json.Marshal\<close> of a user, whose fields have tags.\<close>

definition Marshal :: "(string \<Rightarrow> string) \<Rightarrow> User \<Rightarrow> string" where
  "Marshal quote u =
     ''{\"id\":'' @ Itoa (u_ID u) @ '',\"name\":'' @ quote (u_Name u) @ '',\"age\":'' @ Itoa (u_Age u) @ ''}''"

text \<open>\<open>Scan(&u.ID, &u.Name, &u.Age)\<close>.\<close>

fun scan_user :: "string + sql_value list \<Rightarrow> string + User" where
  "scan_user (Inl err) = Inl err"
| "scan_user (Inr [SqlInt i, SqlText n, SqlInt a]) = Inr \<lparr>u_ID = i, u_Name = n, u_Age = a\<rparr>"
| "scan_user (Inr _) = Inl ''sql: Scan error''"

definition select_user :: "'d sql_driver \<Rightarrow> int \<Rightarrow> 'd \<Rightarrow> string + User" where
  "select_user drv i db = scan_user (db_QueryRow drv ''SELECT id, name, age FROM users WHERE id = ?'' [SqlInt i] db)"

text \<open>The getter of the group.\<close>

definition user_getter :: "'d sql_driver \<Rightarrow> (string \<Rightarrow> string) \<Rightarrow> 'd \<Rightarrow> key \<Rightarrow> getter_outcome" where
  "user_getter drv quote db k =
     (let (i, err) = Atoi k in
      if err then GetterReturn [] (Some (''invalid user id: '' @ k))
      else
        (case select_user drv i db of
           Inl _ \<Rightarrow> GetterReturn [] (Some (''user not found: '' @ Itoa i))
         | Inr u \<Rightarrow> GetterReturn (string_bytes (Marshal quote u)) None))"

text \<open>The group \<open>main\<close> makes: no peers, an expiration of ten minutes.\<close>

definition users_group :: Group where
  "users_group = make_group ''users'' (64 * 2 ^ 20) [WithExpiration (600 * 1000000000)]"

definition create_users :: string where
  "create_users =
     ''CREATE TABLE IF NOT EXISTS users ('' @ [CHR 0x0A] @
     [CHR 0x09, CHR 0x09] @ ''id   INTEGER PRIMARY KEY,'' @ [CHR 0x0A] @
     [CHR 0x09, CHR 0x09] @ ''name TEXT NOT NULL,'' @ [CHR 0x0A] @
     [CHR 0x09, CHR 0x09] @ ''age  INTEGER NOT NULL'' @ [CHR 0x0A] @
     [CHR 0x09] @ '')''"

text \<open>
  \<open>initUsersDB\<close>; \<open>begin_tx\<close> and \<open>commit\<close> are the driver's \<open>Begin\<close> and \<open>Commit\<close>, whose errors, like all
  others here, are ignored.
\<close>

definition seed_user :: "nat \<Rightarrow> sql_value list" where
  "seed_user i = [SqlInt (int i), SqlText (''User-'' @ dec i), SqlInt (20 + int i mod 30)]"

definition initUsersDB :: "'d sql_driver \<Rightarrow> ('d \<Rightarrow> 'd) \<Rightarrow> ('d \<Rightarrow> 'd) \<Rightarrow> 'd \<Rightarrow> 'd" where
  "initUsersDB drv begin_tx commit db =
     (let db = snd (db_Exec drv create_users [] db);
          found = scanned (scan_int (db_QueryRow drv ''SELECT COUNT(*) FROM users'' [] db))
      in if found > 0 then db
         else
           commit (fold (\<lambda>i db. snd (db_Exec drv ''INSERT INTO users (id, name, age) VALUES (?, ?, ?)'' (seed_user i) db))
             [1..<51] (begin_tx db)))"

subsection \<open>Handlers\<close>

record 'd Users =
  us_db :: 'd
  us_group :: Group

datatype user_response =
    UserError string nat
  | UserJson string
  | UserStats GroupStats

definition user_env :: "'d sql_driver \<Rightarrow> (string \<Rightarrow> string) \<Rightarrow> 'd Users \<Rightarrow> group_env \<Rightarrow> group_env" where
  "user_env drv quote s e = with_getter (user_getter drv quote (us_db s)) e"

definition handleGetUser ::
    "'d sql_driver \<Rightarrow> (string \<Rightarrow> string) \<Rightarrow> group_env \<Rightarrow> string \<Rightarrow> 'd Users \<Rightarrow> (user_response \<times> 'd Users) option" where
  "handleGetUser drv quote e idStr s =
     do { (r, g) \<leftarrow> group_do (user_env drv quote s e) (GGet idStr) (us_group s);
          let s = s\<lparr>us_group := g\<rparr>;
          (case r of
             GError err \<Rightarrow> Some (UserError (error_text err) 404, s)
           | GView val \<Rightarrow> Some (UserJson (ByteView_String val), s)
           | GDone _ \<Rightarrow> None) }"

definition handleUpdateUser ::
    "'d sql_driver \<Rightarrow> (string \<Rightarrow> string) \<Rightarrow> group_env \<Rightarrow> http_request \<Rightarrow> string \<Rightarrow> 'd Users
      \<Rightarrow> (user_response \<times> 'd Users) option" where
  "handleUpdateUser drv quote e r idStr s =
     (let name = hr_query r ''name''; ageStr = hr_query r ''age'' in
      if name = '''' \<or> ageStr = '''' then Some (UserError ''name and age required'' 400, s)
      else
        let (age, err) = Atoi ageStr in
        if err then Some (UserError ''invalid age'' 400, s)
        else
          let i = fst (Atoi idStr) in
          (case db_Exec drv ''UPDATE users SET name = ?, age = ? WHERE id = ?'' [SqlText name, SqlInt age, SqlInt i] (us_db s) of
             (Some err, db) \<Rightarrow> Some (UserError err 500, s\<lparr>us_db := db\<rparr>)
           | (None, db) \<Rightarrow>
               let data = Marshal quote \<lparr>u_ID = i, u_Name = name, u_Age = age\<rparr> in
               do { (_, g) \<leftarrow> group_do e (GSet idStr (string_bytes data) False) (us_group s);
                    Some (UserJson data, s\<lparr>us_db := db, us_group := g\<rparr>) }))"

text \<open>The handlers of \<open>/user/\<close> and of \<open>/stats\<close>; the mux sends only paths with that prefix here.\<close>

definition handle_user ::
    "'d sql_driver \<Rightarrow> (string \<Rightarrow> string) \<Rightarrow> group_env \<Rightarrow> http_request \<Rightarrow> 'd Users \<Rightarrow> (user_response \<times> 'd Users) option" where
  "handle_user drv quote e r s =
     (let p = ''/user/'';
          idStr = (if take (length p) (hr_Path r) = p then drop (length p) (hr_Path r) else hr_Path r)
      in if idStr = '''' then Some (UserError ''missing user id'' 400, s)
         else if hr_Method r = ''GET'' then handleGetUser drv quote e idStr s
         else if hr_Method r = ''PUT'' then handleUpdateUser drv quote e r idStr s
         else Some (UserError ''method not allowed'' 405, s))"

definition handle_user_stats :: "'d Users \<Rightarrow> (user_response \<times> 'd Users) option" where
  "handle_user_stats s = map_option (\<lambda>stats. (UserStats stats, s)) (group_Stats (us_group s))"

end
