(* ===== verification/User_Service_Props.thy ===== *)
theory User_Service_Props
  imports User_Service Cache_Group_Recent Short_Link_Props
begin

text \<open>
  The user service of \<open>examples/single\<close>: what a read answers after an update, with and without a
  row in the table, and under two spellings of one number.
\<close>

subsection \<open>Numbers\<close>

lemma dec_not_empty: "dec n \<noteq> []"
  by (subst dec.simps) simp

lemma dec_digits: "list_all is_digit (dec n)"
proof (induction n rule: dec.induct)
  case (1 n)
  have d: "is_digit (char_of (48 + m))" if "m < 10" for m :: nat
    using that by (simp add: is_digit_def of_char_of)
  show ?case using 1 d by (subst dec.simps) auto
qed

lemma digit_not_sign: "is_digit c \<Longrightarrow> c \<noteq> CHR ''-'' \<and> c \<noteq> CHR ''+''"
  by (auto simp: is_digit_def)

text \<open>Reading a printed number gives the number back, within the range of \<open>int\<close>.\<close>

lemma Atoi_Itoa:
  assumes "- (2 ^ 63) \<le> n" and "n < 2 ^ 63"
  shows "Atoi (Itoa n) = (n, False)"
proof (cases "n < 0")
  case True
  then show ?thesis using assms dec_digits [of "nat (- n)"] dec_not_empty [of "nat (- n)"] undec_dec [of "nat (- n)"]
    by (simp add: Atoi_def Itoa_def Let_def del: undec.simps)
next
  case False
  obtain c cs where c: "dec (nat n) = c # cs" using dec_not_empty by (cases "dec (nat n)") auto
  then have "c \<noteq> CHR ''-'' \<and> c \<noteq> CHR ''+''" using dec_digits [of "nat n"] by (intro digit_not_sign) simp
  then show ?thesis using False assms dec_digits [of "nat n"] undec_dec [of "nat n"] c
    by (simp add: Atoi_def Itoa_def Let_def del: undec.simps)
qed

subsection \<open>Calls of the handlers\<close>

lemma user_env_simps [simp]: "ge_clk (user_env drv quote s e) = ge_clk e"
  by (simp add: user_env_def with_getter_def)

lemma user_env_quiet: "env_quiet e \<Longrightarrow> env_quiet (user_env drv quote s e)"
  by (auto simp: env_quiet_def user_env_def with_getter_def user_getter_def split: sum.splits prod.splits)

lemma Marshal_not_empty: "string_bytes (Marshal quote u) \<noteq> []"
  by (simp add: Marshal_def string_bytes_def)

text \<open>The user that an update writes and the row it changes.\<close>

definition updated_user :: "http_request \<Rightarrow> string \<Rightarrow> User" where
  "updated_user r idStr = \<lparr>u_ID = fst (Atoi idStr), u_Name = hr_query r ''name'', u_Age = fst (Atoi (hr_query r ''age''))\<rparr>"

lemma update_writes:
  assumes "handleUpdateUser drv quote e r idStr s = Some (UserJson data, s1)"
  obtains db x where "data = Marshal quote (updated_user r idStr)"
    "db_Exec drv ''UPDATE users SET name = ?, age = ? WHERE id = ?''
       [SqlText (hr_query r ''name''), SqlInt (fst (Atoi (hr_query r ''age''))), SqlInt (fst (Atoi idStr))] (us_db s) = (None, db)"
    "group_do e (GSet idStr (string_bytes data) False) (us_group s) = Some (x, us_group s1)" "us_db s1 = db"
  using assms unfolding handleUpdateUser_def Let_def updated_user_def
  by (cases "Atoi (hr_query r ''age'')") (auto split: if_splits prod.splits option.splits Option.bind_splits)

lemma get_answers:
  assumes "group_do (user_env drv quote s e) (GGet idStr) (us_group s) = Some (GView (ByteView (string_bytes data)), g)"
  shows "\<exists>s'. handleGetUser drv quote e idStr s = Some (UserJson data, s')"
  using assms by (simp add: handleGetUser_def Let_def)

text \<open>
  An update is visible: after a \<open>PUT\<close> that answers 200, a \<open>GET\<close> of the same path answers the
  same JSON, until the ten minutes of the group's expiration have passed.  Nothing is asked of the
  table: an update of a user that does not exist changes no row, succeeds, and the user it made up
  is served from the cache.
\<close>

theorem user_update_visible:
  assumes "serving (us_group s)" and "idStr \<noteq> []" and "handleUpdateUser drv quote e r idStr s = Some (UserJson data, s1)"
    and "in_time e (us_group s)" and "0 < group_deadline e (us_group s)" and "fst (ge_clk e') < group_deadline e (us_group s)"
    and "env_quiet e'"
  shows "data = Marshal quote (updated_user r idStr) \<and> (\<exists>s2. handleGetUser drv quote e' idStr s1 = Some (UserJson data, s2))"
proof -
  obtain db x where w: "data = Marshal quote (updated_user r idStr)"
      "group_do e (GSet idStr (string_bytes data) False) (us_group s) = Some (x, us_group s1)"
    using update_writes [OF assms(3)] by metis
  have "string_bytes data \<noteq> []" unfolding w(1) by (rule Marshal_not_empty)
  from group_write_read [OF assms(1,2) this assms(4,5) _ user_env_quiet [OF assms(7), of drv quote s1], of False] assms(6) w(2)
  obtain g2 where "group_do (user_env drv quote s1 e') (GGet idStr) (us_group s1) = Some (GView (ByteView (string_bytes data)), g2)"
    by auto
  with get_answers w(1) show ?thesis by blast
qed

text \<open>
  Two spellings of a number are two entries: after the user is updated under the path \<open>a\<close> and
  then under another spelling \<open>b\<close> of the same number, both updates have gone to the same row, but a
  \<open>GET\<close> of \<open>a\<close> still answers the first.
\<close>

theorem user_spelling_is_stale:
  assumes "serving (us_group s)" and "level1_room cap (g_mainCache (us_group s))" and "1 < cap"
    and "a \<noteq> []" and "b \<noteq> a" and "Atoi b = Atoi a"
    and "handleUpdateUser drv quote e r a s = Some (UserJson data1, s1)"
    and "env_quiet e2" and "handleUpdateUser drv quote e2 r2 b s1 = Some (UserJson data2, s2)"
    and "in_time e (us_group s)" and "0 < group_deadline e (us_group s)" and "fst (ge_clk e') < group_deadline e (us_group s)"
    and "env_quiet e'"
  shows "u_ID (updated_user r2 b) = u_ID (updated_user r a) \<and> (\<exists>s3. handleGetUser drv quote e' a s2 = Some (UserJson data1, s3))"
proof -
  obtain db x where w: "data1 = Marshal quote (updated_user r a)"
      "group_do e (GSet a (string_bytes data1) False) (us_group s) = Some (x, us_group s1)"
    using update_writes [OF assms(7)] by metis
  obtain db2 y where w2: "group_do e2 (GSet b (string_bytes data2) False) (us_group s1) = Some (y, us_group s2)"
    using update_writes [OF assms(9)] by metis
  have ne: "string_bytes data1 \<noteq> []" unfolding w(1) by (rule Marshal_not_empty)
  let ?xs = "[(e2, GSet b (string_bytes data2) False)]" let ?e = "user_env drv quote s2 e'"
  have xs: "\<forall>(e', x) \<in> set ?xs. env_quiet e' \<and> beside a x" "length ?xs < cap" using assms(3,5,8) by simp_all
  have clk: "fst (ge_clk ?e) < group_deadline e (us_group s)" using assms(12) by simp
  from group_retains [OF assms(1,2,4) ne assms(10,11) clk user_env_quiet [OF assms(13)] xs, of False] w(2) w2
  obtain g3 where "group_do ?e (GGet a) (us_group s2) = Some (GView (ByteView (string_bytes data1)), g3)" by auto
  with get_answers show ?thesis by (auto simp: updated_user_def assms(6))
qed

subsection \<open>Witnesses\<close>

text \<open>A driver without rows whose updates succeed.\<close>

definition empty_driver :: "unit sql_driver" where
  "empty_driver = \<lparr>db_Exec = (\<lambda>stmt args db. (None, db)), db_QueryRow = (\<lambda>stmt args db. Inl ''sql: no rows in result set'')\<rparr>"

definition no_users :: "unit Users" where
  "no_users = \<lparr>us_db = (), us_group = make_group ''users'' 1 []\<rparr>"

definition put_request :: "string \<Rightarrow> http_request" where
  "put_request name = \<lparr>hr_Method = ''PUT'', hr_Path = '''', hr_Host = '''',
     hr_query = (\<lambda>x. if x = ''name'' then name else ''30''), hr_form = (\<lambda>_. '''')\<rparr>"

lemma Atoi_30: "Atoi ''30'' = (30, False)"
  by (simp add: Atoi_def is_digit_def Let_def)

lemma put_answers:
  assumes "group_idle (us_group s)" and "name \<noteq> []"
  shows "\<exists>data s'. handleUpdateUser empty_driver quote idle_env (put_request name) idStr s = Some (UserJson data, s')"
proof -
  let ?data = "Marshal quote (updated_user (put_request name) idStr)"
  obtain x g where "group_do idle_env (GSet idStr (string_bytes ?data) False) (us_group s) = Some (x, g)"
    using group_do_ok [OF assms(1) idle_env_quiet] by blast
  then show ?thesis using assms(2)
    by (simp add: handleUpdateUser_def put_request_def Atoi_30 empty_driver_def updated_user_def Let_def)
qed

lemma no_users_serving: "serving (us_group no_users)" "in_time idle_env (us_group no_users)"
    "0 < group_deadline idle_env (us_group no_users)" "fst (ge_clk idle_env) < group_deadline idle_env (us_group no_users)"
  by (simp_all add: no_users_def serving_new new_deadline)

theorem user_update_visible_witness:
  "\<exists>data s1 s2. select_user empty_driver 7 (us_db no_users) = Inl ''sql: no rows in result set''
     \<and> handleUpdateUser empty_driver (\<lambda>s. s) idle_env (put_request ''n'') ''7'' no_users = Some (UserJson data, s1)
     \<and> handleGetUser empty_driver (\<lambda>s. s) idle_env ''7'' s1 = Some (UserJson data, s2)"
proof -
  have "group_idle (us_group no_users)" "''n'' \<noteq> []" "''7'' \<noteq> []" using no_users_serving(1) by (simp_all add: serving_def)
  from put_answers [OF this(1,2), of "\<lambda>s. s" "''7''"] obtain data s1 where
    put: "handleUpdateUser empty_driver (\<lambda>s. s) idle_env (put_request ''n'') ''7'' no_users = Some (UserJson data, s1)" by blast
  have "select_user empty_driver 7 (us_db no_users) = Inl ''sql: no rows in result set''"
    by (simp add: select_user_def empty_driver_def)
  with user_update_visible [OF no_users_serving(1) \<open>''7'' \<noteq> []\<close> put no_users_serving(2-4) idle_env_quiet] put show ?thesis
    by blast
qed

theorem user_spelling_is_stale_witness:
  "\<exists>data1 data2 s1 s2 s3. handleUpdateUser empty_driver (\<lambda>s. s) idle_env (put_request ''n'') ''7'' no_users = Some (UserJson data1, s1)
     \<and> handleUpdateUser empty_driver (\<lambda>s. s) idle_env (put_request ''m'') ''07'' s1 = Some (UserJson data2, s2)
     \<and> handleGetUser empty_driver (\<lambda>s. s) idle_env ''7'' s2 = Some (UserJson data1, s3)"
proof -
  have i: "group_idle (us_group no_users)" "''n'' \<noteq> []" "''m'' \<noteq> []" using no_users_serving(1) by (simp_all add: serving_def)
  obtain data1 s1 where
    1: "handleUpdateUser empty_driver (\<lambda>s. s) idle_env (put_request ''n'') ''7'' no_users = Some (UserJson data1, s1)"
    using put_answers [OF i(1,2), of "\<lambda>s. s" "''7''"] by blast
  have "group_idle (us_group s1)" using update_writes [OF 1] group_do_idle(1) [OF i(1) idle_env_quiet] by metis
  from put_answers [OF this i(3), of "\<lambda>s. s" "''07''"] obtain data2 s2 where
    2: "handleUpdateUser empty_driver (\<lambda>s. s) idle_env (put_request ''m'') ''07'' s1 = Some (UserJson data2, s2)" by blast
  have room: "level1_room 512 (g_mainCache (us_group no_users))" by (simp add: no_users_def level1_room_new)
  have a: "''7'' \<noteq> []" "''07'' \<noteq> ''7''" "Atoi ''07'' = Atoi ''7''" by (simp_all add: Atoi_def is_digit_def Let_def)
  from user_spelling_is_stale [OF no_users_serving(1) room _ a 1 idle_env_quiet 2 no_users_serving(2-4) idle_env_quiet] 1 2
  show ?thesis by auto
qed

end
