(* ===== verification/Node_Start.thy ===== *)
theory Node_Start
  imports Short_Link Registration Rpc Cache_Group_Recent
begin

text \<open>
  How the example programs start a node and what they run: \<open>examples/sample/main.go\<close> and the start
  of \<open>examples/shortlink/main.go\<close>.  The environment variables and the host name are arguments.
\<close>

subsection \<open>Settings\<close>

text \<open>The arguments a program passes to \<open>NewServer\<close> and \<open>NewClientPicker\<close>.\<close>

record 'o node_settings =
  ns_listen :: string
  ns_svcName :: string
  ns_advertise :: string
  ns_server :: "server_option list"
  ns_picker :: "'o picker_option list"

definition sample_settings :: "(string \<Rightarrow> string) \<Rightarrow> string \<Rightarrow> 'o node_settings" where
  "sample_settings env hostname =
     (let svcName = getEnv env ''SVC_NAME'' ''reach-cache'';
          etcdAddr = getEnv env ''ETCD_ADDR'' ''127.0.0.1:2379'';
          nodePort = getEnv env ''NODE_PORT'' ''8001'';
          statsPort = getEnv env ''STATS_PORT'' ''18001'';
          advertiseHost = getEnv env ''ADVERTISE_HOST'' '''';
          advertiseAddr = (if advertiseHost = '''' then hostname @ '':'' @ nodePort else advertiseHost @ '':'' @ nodePort)
      in \<lparr>ns_listen = '':'' @ nodePort, ns_svcName = svcName, ns_advertise = advertiseAddr,
          ns_server = [WithEtcdEndpoints [etcdAddr], WithDialTimeout (5 * second), WithStatsAddr ('':'' @ statsPort),
                       WithAdvertiseAddr advertiseAddr],
          ns_picker = [WithServiceName svcName, WithEtcdEndpointsForClientPicker [etcdAddr]]\<rparr>)"

text \<open>\<open>strings.Split(s, ",")\<close>.\<close>

fun split_comma :: "string \<Rightarrow> string list" where
  "split_comma [] = [[]]"
| "split_comma (c # s) =
     (if c = CHR '','' then [] # split_comma s
      else (case split_comma s of p # ps \<Rightarrow> (c # p) # ps | [] \<Rightarrow> [[c]]))"

text \<open>The flags of the link shortener that concern the node.\<close>

definition shortlink_settings :: "string \<Rightarrow> string \<Rightarrow> string \<Rightarrow> string \<Rightarrow> 'o node_settings option" where
  "shortlink_settings grpcAddr advAddr etcdEP svcName =
     do { advertiseAddr \<leftarrow> advertise_addr grpcAddr advAddr;
          let eps = split_comma etcdEP;
          Some \<lparr>ns_listen = grpcAddr, ns_svcName = svcName, ns_advertise = advertiseAddr,
                ns_server = [WithEtcdEndpoints eps, WithDialTimeout (5 * second), WithAdvertiseAddr advertiseAddr],
                ns_picker = [WithServiceName svcName, WithEtcdEndpointsForClientPicker eps]\<rparr> }"

definition shortlink_baseURL :: "string \<Rightarrow> string" where
  "shortlink_baseURL httpAddr = ''http://localhost'' @ httpAddr"

subsection \<open>The demonstration of \<open>sample\<close>\<close>

definition sample_group :: Group where
  "sample_group = make_group ''demo'' (8 * 2 ^ 20) [WithPeers True, WithExpiration (180 * 1000000000)]"

text \<open>The Chinese words of the source, in UTF-8: data from the source, node, own data.\<close>

definition source_data :: bytes where
  "source_data = [0xE5, 0x9B, 0x9E, 0xE6, 0xBA, 0x90, 0xE6, 0x95, 0xB0, 0xE6, 0x8D, 0xAE]"

definition sample_getter :: "string \<Rightarrow> key \<Rightarrow> getter_outcome" where
  "sample_getter nodeID k =
     GetterReturn (string_bytes (''['' @ nodeID @ ''] '') @ source_data @ string_bytes ('' for '' @ k)) None"

definition own_key :: "string \<Rightarrow> key" where
  "own_key nodeID = ''key_'' @ nodeID"

definition own_value :: "string \<Rightarrow> bytes" where
  "own_value nodeID = [0xE8, 0x8A, 0x82, 0xE7, 0x82, 0xB9] @ string_bytes nodeID @ string_bytes '' ''
     @ [0xE4, 0xB8, 0x93, 0xE5, 0xB1, 0x9E, 0xE6, 0x95, 0xB0, 0xE6, 0x8D, 0xAE]"

definition all_keys :: "key list" where
  "all_keys = [''key_A'', ''key_B'', ''key_C'']"

text \<open>\<open>strings.Contains\<close>.\<close>

fun Contains :: "'a list \<Rightarrow> 'a list \<Rightarrow> bool" where
  "Contains s p \<longleftrightarrow> take (length p) s = p \<or> (case s of [] \<Rightarrow> False | c # cs \<Rightarrow> Contains cs p)"

text \<open>The three tags that the first round prints.\<close>

datatype demo_tag = LocalHit | SourceLoad | PeerFetch

definition answer_tag :: "string \<Rightarrow> key \<Rightarrow> bytes \<Rightarrow> demo_tag" where
  "answer_tag nodeID k val =
     (if k = own_key nodeID \<and> Contains val source_data then SourceLoad
      else if k \<noteq> own_key nodeID then PeerFetch
      else LocalHit)"

text \<open>One round over the keys, each \<open>Get\<close> in its environment.\<close>

definition demo_round :: "string \<Rightarrow> group_env list \<Rightarrow> (group_env \<times> group_call) list" where
  "demo_round nodeID es = zip (map (with_getter (sample_getter nodeID)) es) (map GGet all_keys)"

text \<open>
  The phases: the node's own key is set, the program sleeps (the node serves \<open>others\<close> meanwhile),
  and reads all keys twice.
\<close>

definition sample_demo ::
    "string \<Rightarrow> group_env \<Rightarrow> (group_env \<times> group_call) list \<Rightarrow> group_env list \<Rightarrow> group_env list \<Rightarrow> Group
      \<Rightarrow> (group_result \<times> group_result list \<times> group_result list \<times> GroupStats) option" where
  "sample_demo nodeID e others es1 es2 g =
     do { (r, g) \<leftarrow> group_do e (GSet (own_key nodeID) (own_value nodeID) False) g;
          (_, g) \<leftarrow> run_group_calls others g;
          (rs1, g) \<leftarrow> run_group_calls (demo_round nodeID es1) g;
          (rs2, g) \<leftarrow> run_group_calls (demo_round nodeID es2) g;
          stats \<leftarrow> group_Stats g;
          Some (r, rs1, rs2, stats) }"

end
