(* ===== verification/Node_Start_Props.thy ===== *)
theory Node_Start_Props
  imports Node_Start
begin

text \<open>The start of the example nodes and the demonstration: what their comments promise.\<close>

subsection \<open>The advertised address\<close>

lemma advertise_default: "advertise_addr grpcAddr '''' = Some grpcAddr"
  by (simp add: advertise_addr_def rd_def)

lemma fetch_self: "fetchAllServices dial (Some (replicate n (p_selfAddr p))) p = Ok (True, p)"
proof -
  have "set_all dial (replicate n (p_selfAddr p)) p = Ok p" by (induction n) simp_all
  then show ?thesis by (simp add: fetchAllServices_def)
qed

text \<open>
  Nodes of the link shortener that are started without \<open>-advertise\<close> never meet: each one
  registers its listen address as it is, without the local IP the flag's description promises, so
  that nodes on different hosts with the same port register the same key and value, and each
  picker takes them for its own node and keeps an empty ring.
\<close>

theorem default_nodes_never_meet:
  assumes "p_selfAddr p = grpcAddr"
  shows "\<exists>s :: 'o node_settings. shortlink_settings grpcAddr '''' etcdEP svcName = Some s \<and> ns_advertise s = grpcAddr
    \<and> (\<forall>eps t e key addr dial. grpcAddr \<noteq> [] \<longrightarrow>
         EtcdPut key addr \<in> set (snd (Register svcName (ns_listen s) (ns_advertise s) eps t e)) \<longrightarrow>
         key = register_key svcName grpcAddr \<and> handle_event dial (EventPut key addr) p = Ok p)
    \<and> (\<forall>n dial. fetchAllServices dial (Some (replicate n (ns_advertise s))) p = Ok (True, p))"
proof -
  have put: "key = register_key svcName grpcAddr \<and> addr = grpcAddr"
    if "grpcAddr \<noteq> []" "EtcdPut key addr \<in> set (snd (Register svcName grpcAddr grpcAddr eps t e))" for eps t e key addr
    using that by (auto simp: Register_def registered_addr_def Let_def split: if_splits)
  have "fetchAllServices dial (Some (replicate n grpcAddr)) p = Ok (True, p)" for n dial
    using fetch_self [of dial n p] assms by simp
  with put assms show ?thesis by (auto simp: shortlink_settings_def advertise_default Let_def)
qed

theorem default_nodes_never_meet_witness:
  "fetchAllServices (\<lambda>_ _. True) (Some ['':50051'', '':50051'']) (new_picker '':50051'' ''svc'' DefaultConfig)
     = Ok (True, new_picker '':50051'' ''svc'' DefaultConfig)"
proof -
  let ?p = "new_picker '':50051'' ''svc'' DefaultConfig"
  have "p_selfAddr ?p = '':50051''" by (simp add: new_picker_def)
  from default_nodes_never_meet [OF this, of "''e''" "''svc''"] obtain s :: "unit node_settings" where
    "ns_advertise s = '':50051''" "\<forall>n dial. fetchAllServices dial (Some (replicate n (ns_advertise s))) ?p = Ok (True, ?p)"
    by blast
  then have "fetchAllServices (\<lambda>_ _. True) (Some (replicate 2 '':50051'')) ?p = Ok (True, ?p)" by metis
  then show ?thesis by (simp only: numeral_2_eq_2 replicate.simps)
qed

subsection \<open>The demonstration\<close>

lemma run_group_calls_append:
  "run_group_calls (xs @ ys) g =
     do { (rs, g) \<leftarrow> run_group_calls xs g; (rs', g) \<leftarrow> run_group_calls ys g; Some (rs @ rs', g) }"
proof (induction xs arbitrary: g)
  case Nil
  then show ?case by (cases "run_group_calls ys g") auto
next
  case (Cons ex xs)
  obtain e x where ex: "ex = (e, x)" by fastforce
  show ?case
  proof (cases "group_do e x g")
    case (Some z)
    then show ?thesis using Cons.IH [of "snd z"] ex
      by (cases z; cases "run_group_calls xs (snd z)"; cases "run_group_calls ys (snd (the (run_group_calls xs (snd z))))") auto
  qed (simp add: ex)
qed

lemma run_group_calls_length: "run_group_calls xs g = Some (rs, g') \<Longrightarrow> length rs = length xs"
  by (induction xs arbitrary: g rs) (auto split: Option.bind_splits)

text \<open>A read in the middle of a run of calls that are not about its key.\<close>

lemma retained_in_run:
  assumes "serving g" and "level1_room cap (g_mainCache g)" and "k \<noteq> []" and "v \<noteq> []" and "in_time e g"
    and "0 < group_deadline e g" and "fst (ge_clk e') < group_deadline e g" and "env_quiet e'"
    and "\<forall>(e', x) \<in> set xs. env_quiet e' \<and> beside k x" and "length xs < cap"
    and "env_quiet e" and "\<forall>(e', x) \<in> set ys. env_quiet e'"
  shows "\<exists>g1 rs g2. group_do e (GSet k v p) g = Some (GDone (started p g (SyncSet k v)), g1)
    \<and> run_group_calls (xs @ (e', GGet k) # ys) g1 = Some (rs, g2) \<and> group_idle g2
    \<and> rs ! length xs = GView (ByteView v)"
proof -
  obtain g1 rs1 g2 g3 where run: "group_do e (GSet k v p) g = Some (GDone (started p g (SyncSet k v)), g1)"
      "run_group_calls xs g1 = Some (rs1, g2)" "group_do e' (GGet k) g2 = Some (GView (ByteView v), g3)"
    using group_retains [OF assms(1-10)] by blast
  have "group_idle g" using assms(1) by (simp add: serving_def)
  from group_do_idle(1) [OF this assms(11) run(1)] have "group_idle g1" .
  moreover have "\<forall>(e', x) \<in> set xs. env_quiet e'" using assms(9) by blast
  ultimately have "group_idle g2" using run_group_calls_ok [of g1 xs] run(2) by (auto simp: group_kept_def)
  from group_do_idle(1) [OF this assms(8) run(3)] obtain rs3 g4 where
    "run_group_calls ys g3 = Some (rs3, g4)" "group_idle g4"
    using run_group_calls_ok [OF _ assms(12), of g3] by (auto simp: group_kept_def)
  with run show ?thesis using run_group_calls_length [OF run(2)]
    by (simp add: run_group_calls_append nth_append)
qed

lemma own_value_bytes: "own_value nodeID \<noteq> []" "nodeID \<in> {''A'', ''B'', ''C''} \<Longrightarrow> \<not> Contains (own_value nodeID) source_data"
  by (auto simp: own_value_def source_data_def string_bytes_def)

lemma own_key_index:
  assumes "nodeID \<in> {''A'', ''B'', ''C''}"
  shows "\<exists>i < 3. all_keys ! i = own_key nodeID \<and> (\<forall>j < i. all_keys ! j \<noteq> own_key nodeID)"
proof -
  consider "nodeID = ''A''" | "nodeID = ''B''" | "nodeID = ''C''" using assms by blast
  then show ?thesis
  proof cases
    case 1
    then show ?thesis by (intro exI [of _ 0]) (simp add: all_keys_def own_key_def)
  next
    case 2
    then show ?thesis by (intro exI [of _ 1]) (simp add: all_keys_def own_key_def)
  next
    case 3
    then show ?thesis by (intro exI [of _ 2]) (simp add: all_keys_def own_key_def less_2_cases_iff all_conj_distrib)
  qed
qed

lemma demo_round_nth:
  assumes "length es = 3"
  shows "length (demo_round nodeID es) = 3"
    and "i < 3 \<Longrightarrow> demo_round nodeID es ! i = (with_getter (sample_getter nodeID) (es ! i), GGet (all_keys ! i))"
proof -
  have "length all_keys = 3" by (simp add: all_keys_def)
  with assms show "length (demo_round nodeID es) = 3"
      "i < 3 \<Longrightarrow> demo_round nodeID es ! i = (with_getter (sample_getter nodeID) (es ! i), GGet (all_keys ! i))"
    by (simp_all add: demo_round_def)
qed

lemma sample_env: "env_quiet e \<Longrightarrow> env_quiet (with_getter (sample_getter nodeID) e)"
    "ge_clk (with_getter (sample_getter nodeID) e) = ge_clk e"
  by (auto simp: env_quiet_def with_getter_def sample_getter_def)

lemma round_quiet: "\<forall>e \<in> set es. env_quiet e \<Longrightarrow> \<forall>(e', x) \<in> set (demo_round nodeID es). env_quiet e'"
  by (auto simp: demo_round_def sample_env(1) dest!: set_zip_leftD)

lemma sample_serving: "serving sample_group" "level1_room 512 (g_mainCache sample_group)"
proof -
  let ?o = "store_options (DefaultCacheOptions\<lparr>co_MaxBytes := 8 * 2 ^ 20\<rparr>)"
  have o: "lru2_options_ok ?o" "unat (CapPerBucket (lru2_options ?o)) = 512"
    by (simp_all add: DefaultCacheOptions_def store_options_def lru2_options_ok_def lru2_options_def Let_def)
  obtain bs where "lru2_rep 512 (unat (Level2Cap (lru2_options ?o))) (newLRU2Cache ?o) bs"
    using new_rep [OF o(1)] unfolding o(2) by blast
  moreover have "c_store (initialize (g_mainCache sample_group)) = Some (StLru2 (newLRU2Cache ?o))"
    by (simp add: sample_group_def make_group_def NewCache_def initialize_def DefaultCacheOptions_def NewStore_def)
  ultimately show "level1_room 512 (g_mainCache sample_group)" unfolding level1_room_def by blast
  have "fresh_group ''demo'' sample_group"
    unfolding sample_group_def by (rule fresh_make_group) (simp add: group_options_ok_def)
  from fresh_idle [OF this] show "serving sample_group"
    by (simp add: serving_def) (simp add: sample_group_def make_group_def NewCache_def lru2_cache_def DefaultCacheOptions_def)
qed

lemma group_Stats_total: "group_idle g \<Longrightarrow> \<exists>stats. group_Stats g = Some stats"
proof -
  assume "group_idle g"
  then have "cache_inv (g_mainCache g)" by (simp add: group_idle_def)
  from cache_total [OF this, of CLen] obtain r c where "cache_call CLen (g_mainCache g) = Some (r, c)" by metis
  then show ?thesis by (simp add: group_Stats_def Cache_Stats_def Let_def)
qed

text \<open>
  The demonstration shows a local hit: on each of the nodes A, B and C, whatever other nodes
  write to and read from the node for other keys while it sleeps (up to 500 calls), the program
  runs to its end and its first round answers the node's own key with the value the node wrote, and
  tags it as a local hit, within the three minutes of the expiration.
\<close>

theorem sample_own_key_local:
  assumes "nodeID \<in> {''A'', ''B'', ''C''}" and "length es1 = 3" and "length es2 = 3"
    and "\<forall>e' \<in> set (e # es1 @ es2). env_quiet e'"
    and "\<forall>(e', x) \<in> set others. env_quiet e' \<and> beside (own_key nodeID) x" and "length others \<le> 500"
    and "in_time e sample_group" and "0 < group_deadline e sample_group"
    and "\<forall>e' \<in> set es1. fst (ge_clk e') < group_deadline e sample_group"
  shows "\<exists>r rs1 rs2 stats i. sample_demo nodeID e others es1 es2 sample_group = Some (r, rs1, rs2, stats)
    \<and> i < 3 \<and> all_keys ! i = own_key nodeID \<and> rs1 ! i = GView (ByteView (own_value nodeID))
    \<and> answer_tag nodeID (all_keys ! i) (own_value nodeID) = LocalHit"
proof -
  let ?w = "with_getter (sample_getter nodeID)" let ?k = "own_key nodeID"
  obtain i where i: "i < 3" "all_keys ! i = ?k" "\<forall>j < i. all_keys ! j \<noteq> ?k"
    using own_key_index [OF assms(1)] by blast
  let ?d = "demo_round nodeID es1"
  let ?xs = "others @ take i ?d" and ?e' = "?w (es1 ! i)" and ?ys = "drop (Suc i) ?d @ demo_round nodeID es2"
  have quiet: "env_quiet e" "env_quiet ?e'" using assms(2,4) i(1) by (auto intro: sample_env(1))
  have d: "\<forall>(e', x) \<in> set ?d. env_quiet e'" "\<forall>(e', x) \<in> set (demo_round nodeID es2). env_quiet e'"
    by (rule round_quiet, use assms(4) in simp)+
  then have ys: "\<forall>(e', x) \<in> set ?ys. env_quiet e'" using set_drop_subset [of "Suc i" ?d] by auto
  have "beside ?k (snd z)" if z: "z \<in> set (take i ?d)" for z
  proof -
    obtain j where "j < i" "z = ?d ! j" using z by (auto simp: in_set_conv_nth)
    then show ?thesis using demo_round_nth(2) [where nodeID = nodeID, OF assms(2)] i(1,3) by simp
  qed
  then have xs: "\<forall>(e', x) \<in> set ?xs. env_quiet e' \<and> beside ?k x"
    using assms(5) d(1) set_take_subset [of i ?d] by (auto simp: split_beta)
  have "?d = take i ?d @ (?e', GGet ?k) # drop (Suc i) ?d"
    using id_take_nth_drop [of i ?d] demo_round_nth [where nodeID = nodeID, OF assms(2)] i by metis
  then have split: "others @ ?d @ demo_round nodeID es2 = ?xs @ (?e', GGet ?k) # ?ys" by simp
  have len: "length ?xs < 512" "length ?xs = length others + i"
    using assms(6) demo_round_nth(1) [where nodeID = nodeID, OF assms(2)] i(1) by simp_all
  have clk: "fst (ge_clk ?e') < group_deadline e sample_group" using assms(2,9) i(1) by (simp add: sample_env(2))
  have ne: "?k \<noteq> []" by (simp add: own_key_def)
  obtain r g1 rs g2 where run: "group_do e (GSet ?k (own_value nodeID) False) sample_group = Some (r, g1)"
      "run_group_calls (others @ ?d @ demo_round nodeID es2) g1 = Some (rs, g2)"
      "rs ! (length others + i) = GView (ByteView (own_value nodeID))" "group_idle g2"
    using retained_in_run [OF sample_serving ne own_value_bytes(1) assms(7,8) clk quiet(2) xs len(1) quiet(1) ys]
    unfolding split len(2) by blast
  then obtain rs0 ga rs1 gb rs2 where parts: "run_group_calls others g1 = Some (rs0, ga)"
      "run_group_calls ?d ga = Some (rs1, gb)" "run_group_calls (demo_round nodeID es2) gb = Some (rs2, g2)" "rs = rs0 @ rs1 @ rs2"
    by (auto simp: run_group_calls_append split: Option.bind_splits)
  have "rs1 ! i = GView (ByteView (own_value nodeID))"
    using run(3) i(1) run_group_calls_length [OF parts(1)] run_group_calls_length [OF parts(2)] demo_round_nth(1) [where nodeID = nodeID, OF assms(2)]
    by (simp add: parts(4) nth_append)
  moreover from group_Stats_total [OF run(4)] obtain stats where "group_Stats g2 = Some stats" by blast
  ultimately show ?thesis
    using run(1) parts i own_value_bytes(2) [OF assms(1)]
    by (intro exI [of _ r] exI [of _ rs1] exI [of _ rs2] exI [of _ stats] exI [of _ i])
      (simp add: sample_demo_def answer_tag_def del: Contains.simps)
qed

theorem sample_own_key_local_witness:
  "\<exists>r rs1 rs2 stats. sample_demo ''B'' idle_env [(idle_env, GSet ''key_A'' [1] True)] (replicate 3 idle_env)
       (replicate 3 idle_env) sample_group = Some (r, rs1, rs2, stats)
     \<and> rs1 ! 1 = GView (ByteView (own_value ''B''))"
proof -
  have t: "in_time idle_env sample_group" "group_deadline idle_env sample_group = 180 * 1000000000" "fst (ge_clk idle_env) = 0"
    by (simp_all add: in_time_def group_deadline_def sample_group_def make_group_def expire_at_def idle_env_def max_int64_def)
  have q: "\<forall>e' \<in> set (idle_env # replicate 3 idle_env @ replicate 3 idle_env). env_quiet e'" using idle_env_quiet by simp
  have o: "\<forall>(e', x) \<in> set [(idle_env, GSet ''key_A'' [1] True)]. env_quiet e' \<and> beside (own_key ''B'') x"
    using idle_env_quiet by (simp add: own_key_def)
  from sample_own_key_local [OF _ _ _ q o _ t(1)] t(2,3) obtain r rs1 rs2 stats i where
    d: "sample_demo ''B'' idle_env [(idle_env, GSet ''key_A'' [1] True)] (replicate 3 idle_env)
       (replicate 3 idle_env) sample_group = Some (r, rs1, rs2, stats)"
      "i < 3" "all_keys ! i = own_key ''B''" "rs1 ! i = GView (ByteView (own_value ''B''))" by auto
  have "i = 0 \<or> i = 1 \<or> i = 2" using d(2) by linarith
  then have "i = 1" using d(3) by (auto simp: all_keys_def own_key_def)
  with d show ?thesis by blast
qed

end
