(* ===== verification/Cluster_Writes.thy ===== *)
theory Cluster_Writes
  imports Cluster_Props Cache_Group_Recent Rpc_Props
begin

text \<open>
  Writes across nodes: a \<open>Set\<close> on one node (\<open>group.go\<close>) and its \<open>syncToPeers\<close> to the node that
  owns the key, through \<open>client.go\<close> and \<open>server.go\<close>: what a reader on the other nodes finds, and
  what two writes can leave behind when their synchronisations cross.
\<close>

subsection \<open>Whole calls as steps of the cluster\<close>

text \<open>A thread number that is not in use, and that no request of another node refers to.\<close>

definition free_thread :: "Cluster \<Rightarrow> nat \<Rightarrow> nat \<Rightarrow> bool" where
  "free_thread s n i \<longleftrightarrow> cl_threads s n i = None \<and> (\<forall>n' i'. cl_request s n' i' \<noteq> Some (n, i))"

lemma set_thread_again [simp]: "set_thread n i t (set_thread n i t' s) = set_thread n i t s"
  by (simp add: set_thread_def)

lemma set_group_again [simp]: "set_group n g (set_group n g' s) = set_group n g s"
  by (simp add: set_group_def)

lemma set_group_thread: "set_thread n i t (set_group m g s) = set_group m g (set_thread n i t s)"
  by (simp add: set_thread_def set_group_def)

lemma set_group_same [simp]: "cl_group s n = g \<Longrightarrow> set_group n g s = s"
  by (auto simp: set_group_def)

lemma set_thread_same [simp]: "cl_threads s n i = t \<Longrightarrow> set_thread n i t s = s"
  by (auto simp: set_thread_def)

definition acts :: "cluster_pick \<Rightarrow> (nat \<Rightarrow> (key \<Rightarrow> getter_outcome) \<Rightarrow> bool) \<Rightarrow> nat \<Rightarrow> group_env \<Rightarrow> bool" where
  "acts pick sources n e \<longleftrightarrow> env_at pick n e \<and> sources n (le_getter (ge_load e))"

lemma asks_none: "\<forall>k. x \<noteq> GGet k \<Longrightarrow> asks_node pick n g x pc = None"
  by (cases x) auto

lemma sections_steps:
  assumes "\<forall>k. x \<noteq> GGet k" and "acts pick sources n e"
    and "group_run m e x pc (cl_group s n) = Some (r, g')" and "cl_threads s n i = Some (x, pc)"
  shows "(cluster_step pick wire calls sources late)\<^sup>*\<^sup>* s (set_group n g' (set_thread n i (Some (x, GReturn r)) s))"
  using assms(3,4)
proof (induction m arbitrary: pc s)
  case (Suc m)
  show ?case
  proof (cases "\<exists>r. pc = GReturn r")
    case True
    then show ?thesis using Suc.prems by auto
  next
    case False
    then obtain pc' g1 where 1: "group_section e x pc (cl_group s n) = Some (pc', g1)" "group_run m e x pc' g1 = Some (r, g')"
      using Suc.prems(1) by (auto split: group_pc.splits Option.bind_splits)
    let ?s = "set_group n g1 (set_thread n i (Some (x, pc')) s)"
    have "cluster_step pick wire calls sources late s ?s" 
      by (rule cl_local [OF Suc.prems(2) asks_none [OF assms(1)] _ _ 1(1)]) (use assms(2) in \<open>simp_all add: acts_def\<close>)
    moreover have "(cluster_step pick wire calls sources late)\<^sup>*\<^sup>* ?s (set_group n g' (set_thread n i (Some (x, GReturn r)) ?s))"
      by (rule Suc.IH [where pc = pc']) (use 1(2) in simp_all)
    ultimately show ?thesis by (simp add: set_group_thread)
  qed
qed simp

lemma call_to_end:
  assumes "\<forall>k. x \<noteq> GGet k" and "acts pick sources n e"
    and "group_do e x (cl_group s n) = Some (r, g')" and "cl_threads s n i = Some (x, GStart)"
    and "\<forall>n' i'. cl_request s n' i' \<noteq> Some (n, i)"
  shows "(cluster_step pick wire calls sources late)\<^sup>*\<^sup>* s
    (set_syncs n (cl_syncs s n @ left_behind (GReturn r)) (set_group n g' (set_thread n i None s)))"
proof -
  let ?s = "set_group n g' (set_thread n i (Some (x, GReturn r)) s)"
  have "(cluster_step pick wire calls sources late)\<^sup>*\<^sup>* s ?s"
    by (rule sections_steps [OF assms(1,2) assms(3) [unfolded group_do_def] assms(4)])
  moreover have "cluster_step pick wire calls sources late ?s
      (set_syncs n (cl_syncs ?s n @ left_behind (GReturn r)) (set_thread n i None ?s))"
    by (rule cl_end [where x = x]) (use assms(5) in simp_all)
  ultimately show ?thesis by (simp add: set_group_thread)
qed

lemma write_call:
  assumes "\<forall>k. x \<noteq> GGet k" and "acts pick sources n e"
    and "group_do e x (cl_group s n) = Some (r, g')" and "free_thread s n i" and "calls x"
  shows "(cluster_step pick wire calls sources late)\<^sup>*\<^sup>* s
    (set_syncs n (cl_syncs s n @ left_behind (GReturn r)) (set_group n g' s))"
proof -
  let ?s = "set_thread n i (Some (x, GStart)) s"
  have "cluster_step pick wire calls sources late s ?s"
    by (rule cl_begin) (use assms(4,5) in \<open>simp_all add: free_thread_def\<close>)
  moreover have "(cluster_step pick wire calls sources late)\<^sup>*\<^sup>* ?s
      (set_syncs n (cl_syncs ?s n @ left_behind (GReturn r)) (set_group n g' (set_thread n i None ?s)))"
    by (rule call_to_end [OF assms(1,2)]) (use assms(3,4) in \<open>simp_all add: free_thread_def\<close>)
  ultimately show ?thesis using assms(4) by (simp add: free_thread_def)
qed

lemma sync_call:
  assumes "y \<in> set (cl_syncs s n)" and "env_at pick n e" and "syncToPeers (ge_load e) (cl_group s n) y = Some [req]"
    and "served_write req = (m, x)" and "\<forall>k. x \<noteq> GGet k" and "acts pick sources m e'" and "group_do e' x (cl_group s m) = Some (r, g')"
    and "left_behind (GReturn r) = []" and "free_thread s m j" and "n \<noteq> m"
  shows "(cluster_step pick wire calls sources late)\<^sup>*\<^sup>* s (set_syncs n (remove1 y (cl_syncs s n)) (set_group m g' s))"
proof -
  let ?s = "set_syncs n (remove1 y (cl_syncs s n)) (set_thread m j (Some (x, GStart)) s)"
  have "cluster_step pick wire calls sources late s ?s"
    by (rule cl_sync [OF assms(1-4)]) (use assms(9) in \<open>simp add: free_thread_def\<close>)
  moreover have "(cluster_step pick wire calls sources late)\<^sup>*\<^sup>* ?s
      (set_syncs m (cl_syncs ?s m @ left_behind (GReturn r)) (set_group m g' (set_thread m j None ?s)))"
    by (rule call_to_end [OF assms(5,6)]) (use assms(7,9) in \<open>simp_all add: free_thread_def\<close>)
  moreover have "set_syncs m (cl_syncs ?s m @ left_behind (GReturn r)) (set_group m g' (set_thread m j None ?s))
      = set_syncs n (remove1 y (cl_syncs s n)) (set_group m g' s)"
    using assms(8-10)
    by (auto simp: set_syncs_def set_group_def set_thread_def free_thread_def fun_eq_iff intro!: Cluster.equality)
  ultimately show ?thesis by simp
qed

subsection \<open>A write on one node\<close>

lemma write_effect:
  assumes "serving g" and "k \<noteq> []" and "v \<noteq> []" and "in_time e g" and "0 < group_deadline e g"
  shows "\<exists>g'. group_do e (GSet k v p) g = Some (GDone (started p g (SyncSet k v)), g') \<and> serving g'
    \<and> g_peers g' = g_peers g \<and> g_name g' = g_name g \<and> g_expiration g' = g_expiration g
    \<and> (\<forall>e'. env_quiet e' \<longrightarrow> fst (ge_clk e') < group_deadline e g \<longrightarrow>
         (\<exists>g2. group_do e' (GGet k) g' = Some (GView (ByteView v), g2)))"
proof -
  have inv: "cache_inv (g_mainCache g)" using assms(1) by (simp add: serving_def group_idle_def)
  obtain r c where c: "cache_call (cache_write e g k (ByteView v)) (g_mainCache g) = Some (r, c)"
    using cache_total [OF inv] by metis
  have set: "group_do e (GSet k v p) g = Some (GDone (started p g (SyncSet k v)), g\<lparr>g_mainCache := c\<rparr>)"
    using group_do_set [of g e k v p] assms(1-3) c by (simp add: serving_def cache_then_def)
  have "\<exists>g2. group_do e' (GGet k) (g\<lparr>g_mainCache := c\<rparr>) = Some (GView (ByteView v), g2)"
    if "env_quiet e'" "fst (ge_clk e') < group_deadline e g" for e'
    using get_after_write [OF assms(1,4,5) that(2) c assms(2) that(1), of "g_stats g"] by simp
  moreover have "serving (g\<lparr>g_mainCache := c\<rparr>)" using serving_write [OF assms(1,4) c, of "g_stats g"] by simp
  ultimately show ?thesis using set by (intro exI [of _ "g\<lparr>g_mainCache := c\<rparr>"]) simp
qed

lemma same_time:
  "g_expiration g' = g_expiration g \<Longrightarrow> in_time e g' = in_time e g \<and> group_deadline e g' = group_deadline e g"
  by (simp add: in_time_def group_deadline_def)

text \<open>The request that node \<open>q\<close> gets for a set of the key.\<close>

lemma sync_to_found:
  "g_peers g \<Longrightarrow> le_pick e k = (Some q, True, False)
    \<Longrightarrow> syncToPeers e g (SyncSet k v) = Some [PeerSet q (g_name g) k v]"
  by (simp add: syncToPeers_def)

text \<open>
  C27. Two writes can cross: every \<open>Set\<close> starts a goroutine of its own to pass the value on, and
  nothing orders the two requests.  From any state of a cluster in which node \<open>a\<close> and the node
  \<open>b\<close> that owns the key accept calls, two sets of the key on \<open>a\<close>, first of \<open>u\<close> and then of \<open>v\<close>,
  can end with every synchronisation delivered and no call left, where \<open>a\<close> answers \<open>v\<close> and the
  owner answers \<open>u\<close>; nothing repairs it until the expiration.
\<close>

theorem writes_may_cross:
  assumes "a \<noteq> b" and "pick a k = (Some b, True, False)" and "acts pick sources a e" and "acts pick sources b e'"
    and "calls (GSet k u False)" and "calls (GSet k v False)" and "k \<noteq> []" and "u \<noteq> []" and "v \<noteq> []" and "u \<noteq> v"
    and "serving (cl_group s a)" and "g_peers (cl_group s a)" and "in_time e (cl_group s a)" and "0 < group_deadline e (cl_group s a)"
    and "serving (cl_group s b)" and "in_time e' (cl_group s b)" and "0 < group_deadline e' (cl_group s b)"
    and "free_thread s a i" and "free_thread s b j" and "cl_syncs s a = []"
  shows "\<exists>s'. (cluster_step pick wire calls sources late)\<^sup>*\<^sup>* s s'
    \<and> cl_threads s' = cl_threads s \<and> cl_request s' = cl_request s \<and> cl_syncs s' = cl_syncs s
    \<and> (\<forall>f. env_quiet f \<longrightarrow> fst (ge_clk f) < group_deadline e (cl_group s a) \<longrightarrow>
         (\<exists>g. group_do f (GGet k) (cl_group s' a) = Some (GView (ByteView v), g)))
    \<and> (\<forall>f. env_quiet f \<longrightarrow> fst (ge_clk f) < group_deadline e' (cl_group s b) \<longrightarrow>
         (\<exists>g. group_do f (GGet k) (cl_group s' b) = Some (GView (ByteView u), g)))"
proof -
  let ?step = "cluster_step pick wire calls sources late" and ?ga = "cl_group s a" and ?gb = "cl_group s b"
  obtain g1 where g1: "group_do e (GSet k u False) ?ga = Some (GDone (Some (SyncSet k u)), g1)" "serving g1"
      "g_peers g1" "g_expiration g1 = g_expiration ?ga"
    using write_effect [OF assms(11,7,8,13,14), of False] assms(12) by (auto simp: started_def)
  note t1 = same_time [OF g1(4), of e]
  obtain g2 where g2: "group_do e (GSet k v False) g1 = Some (GDone (Some (SyncSet k v)), g2)" "g_peers g2"
      "\<And>f. env_quiet f \<Longrightarrow> fst (ge_clk f) < group_deadline e ?ga \<Longrightarrow> \<exists>g. group_do f (GGet k) g2 = Some (GView (ByteView v), g)"
    using write_effect [OF g1(2) assms(7,9), of e False] t1 assms(13,14) g1(3) by (auto simp: started_def)
  obtain h1 where h1: "group_do e' (GSet k v True) ?gb = Some (GDone None, h1)" "serving h1" "g_expiration h1 = g_expiration ?gb"
    using write_effect [OF assms(15,7,9,16,17), of True] by (auto simp: started_def)
  note t2 = same_time [OF h1(3), of e']
  obtain h2 where h2: "group_do e' (GSet k u True) h1 = Some (GDone None, h2)"
      "\<And>f. env_quiet f \<Longrightarrow> fst (ge_clk f) < group_deadline e' ?gb \<Longrightarrow> \<exists>g. group_do f (GGet k) h2 = Some (GView (ByteView u), g)"
    using write_effect [OF h1(2) assms(7,8), of e' True] t2 assms(16,17) by (auto simp: started_def)
  let ?s1 = "set_syncs a [SyncSet k u] (set_group a g1 s)"
  let ?s2 = "set_syncs a [SyncSet k u, SyncSet k v] (set_group a g2 ?s1)"
  let ?s3 = "set_syncs a [SyncSet k u] (set_group b h1 ?s2)"
  let ?s4 = "set_syncs a [] (set_group b h2 ?s3)"
  have pick: "le_pick (ge_load e) k = (Some b, True, False)" using assms(2,3) by (simp add: acts_def env_at_def)
  have env: "env_at pick a e" using assms(3) by (simp add: acts_def)
  have 1: "?step\<^sup>*\<^sup>* s ?s1"
    using write_call [where x = "GSet k u False" and calls = calls and sources = sources, OF _ assms(3) g1(1) assms(18,5)]
      assms(20) by simp
  have 2: "?step\<^sup>*\<^sup>* ?s1 ?s2"
    using write_call [where x = "GSet k v False" and calls = calls and sources = sources and s = ?s1 and i = i
          and r = "GDone (Some (SyncSet k v))", OF _ assms(3)] g2(1) assms(6,18)
    by (simp add: free_thread_def)
  have 3: "?step\<^sup>*\<^sup>* ?s2 ?s3"
    using sync_call [where s = ?s2 and y = "SyncSet k v" and j = j and m = b and n = a and e = e and e' = e'
        and x = "GSet k v True" and r = "GDone None" and g' = h1 and pick = pick and sources = sources,
        OF _ env sync_to_found [OF _ pick] _ _ assms(4)] g2(2) h1(1) assms(1,10,19)
    by (simp add: free_thread_def)
  have 4: "?step\<^sup>*\<^sup>* ?s3 ?s4"
    using sync_call [where s = ?s3 and y = "SyncSet k u" and j = j and m = b and n = a and e = e and e' = e'
        and x = "GSet k u True" and r = "GDone None" and g' = h2 and pick = pick and sources = sources,
        OF _ env sync_to_found [OF _ pick] _ _ assms(4)] g2(2) h2(1) assms(1,19)
    by (simp add: free_thread_def)
  have "?step\<^sup>*\<^sup>* s ?s4"
    by (rule rtranclp_trans [of ?step, OF 1], rule rtranclp_trans [of ?step, OF 2], rule rtranclp_trans [of ?step, OF 3 4])
  then show ?thesis using g2(3) h2(2) assms(1,20) by (intro exI [of _ ?s4]) (auto simp: fun_eq_iff)
qed

subsection \<open>Readers of a write\<close>

text \<open>
  C21. A write reaches the owner and, through it, the other nodes: \<open>Set\<close> on a node that is not the
  owner returns without waiting and starts one synchronisation, whose one request carries the key
  and the value to the owner;  \<open>Server.Set\<close> of the owner answers success and passes nothing on;
  after any calls for other keys there, a peer that asks the owner gets exactly the value, and a
  \<open>Get\<close> on any node that has no copy of its own and whose picker finds the owner answers it.
\<close>

theorem set_reaches_owner:
  assumes "serving g" and "g_peers g" and "k \<noteq> []" and "v \<noteq> []" and "in_time e g" and "0 < group_deadline e g"
    and "le_pick (ge_load e1) k = (Some q, True, False)"
    and "GetGroup (g_name g) w = Some b" and "serving (w_heap w b)" and "level1_room cap (g_mainCache (w_heap w b))"
    and "in_time e2 (w_heap w b)" and "0 < group_deadline e2 (w_heap w b)"
    and "\<forall>(f, x) \<in> set xs. env_quiet f \<and> beside k x" and "length xs < cap"
    and "env_quiet e3" and "fst (ge_clk e3) < group_deadline e2 (w_heap w b)"
  shows "\<exists>g' w' rs h ans w''. group_do e (GSet k v False) g = Some (GDone (Some (SyncSet k v)), g')
    \<and> syncToPeers (ge_load e1) g' (SyncSet k v) = Some [PeerSet q (g_name g) k v]
    \<and> Server_Set e2 \<lparr>srq_Group = g_name g, srq_Key = k, srq_Value = v\<rparr> w
        = Some (((\<lparr>rs_Code = 0, rs_Msg = ''Set Success''\<rparr>, None), w'), None)
    \<and> run_group_calls xs (w_heap w' b) = Some (rs, h)
    \<and> Server_Get e3 \<lparr>grq_Group = g_name g, grq_Key = k\<rparr> (w'\<lparr>w_heap := (w_heap w')(b := h)\<rparr>) = Some (ans, w'')
    \<and> Client_Get (deliver wire ans) = Inr v
    \<and> (\<forall>f p c view. group_idle p \<longrightarrow> \<not> g_closed p \<longrightarrow> g_peers p \<longrightarrow> g_name p = g_name g \<longrightarrow> env_quiet f \<longrightarrow>
         le_pick (ge_load f) k = (Some q, True, False) \<longrightarrow> le_peer (ge_load f) q (g_name p) k = Client_Get (deliver wire ans) \<longrightarrow>
         cache_call (CGet (ge_clk f) k) (g_mainCache p) = Some (RGet view False, c) \<longrightarrow>
         (\<exists>p'. group_do f (GGet k) p = Some (GView (ByteView v), p')))"
proof -
  obtain g' where g': "group_do e (GSet k v False) g = Some (GDone (Some (SyncSet k v)), g')" "g_peers g'" "g_name g' = g_name g"
    using write_effect [OF assms(1,3-6), of False] assms(2) by (auto simp: started_def)
  from group_retains [OF assms(9,10,3,4,11,12,16,15,13,14), of True] obtain h1 rs h h2 where
    h: "group_do e2 (GSet k v True) (w_heap w b) = Some (GDone None, h1)" "run_group_calls xs h1 = Some (rs, h)"
      "group_do e3 (GGet k) h = Some (GView (ByteView v), h2)"
    by (auto simp: started_def)
  let ?w = "w\<lparr>w_heap := (w_heap w)(b := h1)\<rparr>"
  let ?v = "w\<lparr>w_heap := (w_heap w)(b := h)\<rparr>" and ?ans = "(\<lparr>grs_Code = 0, grs_Msg = ''Get Success'', grs_Value = v\<rparr>, None)"
  have set: "Server_Set e2 \<lparr>srq_Group = g_name g, srq_Key = k, srq_Value = v\<rparr> w
      = Some (((\<lparr>rs_Code = 0, rs_Msg = ''Set Success''\<rparr>, None), ?w), None)"
    using assms(8) h(1) by (simp add: Server_Set_def world_call_def)
  have "GetGroup (g_name g) ?v = Some b" using assms(8) by (simp add: GetGroup_def)
  then have get: "Server_Get e3 \<lparr>grq_Group = g_name g, grq_Key = k\<rparr> ?v = Some (?ans, ?v\<lparr>w_heap := (w_heap ?v)(b := h2)\<rparr>)"
    using h(3) by (simp add: Server_Get_def world_call_def)
  have ans: "Client_Get (deliver wire ?ans) = Inr v" by (simp add: deliver_def Client_Get_def)
  have read: "\<exists>p'. group_do f (GGet k) p = Some (GView (ByteView v), p')"
    if "group_idle p" "\<not> g_closed p" "g_peers p" "g_name p = g_name g" "env_quiet f"
      "le_pick (ge_load f) k = (Some q, True, False)" "le_peer (ge_load f) q (g_name p) k = Client_Get (deliver wire ?ans)"
      "cache_call (CGet (ge_clk f) k) (g_mainCache p) = Some (RGet view False, c)" for f p c view
    using miss_answer [OF that(1,5,2) assms(3) that(8)] that(3,6,7) ans by (auto simp: load_answer_def)
  have sync: "syncToPeers (ge_load e1) g' (SyncSet k v) = Some [PeerSet q (g_name g) k v]"
    using sync_to_found [OF g'(2) assms(7)] g'(3) by simp
  have run: "run_group_calls xs (w_heap ?w b) = Some (rs, h)" using h(2) by simp
  have get': "Server_Get e3 \<lparr>grq_Group = g_name g, grq_Key = k\<rparr> (?w\<lparr>w_heap := (w_heap ?w)(b := h)\<rparr>)
      = Some (?ans, ?v\<lparr>w_heap := (w_heap ?v)(b := h2)\<rparr>)" using get by simp
  show ?thesis
    by (intro exI conjI, rule g'(1), rule sync, rule set, rule run, rule get', rule ans) (use read in blast)
qed

subsection \<open>The slice that is passed on\<close>

text \<open>
  The slices of \<open>Set\<close>: the view that goes to the cache owns a copy, but the goroutine gets the
  caller's own slice.
\<close>

definition set_slices :: "memory \<Rightarrow> slice \<Rightarrow> (byteview_ref \<times> slice) \<times> memory" where
  "set_slices h value = (let (own, h) = cloneBytes h value in ((\<lparr>bv_slice = own\<rparr>, value), h))"

text \<open>
  A caller that writes to its slice after \<open>Set\<close> has returned does not change the value of this
  node, but the value that a goroutine which has not run yet sends to the owner.
\<close>

lemma sync_reads_callers_slice:
  assumes "slice_ok h src" and "set_slices h src = ((view, arg), h1)" and "slice_write h1 src i x = Some h2"
  shows "view_of h2 view = ByteView (slice_bytes h src) \<and> slice_bytes h2 arg = (slice_bytes h src)[i := x]"
proof -
  obtain own where own: "cloneBytes h src = (own, h1)" "view = \<lparr>bv_slice = own\<rparr>" "arg = src"
    using assms(2) by (cases "cloneBytes h src") (simp add: set_slices_def)
  note c = cloneBytes_bytes [OF assms(1) own(1)]
  have "sl_array own \<noteq> sl_array src" using assms(1) c(3) by (simp add: slice_ok_def)
  then have "slice_bytes h2 own = slice_bytes h src" using slice_write_other [OF assms(3)] c(1) by simp
  moreover have "slice_bytes h1 src = slice_bytes h src" by (rule c(4) [OF assms(1)])
  then have "slice_bytes h2 src = (slice_bytes h src)[i := x]"
    using assms(3) by (auto simp: slice_write_def slice_bytes_def drop_update_swap take_update_swap split: if_splits)
  ultimately show ?thesis by (simp add: own(2,3) view_of_def)
qed

subsection \<open>Witnesses\<close>

lemma serving_peers: "serving (make_group n b [WithPeers True])"
  using fresh_idle [OF fresh_make_group, of "[WithPeers True]" n b]
  by (simp add: serving_def group_options_ok_def make_group_def NewCache_def lru2_cache_def DefaultCacheOptions_def)

lemma peers_deadline: "in_time (idle_env\<lparr>ge_load := l\<rparr>) (make_group n b [WithPeers True])"
    "group_deadline (idle_env\<lparr>ge_load := l\<rparr>) (make_group n b [WithPeers True]) = max_int64"
  by (simp_all add: in_time_def group_deadline_def make_group_def expire_at_def idle_env_def max_int64_def)

definition each_other :: cluster_pick where
  "each_other n k = (Some (1 - n), True, False)"

definition node_env :: "nat \<Rightarrow> group_env" where
  "node_env n = idle_env\<lparr>ge_load := (ge_load idle_env)\<lparr>le_pick := each_other n\<rparr>\<rparr>"

lemma node_env_acts: "acts each_other (\<lambda>_ _. True) n (node_env n)"
  by (simp add: acts_def env_at_def env_quiet_def node_env_def each_other_def idle_env_def)

theorem writes_may_cross_witness:
  "\<exists>s' g h. (cluster_step each_other (\<lambda>s. s) (\<lambda>x. x \<noteq> GClose) (\<lambda>_ _. True) False)\<^sup>*\<^sup>*
       (cluster_init (\<lambda>_. make_group ''g'' 1 [WithPeers True])) s'
     \<and> cl_threads s' = (\<lambda>_ _. None) \<and> cl_syncs s' = (\<lambda>_. [])
     \<and> group_do idle_env (GGet ''k'') (cl_group s' 0) = Some (GView (ByteView [2]), g)
     \<and> group_do idle_env (GGet ''k'') (cl_group s' 1) = Some (GView (ByteView [1]), h)"
proof -
  let ?s = "cluster_init (\<lambda>_. make_group ''g'' 1 [WithPeers True])"
  have s: "serving (cl_group ?s n)" "g_peers (cl_group ?s n)" "in_time (node_env n) (cl_group ?s n)"
      "group_deadline (node_env n) (cl_group ?s n) = max_int64" "free_thread ?s n 0" "cl_syncs ?s n = []" for n
    by (simp_all add: cluster_init_def serving_peers peers_deadline node_env_def free_thread_def)
      (simp add: make_group_def)
  have pick: "each_other 0 ''k'' = (Some 1, True, False)" by (simp add: each_other_def)
  have "(0 :: nat) \<noteq> 1" "[1] \<noteq> ([2] :: bytes)" by simp_all
  from writes_may_cross [where calls = "\<lambda>x. x \<noteq> GClose" and late = False and wire = "\<lambda>s. s", OF this(1) pick node_env_acts node_env_acts _ _ _ _ _ this(2)
      s(1,2,3) _ s(1,3) _ s(5,5,6)] s(4) new_deadline(3,4) idle_env_quiet show ?thesis
    by (auto simp: cluster_init_def)
qed

theorem set_reaches_owner_witness:
  "\<exists>w g' w' ans w''. group_do idle_env (GSet ''k'' [7] False) (make_group ''g'' 1 [WithPeers True]) = Some (GDone (Some (SyncSet ''k'' [7])), g')
     \<and> Server_Set idle_env \<lparr>srq_Group = ''g'', srq_Key = ''k'', srq_Value = [7]\<rparr> w
         = Some (((\<lparr>rs_Code = 0, rs_Msg = ''Set Success''\<rparr>, None), w'), None)
     \<and> Server_Get idle_env \<lparr>grq_Group = ''g'', grq_Key = ''k''\<rparr> w' = Some (ans, w'')
     \<and> Client_Get (deliver (\<lambda>s. s) ans) = Inr [7]"
proof -
  let ?A = "make_group ''g'' 1 [WithPeers True]" and ?B = "make_group ''g'' 1 []"
  obtain w :: World where w: "w_groups w = mput ''g'' 0 []" "w_heap w 0 = ?B"
    by (rule that [of "\<lparr>w_groups = mput ''g'' 0 [], w_heap = \<lambda>_. ?B, w_next = 1\<rparr>"]) simp_all
  have A: "g_peers ?A" "g_name ?A = ''g''" by (simp_all add: make_group_def)
  have e: "in_time idle_env ?A" "0 < group_deadline idle_env ?A"
    using peers_deadline [of "ge_load idle_env"] by (simp_all add: max_int64_def)
  have pick: "le_pick (ge_load (node_env 0)) ''k'' = (Some 1, True, False)" by (simp add: node_env_def each_other_def)
  have B: "GetGroup (g_name ?A) w = Some 0" "serving (w_heap w 0)" "level1_room 512 (g_mainCache (w_heap w 0))"
      "in_time idle_env (w_heap w 0)" "group_deadline idle_env (w_heap w 0) = max_int64"
    using w A(2) serving_new level1_room_new new_deadline by (simp_all add: GetGroup_def)
  have run: "run_group_calls [] g = Some ([], g)" for g by simp
  have "''k'' \<noteq> []" "[7] \<noteq> ([] :: bytes)" by simp_all
  from set_reaches_owner [where xs = "[]" and wire = "\<lambda>s. s", OF serving_peers A(1) this e pick B(1-4) _ _ _ idle_env_quiet]
    B(5) new_deadline(3,4) A(2) show ?thesis by (simp add: fun_upd_idem) blast
qed

text \<open>A value set on one node and passed on to the other, which then answers it and holds only it for
  its key.\<close>

theorem cluster_values_by_key_witness:
  "\<exists>s h. (cluster_step each_other (\<lambda>s. s) (call_in two_keys)
         (\<lambda>_. source_in two_keys (\<lambda>_. False)) True)\<^sup>*\<^sup>*
       (cluster_init (\<lambda>_. make_group ''g'' 1 [WithPeers True])) s
     \<and> group_do idle_env (GGet ''k'') (cl_group s 1) = Some (GView (ByteView [1]), h)
     \<and> cache_held (g_mainCache (cl_group s 1)) ''k'' \<subseteq> {ByteView [1]}"
proof -
  let ?g = "make_group ''g'' 1 [WithPeers True]"
  let ?src = "\<lambda>_ :: nat. source_in two_keys (\<lambda>_. False)" let ?y = "SyncSet ''k'' [1]"
  let ?R = "cluster_step each_other (\<lambda>s. s) (call_in two_keys) ?src True" let ?s = "cluster_init (\<lambda>_. ?g)"
  have acts: "acts each_other ?src n (node_env n)" for n
    using node_env_acts [of n] by (simp add: acts_def source_in_def node_env_def idle_env_def)
  have dl: "in_time (node_env n) ?g" "group_deadline (node_env n) ?g = max_int64" for n
    using peers_deadline by (simp_all add: node_env_def)
  have peers: "g_peers ?g" "g_name ?g = ''g''" by (simp_all add: make_group_def)
  have call: "\<exists>g1 g2. group_do (node_env n) (GSet ''k'' [1] p) ?g = Some (GDone (started p ?g ?y), g1)
      \<and> group_do idle_env (GGet ''k'') g1 = Some (GView (ByteView [1]), g2)" for n p
    using group_write_read [OF serving_peers _ _ dl(1) _ _ idle_env_quiet, of "''k''" "[1]" n p] dl(2) new_deadline(3,4) by simp
  obtain g1 where g1: "group_do (node_env 0) (GSet ''k'' [1] False) ?g = Some (GDone (Some ?y), g1)"
    using call [of 0 False] peers by (auto simp: started_def)
  obtain h1 h2 where h: "group_do (node_env 1) (GSet ''k'' [1] True) ?g = Some (GDone None, h1)"
      "group_do idle_env (GGet ''k'') h1 = Some (GView (ByteView [1]), h2)"
    using call [of 1 True] by (auto simp: started_def)
  have kept: "g_peers g1" "g_name g1 = ''g''"
    using group_do_ok [of ?g "node_env 0" "GSet ''k'' [1] False"] g1 serving_peers acts [of 0] peers
    by (auto simp: serving_def acts_def env_at_def group_kept_def)
  have set_in: "call_in two_keys (GSet ''k'' [1] p)" for p by (simp add: call_in_def two_keys_def)
  let ?s1 = "set_syncs 0 [?y] (set_group 0 g1 ?s)"
  have "?R\<^sup>*\<^sup>* ?s (set_syncs 0 (cl_syncs ?s 0 @ left_behind (GReturn (GDone (Some ?y)))) (set_group 0 g1 ?s))"
    by (rule write_call [where x = "GSet ''k'' [1] False", OF _ acts]) (use g1 in \<open>simp_all add: cluster_init_def free_thread_def set_in\<close>)
  then have 1: "?R\<^sup>*\<^sup>* ?s ?s1" by (simp add: cluster_init_def)
  let ?s2 = "set_syncs 0 (remove1 ?y (cl_syncs ?s1 0)) (set_group 1 h1 ?s1)"
  have "?R\<^sup>*\<^sup>* ?s1 ?s2"
  proof (rule sync_call [where e = "node_env 0" and e' = "node_env 1" and r = "GDone None" and j = 0])
    show "syncToPeers (ge_load (node_env 0)) (cl_group ?s1 0) ?y = Some [PeerSet 1 ''g'' ''k'' [1]]"
      using kept by (simp add: syncToPeers_def node_env_def each_other_def set_syncs_def set_group_def)
    show "served_write (PeerSet 1 ''g'' ''k'' [1]) = (1, GSet ''k'' [1] True)" by simp
    show "group_do (node_env 1) (GSet ''k'' [1] True) (cl_group ?s1 1) = Some (GDone None, h1)"
      using h(1) by (simp add: cluster_init_def set_syncs_def set_group_def)
  qed (use acts in \<open>simp_all add: acts_def free_thread_def set_syncs_def set_group_def cluster_init_def\<close>)
  then have reach: "?R\<^sup>*\<^sup>* ?s ?s2" by (rule rtranclp_trans [of ?R, OF 1])
  have two: "cl_group ?s2 1 = h1" by (simp add: set_syncs_def set_group_def)
  have "group_options_ok [WithPeers True]" by (simp add: group_options_ok_def)
  from cluster_values_by_key [of "\<lambda>_. [WithPeers True]", OF this reach]
  have "two_keys ''k'' v" if "v \<in> cache_held (g_mainCache (cl_group ?s2 1)) ''k''" for v using that by blast
  then have "v = ByteView [1]" if "v \<in> cache_held (g_mainCache (cl_group ?s2 1)) ''k''" for v
    using that by (fastforce simp only: two_keys_def prod.inject list.inject char.inject)
  then have "cache_held (g_mainCache (cl_group ?s2 1)) ''k'' \<subseteq> {ByteView [1]}" by blast
  with reach h(2) two show ?thesis by (intro exI [of _ ?s2] exI [of _ h2]) simp
qed

end
