(* ===== verification/Cluster_Progress.thy ===== *)
theory Cluster_Progress
  imports Cluster_Props Cluster_Writes Cache_Group_Steps
begin

text \<open>
  A cluster in which no chain of nodes that send a key to each other comes back to its start: no
  set of calls blocks itself, every call can return without waiting for a timeout, and the work
  of the calls that are under way is bounded, whatever order they run in.
\<close>

subsection \<open>Requests under way\<close>

text \<open>
  A request is held by the thread that runs the function of a load for a key that goes to that
  node, it is served there by a thread of its own, and the threads of a node are finitely many.
\<close>

definition requests_ok :: "cluster_pick \<Rightarrow> Cluster \<Rightarrow> bool" where
  "requests_ok pick s \<longleftrightarrow>
     (\<forall>n i m j. cl_request s n i = Some (m, j) \<longrightarrow>
        (\<exists>k c pc. cl_threads s n i = Some (GGet k, GLoad (SfRun c)) \<and> forwards pick n (cl_group s n) k = Some m
           \<and> cl_threads s m j = Some (GGet k, pc)))
     \<and> (\<forall>n i n' i' q. cl_request s n i = Some q \<longrightarrow> cl_request s n' i' = Some q \<longrightarrow> n = n' \<and> i = i')
     \<and> (\<forall>n i x pc. cl_threads s n i = Some (x, pc) \<longrightarrow> pc_shape x pc)"

lemma requests_okD:
  assumes "requests_ok pick s"
  shows "cl_request s n i = Some (m, j) \<Longrightarrow> \<exists>k c pc. cl_threads s n i = Some (GGet k, GLoad (SfRun c))
      \<and> forwards pick n (cl_group s n) k = Some m \<and> cl_threads s m j = Some (GGet k, pc)"
    "cl_request s n i = Some q \<Longrightarrow> cl_request s n' i' = Some q \<Longrightarrow> n = n' \<and> i = i'"
    "cl_threads s n i = Some (x, pc) \<Longrightarrow> pc_shape x pc"
  using assms unfolding requests_ok_def by blast+

lemma requests_okI:
  assumes "\<And>n i m j. cl_request s n i = Some (m, j) \<Longrightarrow> \<exists>k c pc. cl_threads s n i = Some (GGet k, GLoad (SfRun c))
      \<and> forwards pick n (cl_group s n) k = Some m \<and> cl_threads s m j = Some (GGet k, pc)"
    "\<And>n i n' i' q. cl_request s n i = Some q \<Longrightarrow> cl_request s n' i' = Some q \<Longrightarrow> n = n' \<and> i = i'"
    "\<And>n i x pc. cl_threads s n i = Some (x, pc) \<Longrightarrow> pc_shape x pc"
  shows "requests_ok pick s"
  using assms unfolding requests_ok_def by blast

lemma forwards_peers: "g_peers g' = g_peers g \<Longrightarrow> forwards pick n g' k = forwards pick n g k"
  by (simp add: forwards_def)

lemma section_next: "group_section e x pc g = Some (pc', g') \<Longrightarrow> pc_shape x pc \<Longrightarrow> pc_rank x pc' < pc_rank x pc \<and> pc_shape x pc'"
  by (rule call_next_shape) (auto simp: call_next_def)

text \<open>A thread that is not running a load, or is not there, holds no request.\<close>

lemma no_request:
  assumes "requests_ok pick s" and "\<And>k c. cl_threads s n i \<noteq> Some (GGet k, GLoad (SfRun c))"
  shows "cl_request s n i = None"
  using requests_okD(1) [OF assms(1), of n i] assms(2) by (cases "cl_request s n i") auto

text \<open>A step that makes no request and keeps the threads that those left refer to.\<close>

lemma requests_ok_sub:
  assumes ok: "requests_ok pick s" and peers: "\<And>n. g_peers (cl_group s' n) = g_peers (cl_group s n)"
    and req: "\<And>a b q. cl_request s' a b = Some q \<Longrightarrow> cl_request s a b = Some q"
    and thr: "\<And>a b m j. cl_request s' a b = Some (m, j) \<Longrightarrow> cl_threads s' a b = cl_threads s a b
      \<and> map_option fst (cl_threads s' m j) = map_option fst (cl_threads s m j)"
    and shape: "\<And>a b x pc. cl_threads s' a b = Some (x, pc) \<Longrightarrow> pc_shape x pc"
  shows "requests_ok pick s'"
proof (rule requests_okI)
  fix a b m j assume q: "cl_request s' a b = Some (m, j)"
  obtain k c pc where h: "cl_threads s a b = Some (GGet k, GLoad (SfRun c))" "forwards pick a (cl_group s a) k = Some m"
      "cl_threads s m j = Some (GGet k, pc)" using requests_okD(1) [OF ok req [OF q]] by blast
  have "\<exists>pc. cl_threads s' m j = Some (GGet k, pc)" using thr [OF q] h(3) by auto
  then show "\<exists>k c pc. cl_threads s' a b = Some (GGet k, GLoad (SfRun c)) \<and> forwards pick a (cl_group s' a) k = Some m
      \<and> cl_threads s' m j = Some (GGet k, pc)"
    using thr [OF q] h(1,2) forwards_peers [OF peers, of pick a a k] by auto
next
  show "cl_request s' a b = Some q \<Longrightarrow> cl_request s' a' b' = Some q \<Longrightarrow> a = a' \<and> b = b'" for a b a' b' q
    by (rule requests_okD(2) [OF ok req req])
qed (rule shape)

lemma requests_ok_step:
  assumes step: "cluster_step pick wire calls sources late s s'" and ok: "requests_ok pick s"
  shows "requests_ok pick s'"
  using step
proof cases
  case (cl_begin n i x)
  have "cl_request s a b \<noteq> Some (n, i)" "cl_request s n i = None" for a b
    using requests_okD(1) [OF ok, of a b n i] no_request [OF ok, of n i] cl_begin(2) by auto
  then show ?thesis using requests_okD(3) [OF ok] unfolding cl_begin(1)
    by (intro requests_ok_sub [OF ok]) (auto split: if_splits)
next
  case (cl_local n i x pc e pc' g')
  have p: "g_peers g' = g_peers (cl_group s n)" using section_fields [OF cl_local(6)] by simp
  have none: "cl_request s n i = None"
    using no_request [OF ok, of n i] requests_okD(1) [OF ok, of n i] cl_local(2,3) by (cases "cl_request s n i") auto
  have "pc_shape x pc'" using section_next [OF cl_local(6)] requests_okD(3) [OF ok cl_local(2)] by simp
  then show ?thesis using none p cl_local(2) requests_okD(3) [OF ok] unfolding cl_local(1)
    by (intro requests_ok_sub [OF ok]) (auto split: if_splits)
next
  case (cl_send n i k c m j)
  have nt: "cl_request s a b \<noteq> Some (m, j)" for a b
    using requests_okD(1) [OF ok, of a b m j] cl_send(5) by auto
  have req: "cl_request s' a b = (if a = n \<and> b = i then Some (m, j) else cl_request s a b)" for a b
    unfolding cl_send(1) by simp
  have thr: "cl_threads s' a b = (if a = m \<and> b = j then Some (GGet k, GStart) else cl_threads s a b)" for a b
    unfolding cl_send(1) by simp
  have grp: "cl_group s' = cl_group s" unfolding cl_send(1) by simp
  show ?thesis
  proof (rule requests_okI)
    fix a b m' j' assume q: "cl_request s' a b = Some (m', j')"
    show "\<exists>k c pc. cl_threads s' a b = Some (GGet k, GLoad (SfRun c)) \<and> forwards pick a (cl_group s' a) k = Some m'
        \<and> cl_threads s' m' j' = Some (GGet k, pc)"
    proof (cases "a = n \<and> b = i")
      case True
      then show ?thesis using q cl_send(2,3,5) by (auto simp: req thr grp)
    next
      case False
      then have q': "cl_request s a b = Some (m', j')" using q by (auto simp: req)
      then have "\<not> (m' = m \<and> j' = j)" using nt by auto
      then show ?thesis using requests_okD(1) [OF ok q'] cl_send(5) by (auto simp: thr grp)
    qed
  next
    show "cl_request s' a b = Some q \<Longrightarrow> cl_request s' a' b' = Some q \<Longrightarrow> a = a' \<and> b = b'" for a b a' b' q
      using requests_okD(2) [OF ok, of a b q a' b'] nt [of a b] nt [of a' b'] by (auto simp: req split: if_splits)
  next
    show "cl_threads s' a b = Some (x, pc) \<Longrightarrow> pc_shape x pc" for a b x pc
      using requests_okD(3) [OF ok, of a b x pc] by (auto simp: thr split: if_splits)
  qed
next
  case (cl_reply n i k c m j r resp e pc' g')
  have p: "g_peers g' = g_peers (cl_group s n)" using section_fields [OF cl_reply(10)] by simp
  have sh: "pc_shape (GGet k) pc'" using section_next [OF cl_reply(10)] requests_okD(3) [OF ok cl_reply(2)] by simp
  have free: "cl_request s m j = None" by (rule no_request [OF ok]) (simp add: cl_reply(5))
  have uniq: "cl_request s a b = Some (m, j) \<Longrightarrow> a = n \<and> b = i" for a b
    using requests_okD(2) [OF ok cl_reply(3), of a b] by auto
  have req: "cl_request s' a b = (if a = n \<and> b = i then None else cl_request s a b)" for a b
    unfolding cl_reply(1) by simp
  have thr: "cl_threads s' a b = (if a = n \<and> b = i then Some (GGet k, pc') else if a = m \<and> b = j then None else cl_threads s a b)"
    for a b unfolding cl_reply(1) by simp
  show ?thesis
  proof (rule requests_ok_sub [OF ok])
    show "g_peers (cl_group s' a) = g_peers (cl_group s a)" for a unfolding cl_reply(1) using p by simp
    show "cl_request s' a b = Some q \<Longrightarrow> cl_request s a b = Some q" for a b q by (simp add: req split: if_splits)
    show "cl_threads s' a b = cl_threads s a b \<and> map_option fst (cl_threads s' m' j') = map_option fst (cl_threads s m' j')"
      if "cl_request s' a b = Some (m', j')" for a b m' j'
    proof -
      have q: "cl_request s a b = Some (m', j')" "\<not> (a = n \<and> b = i)" using that by (simp_all add: req split: if_splits)
      then have "\<not> (a = m \<and> b = j)" "\<not> (m' = m \<and> j' = j)" using free uniq [of a b] by auto
      then have "cl_threads s' a b = cl_threads s a b" "map_option fst (cl_threads s' m' j') = map_option fst (cl_threads s m' j')"
        using q(2) cl_reply(2) by (auto simp: thr)
      then show ?thesis ..
    qed
    show "cl_threads s' a b = Some (x, pc) \<Longrightarrow> pc_shape x pc" for a b x pc
      using requests_okD(3) [OF ok, of a b x pc] sh by (auto simp: thr split: if_splits)
  qed
next
  case (cl_late n i k c m j e err pc' g')
  have p: "g_peers g' = g_peers (cl_group s n)" using section_fields [OF cl_late(9)] by simp
  have sh: "pc_shape (GGet k) pc'" using section_next [OF cl_late(9)] requests_okD(3) [OF ok cl_late(3)] by simp
  show ?thesis using sh p cl_late(3) requests_okD(3) [OF ok] unfolding cl_late(1)
    by (intro requests_ok_sub [OF ok]) (auto split: if_splits)
next
  case (cl_end n i x pc)
  have "cl_request s n i = None" by (rule no_request [OF ok]) (use cl_end(2,3) in auto)
  then show ?thesis using cl_end(4) requests_okD(3) [OF ok] unfolding cl_end(1)
    by (intro requests_ok_sub [OF ok]) (auto split: if_splits)
next
  case (cl_sync y n e req m x j)
  have "cl_request s a b \<noteq> Some (m, j)" "cl_request s m j = None" for a b
    using requests_okD(1) [OF ok, of a b m j] no_request [OF ok, of m j] cl_sync(6) by auto
  then show ?thesis using requests_okD(3) [OF ok] unfolding cl_sync(1)
    by (intro requests_ok_sub [OF ok]) (auto split: if_splits)
qed (use requests_okD(3) [OF ok] in \<open>auto intro!: requests_ok_sub [OF ok] split: if_splits\<close>)

subsection \<open>The work that is under way\<close>

text \<open>The sum of a function that is 0 almost everywhere.\<close>

definition total :: "('a \<Rightarrow> nat) \<Rightarrow> nat" where
  "total f = sum f {x. f x \<noteq> 0}"

definition finitary :: "('a \<Rightarrow> nat) \<Rightarrow> bool" where
  "finitary f \<longleftrightarrow> finite {x. f x \<noteq> 0}"

lemma total_upd:
  assumes "finitary f"
  shows "finitary (f(x := v)) \<and> total (f(x := v)) + f x = total f + v"
proof -
  let ?A = "insert x {y. f y \<noteq> 0}"
  have A: "finite ?A" "{y. (f(x := v)) y \<noteq> 0} \<subseteq> ?A" using assms by (auto simp: finitary_def)
  have "total (f(x := v)) = sum (f(x := v)) ?A" unfolding total_def
    by (rule sum.mono_neutral_left) (use A in auto)
  moreover have "total f = sum f ?A" unfolding total_def by (rule sum.mono_neutral_left) (use A in auto)
  moreover have "sum (f(x := v)) (?A - {x}) = sum f (?A - {x})" by (rule sum.cong) auto
  moreover have "x \<in> ?A" by simp
  note sum.remove [OF A(1) this, of f] sum.remove [OF A(1) this, of "f(x := v)"]
  ultimately have "total (f(x := v)) + f x = total f + v" by simp
  then show ?thesis using finite_subset [OF A(2,1)] by (simp add: finitary_def)
qed

text \<open>
  An upper bound of the steps a thread still makes and causes: the sections left to it, its end,
  and, as long as its load may send a request, the work of the nodes behind; a write may leave a
  synchronisation.
\<close>

definition thread_steps :: "(key \<Rightarrow> nat \<Rightarrow> nat) \<Rightarrow> nat \<Rightarrow> (nat \<times> nat) option \<Rightarrow> group_call \<times> group_pc \<Rightarrow> nat" where
  "thread_steps rank n req t =
     1 + pc_rank (fst t) (snd t) +
     (case fst t of
        GGet k \<Rightarrow> if 11 \<le> pc_rank (fst t) (snd t) \<and> req = None then 30 * rank k n else 0
      | GSet k v p \<Rightarrow> if p then 0 else 30
      | GDelete k p \<Rightarrow> if p then 0 else 30
      | _ \<Rightarrow> 0)"

definition thread_work :: "(key \<Rightarrow> nat \<Rightarrow> nat) \<Rightarrow> Cluster \<Rightarrow> nat \<times> nat \<Rightarrow> nat" where
  "thread_work rank s p =
     (case cl_threads s (fst p) (snd p) of
        None \<Rightarrow> 0
      | Some t \<Rightarrow> thread_steps rank (fst p) (cl_request s (fst p) (snd p)) t)"

definition sync_work :: "Cluster \<Rightarrow> nat \<Rightarrow> nat" where
  "sync_work s n = 25 * length (cl_syncs s n)"

definition work :: "(key \<Rightarrow> nat \<Rightarrow> nat) \<Rightarrow> Cluster \<Rightarrow> nat" where
  "work rank s = total (thread_work rank s) + total (sync_work s)"

definition finite_work :: "(key \<Rightarrow> nat \<Rightarrow> nat) \<Rightarrow> Cluster \<Rightarrow> bool" where
  "finite_work rank s \<longleftrightarrow> finitary (thread_work rank s) \<and> finitary (sync_work s)"

lemma work_upd:
  assumes "finite_work rank s" and "thread_work rank s' = (thread_work rank s)(p := v, q := w)" and "p \<noteq> q"
    and "sync_work s' = (sync_work s)(n := l)"
  shows "finite_work rank s'"
    and "work rank s' + (thread_work rank s p + thread_work rank s q + sync_work s n) = work rank s + (v + w + l)"
  using total_upd [of "thread_work rank s" p v] total_upd [of "(thread_work rank s)(p := v)" q w]
    total_upd [of "sync_work s" n l] assms(1,3)
  unfolding work_def finite_work_def assms(2,4) by auto

lemma section_work:
  assumes "pc_rank x pc' < pc_rank x pc"
  shows "thread_steps rank n req (x, pc') < thread_steps rank n req (x, pc)"
  using assms by (auto simp: thread_steps_def split: group_call.split)

lemma work_one:
  assumes "finite_work rank s" and "thread_work rank s' = (thread_work rank s)(p := v)" and "sync_work s' = (sync_work s)(n := l)"
  shows "finite_work rank s' \<and> work rank s' + (thread_work rank s p + sync_work s n) = work rank s + (v + l)"
proof -
  let ?q = "(fst p, Suc (snd p))"
  have q: "p \<noteq> ?q" by (cases p) simp
  have "thread_work rank s' = (thread_work rank s)(p := v, ?q := thread_work rank s ?q)" using assms(2) q by (auto simp: fun_eq_iff)
  from work_upd [OF assms(1) this q assms(3)] show ?thesis by simp
qed

text \<open>The steps that concern a call, a request or a synchronisation: all but a cleanup.\<close>

definition active :: "Cluster \<Rightarrow> Cluster \<Rightarrow> bool" where
  "active s s' \<longleftrightarrow> cl_threads s' \<noteq> cl_threads s \<or> cl_request s' \<noteq> cl_request s \<or> cl_syncs s' \<noteq> cl_syncs s"

text \<open>Along the nodes that a key is sent to, the rank falls.\<close>

definition falling :: "(key \<Rightarrow> nat \<Rightarrow> nat) \<Rightarrow> cluster_pick \<Rightarrow> bool" where
  "falling rank pick \<longleftrightarrow> (\<forall>n k m. pick n k = (Some m, True, False) \<longrightarrow> rank k m < rank k n)"

lemma forwards_falls: "forwards pick n g k = Some m \<Longrightarrow> falling rank pick \<Longrightarrow> rank k m < rank k n"
  by (auto simp: forwards_def falling_def split: if_splits prod.splits option.splits bool.splits)

lemma work_simps [simp]:
  "thread_work rank (set_thread n i t s)
    = (thread_work rank s)((n, i) := (case t of None \<Rightarrow> 0 | Some t \<Rightarrow> thread_steps rank n (cl_request s n i) t))"
  "thread_work rank (set_request n i r s)
    = (thread_work rank s)((n, i) := (case cl_threads s n i of None \<Rightarrow> 0 | Some t \<Rightarrow> thread_steps rank n r t))"
  "thread_work rank (set_group n g s) = thread_work rank s" "thread_work rank (set_syncs n ys s) = thread_work rank s"
  "sync_work (set_thread n i t s) = sync_work s" "sync_work (set_request n i r s) = sync_work s"
  "sync_work (set_group n g s) = sync_work s" "sync_work (set_syncs n ys s) = (sync_work s)(n := 25 * length ys)"
  by (auto simp: thread_work_def sync_work_def fun_eq_iff cong: option.case_cong)

lemma thread_work_at: "cl_threads s n i = Some t \<Longrightarrow> thread_work rank s (n, i) = thread_steps rank n (cl_request s n i) t"
  by (simp add: thread_work_def)

lemma thread_work_none: "cl_threads s n i = None \<Longrightarrow> thread_work rank s (n, i) = 0"
  by (simp add: thread_work_def)

lemma left_work:
  assumes "pc_shape x pc" and "group_finished pc"
  shows "25 * length (left_behind pc) < thread_steps rank n req (x, pc)"
  using assms by (cases pc rule: left_behind.cases; cases x) (auto simp: thread_steps_def)

lemma served_work:
  assumes "served_write req = (m, x)"
  shows "thread_steps rank m r (x, GStart) = 23"
  using assms by (cases req) (auto simp: thread_steps_def)

lemma step_work:
  assumes step: "cluster_step pick wire calls sources late s s'" and ok: "requests_ok pick s"
    and fin: "finite_work rank s" and fall: "falling rank pick"
  shows "finite_work rank s' \<and> ((\<forall>x. \<not> calls x) \<longrightarrow> work rank s' \<le> work rank s \<and> (active s s' \<longrightarrow> work rank s' < work rank s))"
  using step
proof cases
  case (cl_begin n i x)
  have "thread_work rank s' = (thread_work rank s)((n, i) := thread_work rank s' (n, i))" "sync_work s' = (sync_work s)(0 := sync_work s 0)"
    unfolding cl_begin(1) by (simp_all add: fun_upd_idem fun_upd_twist)
  from work_one [OF fin this] cl_begin(3) show ?thesis by auto
next
  case (cl_local n i x pc e pc' g')
  let ?v = "thread_steps rank n (cl_request s n i) (x, pc')"
  have "thread_work rank s' = (thread_work rank s)((n, i) := ?v)" "sync_work s' = (sync_work s)(0 := sync_work s 0)"
    unfolding cl_local(1) by (simp_all add: fun_upd_idem fun_upd_twist)
  from work_one [OF fin this] thread_work_at [OF cl_local(2)]
    section_work [OF conjunct1 [OF section_next [OF cl_local(6) requests_okD(3) [OF ok cl_local(2)]]], of rank n "cl_request s n i"]
  show ?thesis by auto
next
  case (cl_send n i k c m j)
  let ?v = "thread_steps rank n (Some (m, j)) (GGet k, GLoad (SfRun c))" and ?w = "thread_steps rank m None (GGet k, GStart)"
  have ne: "(n, i) \<noteq> (m, j)" using cl_send(2,5) by auto
  have none: "cl_request s m j = None" by (rule no_request [OF ok]) (simp add: cl_send(5))
  have "thread_work rank s' = (thread_work rank s)((n, i) := ?v, (m, j) := ?w)" "sync_work s' = (sync_work s)(0 := sync_work s 0)"
    unfolding cl_send(1) using cl_send(2) none ne by (auto simp: fun_upd_idem fun_upd_twist)
  note w = work_upd [OF fin this(1) ne this(2)]
  have "rank k m < rank k n" by (rule forwards_falls [OF cl_send(3) fall])
  then have "?v + ?w < thread_work rank s (n, i)" using cl_send(4) by (simp add: thread_work_at [OF cl_send(2)] thread_steps_def)
  with w show ?thesis by auto
next
  case (cl_reply n i k c m j r resp e pc' g')
  let ?v = "thread_steps rank n None (GGet k, pc')"
  have ne: "(n, i) \<noteq> (m, j)" using cl_reply(2,5) by auto
  have "thread_work rank s' = (thread_work rank s)((n, i) := ?v, (m, j) := 0)" "sync_work s' = (sync_work s)(0 := sync_work s 0)"
    unfolding cl_reply(1) using ne by (auto simp: fun_upd_idem fun_upd_twist)
  note w = work_upd [OF fin this(1) ne this(2)]
  have "pc_rank (GGet k) pc' < 11" using section_next [OF cl_reply(10)] requests_okD(3) [OF ok cl_reply(2)] by simp
  then have "?v < thread_work rank s (n, i)" by (simp add: thread_work_at [OF cl_reply(2)] thread_steps_def)
  with w show ?thesis by auto
next
  case (cl_late n i k c m j e err pc' g')
  let ?v = "thread_steps rank n None (GGet k, pc')"
  have "thread_work rank s' = (thread_work rank s)((n, i) := ?v)" "sync_work s' = (sync_work s)(0 := sync_work s 0)"
    unfolding cl_late(1) by (simp_all add: fun_upd_idem fun_upd_twist)
  note w = work_one [OF fin this]
  have "pc_rank (GGet k) pc' < 11" using section_next [OF cl_late(9)] requests_okD(3) [OF ok cl_late(3)] by simp
  then have "?v < thread_work rank s (n, i)" by (simp add: thread_work_at [OF cl_late(3)] thread_steps_def)
  with w show ?thesis by auto
next
  case (cl_end n i x pc)
  have "thread_work rank s' = (thread_work rank s)((n, i) := 0)"
      "sync_work s' = (sync_work s)(n := sync_work s n + 25 * length (left_behind pc))"
    unfolding cl_end(1) by (simp_all add: sync_work_def)
  from work_one [OF fin this] left_work [OF requests_okD(3) [OF ok cl_end(2)] cl_end(3), of rank n "cl_request s n i"]
    thread_work_at [OF cl_end(2)] show ?thesis by auto
next
  case (cl_sync y n e req m x j)
  let ?v = "thread_steps rank m None (x, GStart)"
  have none: "cl_request s m j = None" by (rule no_request [OF ok]) (simp add: cl_sync(6))
  have len: "length (cl_syncs s n) = Suc (length (remove1 y (cl_syncs s n)))" using cl_sync(2)
    by (simp add: length_remove1) (metis Suc_pred length_pos_if_in_set)
  have "thread_work rank s' = (thread_work rank s)((m, j) := ?v)" "sync_work s' = (sync_work s)(n := 25 * length (remove1 y (cl_syncs s n)))"
    unfolding cl_sync(1) using none by (simp_all add: fun_upd_idem fun_upd_twist)
  from work_one [OF fin this] served_work [OF cl_sync(5)] len thread_work_none [OF cl_sync(6)] show ?thesis
    by (auto simp: sync_work_def)
next
  case (cl_unsent y n)
  have len: "length (cl_syncs s n) = Suc (length (remove1 y (cl_syncs s n)))" using cl_unsent(2)
    by (simp add: length_remove1) (metis Suc_pred length_pos_if_in_set)
  have "thread_work rank s' = (thread_work rank s)((0, 0) := thread_work rank s (0, 0))"
      "sync_work s' = (sync_work s)(n := 25 * length (remove1 y (cl_syncs s n)))"
    unfolding cl_unsent(1) by (simp_all add: fun_upd_idem fun_upd_twist)
  from work_one [OF fin this] len show ?thesis by (auto simp: sync_work_def)
next
  case (cl_cleanup n st now out st')
  have "thread_work rank s' = thread_work rank s" "sync_work s' = sync_work s" "\<not> active s s'"
    unfolding cl_cleanup(1) active_def by simp_all
  then show ?thesis using fin by (simp add: finite_work_def work_def)
qed

subsection \<open>Nobody blocks for ever\<close>

text \<open>
  A thread is blocked by the owner of the load it waits for, and by the thread that serves its
  request as long as that one has not returned.
\<close>

inductive blocked :: "Cluster \<Rightarrow> nat \<times> nat \<Rightarrow> nat \<times> nat \<Rightarrow> bool" for s where
  blocked_load: "cl_threads s n i = Some (GGet k, GLoad (SfWait c)) \<Longrightarrow> cl_threads s n j = Some (GGet k, GLoad spc)
    \<Longrightarrow> owns spc = Some c \<Longrightarrow> blocked s (n, i) (n, j)"
| blocked_peer: "cl_request s n i = Some (m, j) \<Longrightarrow> cl_threads s m j = Some (x, pc) \<Longrightarrow> \<not> group_finished pc
    \<Longrightarrow> blocked s (n, i) (m, j)"

text \<open>A step that changes where this thread is, or the request it holds.\<close>

definition moves :: "(Cluster \<Rightarrow> Cluster \<Rightarrow> bool) \<Rightarrow> Cluster \<Rightarrow> nat \<times> nat \<Rightarrow> bool" where
  "moves step s p \<longleftrightarrow> (\<exists>s'. step s s' \<and>
     (cl_threads s' (fst p) (snd p) \<noteq> cl_threads s (fst p) (snd p) \<or> cl_request s' (fst p) (snd p) \<noteq> cl_request s (fst p) (snd p)))"

lemma movesI:
  "cluster_step pick wire calls sources late s s' \<Longrightarrow> cl_threads s' n i \<noteq> cl_threads s n i \<or> cl_request s' n i \<noteq> cl_request s n i
    \<Longrightarrow> moves (cluster_step pick wire calls sources late) s (n, i)"
  by (auto simp: moves_def)

text \<open>The pickers find no missing peer, and each node has a data source that does not panic.\<close>

definition nodes_quiet :: "cluster_pick \<Rightarrow> (nat \<Rightarrow> (key \<Rightarrow> getter_outcome) \<Rightarrow> bool) \<Rightarrow> bool" where
  "nodes_quiet pick sources \<longleftrightarrow>
     (\<forall>n k b. pick n k \<noteq> (None, True, b)) \<and> (\<forall>n. \<exists>f. sources n f \<and> (\<forall>k r. f k \<noteq> GetterPanic r))"

lemma some_env:
  assumes "nodes_quiet pick sources"
  shows "\<exists>e. env_at pick n e \<and> sources n (le_getter (ge_load e)) \<and> (\<forall>m name k. le_peer (ge_load e) m name k = ans)"
proof -
  obtain f where f: "sources n f" "\<forall>k r. f k \<noteq> GetterPanic r"
    using assms unfolding nodes_quiet_def by blast
  let ?e = "idle_env\<lparr>ge_load := \<lparr>le_pick = pick n, le_peer = (\<lambda>_ _ _. ans), le_getter = f\<rparr>\<rparr>"
  have "env_quiet ?e" using assms f(2) by (simp add: env_quiet_def nodes_quiet_def)
  then show ?thesis using f(1) by (intro exI [of _ ?e]) (simp add: env_at_def)
qed

definition cluster_fine :: "(key \<Rightarrow> nat \<Rightarrow> nat) \<Rightarrow> cluster_pick \<Rightarrow> Cluster \<Rightarrow> bool" where
  "cluster_fine rank pick s \<longleftrightarrow> requests_ok pick s \<and> finite_work rank s \<and> cluster_ok (\<lambda>_ _. True) s"

lemma cluster_fine_init: "(\<And>n. fresh_group (name n) (gs n)) \<Longrightarrow> cluster_fine rank pick (cluster_init gs)"
  using cluster_ok_init [of name gs "\<lambda>_ _. True"]
  by (auto simp: cluster_fine_def requests_ok_def cluster_init_def finite_work_def finitary_def thread_work_def sync_work_def)

lemma cluster_fine_step:
  assumes "cluster_step pick wire calls sources late s s'" and "cluster_fine rank pick s" and "falling rank pick"
  shows "cluster_fine rank pick s'"
  using requests_ok_step [OF assms(1)] step_work [OF assms(1) _ _ assms(3)] cluster_ok_step [OF assms(1), of "\<lambda>_ _. True"] assms(2)
  by (auto simp: cluster_fine_def call_in_def source_in_def split: group_call.split)

lemma cluster_fine_reach:
  assumes "(cluster_step pick wire calls sources late)\<^sup>*\<^sup>* s s'" and "cluster_fine rank pick s" and "falling rank pick"
  shows "cluster_fine rank pick s'"
  using assms(1,2)
proof (induction rule: rtranclp_induct)
  case (step y z)
  have "cluster_fine rank pick y" using step by blast
  from cluster_fine_step [OF step.hyps(2) this assms(3)] show ?case .
qed

lemma free_slot:
  assumes "finite_work rank s"
  shows "\<exists>j. cl_threads s m j = None"
proof -
  have "finite (Pair m -` {p. thread_work rank s p \<noteq> 0})"
    using assms by (intro finite_vimageI) (auto simp: finite_work_def finitary_def inj_on_def)
  then obtain j where "j \<notin> Pair m -` {p. thread_work rank s p \<noteq> 0}" using ex_new_if_finite [OF infinite_UNIV_nat] by blast
  then show ?thesis by (cases "cl_threads s m j") (auto simp: thread_work_def thread_steps_def)
qed

lemma fine_at:
  assumes "cluster_fine rank pick s" and "cl_threads s n i = Some (x, pc)"
  shows "pc_shape x pc" "\<not> (\<exists>r. pc = GPanic r)" "group_ok (\<lambda>_ _. True) False (cl_group s n, cl_threads s n)"
proof -
  have ok: "group_ok (\<lambda>_ _. True) False (cl_group s n, cl_threads s n)" using assms(1) by (simp add: cluster_fine_def cluster_ok_def)
  then have "group_at_ok (\<lambda>_ _. True) False x pc" using assms(2) unfolding group_ok_def snd_conv by blast
  then show "\<not> (\<exists>r. pc = GPanic r)" by (cases x) auto
  show "pc_shape x pc" using requests_okD(3) [OF _ assms(2)] assms(1) by (auto simp: cluster_fine_def)
  show "group_ok (\<lambda>_ _. True) False (cl_group s n, cl_threads s n)" by (rule ok)
qed

text \<open>A section always moves its thread.\<close>

lemma local_moves:
  assumes fine: "cluster_fine rank pick s" and quiet: "nodes_quiet pick sources" and i: "cl_threads s n i = Some (x, pc)"
    and go: "\<not> group_finished pc" "\<not> group_waits pc (cl_group s n)" and here: "asks_node pick n (cl_group s n) x pc = None"
  shows "moves (cluster_step pick wire calls sources late) s (n, i)"
proof -
  obtain e where e: "env_at pick n e" "sources n (le_getter (ge_load e))" using some_env [OF quiet] by blast
  obtain pc' g' where sec: "group_section e x pc (cl_group s n) = Some (pc', g')"
    using group_progress [OF fine_at(3) [OF fine i] i go] by blast
  have "pc' \<noteq> pc" using section_next [OF sec fine_at(1) [OF fine i]] by auto
  then show ?thesis by (intro movesI [OF cl_local [where sources = sources, OF i here e sec]]) (simp add: i)
qed

lemma send_moves:
  assumes fine: "cluster_fine rank pick s" and i: "cl_threads s n i = Some (GGet k, GLoad (SfRun c))"
    and fwd: "forwards pick n (cl_group s n) k = Some m" and req: "cl_request s n i = None"
  shows "moves (cluster_step pick wire calls sources late) s (n, i)"
proof -
  obtain j where j: "cl_threads s m j = None" using free_slot [of rank s m] fine unfolding cluster_fine_def by blast
  show ?thesis by (rule movesI [OF cl_send [OF i fwd req j]]) (simp add: req)
qed

lemma reply_moves:
  assumes fine: "cluster_fine rank pick s" and quiet: "nodes_quiet pick sources" and i: "cl_threads s n i = Some (GGet k, GLoad (SfRun c))"
    and fwd: "forwards pick n (cl_group s n) k = Some m" and req: "cl_request s n i = Some (m, j)"
    and j: "cl_threads s m j = Some (GGet k, pc)" and over: "group_finished pc"
  shows "moves (cluster_step pick wire calls sources late) s (n, i)"
proof -
  obtain r where pc: "pc = GReturn r" using over fine_at(2) [OF fine j] by (cases pc) auto
  then have "result_type (GGet k) r" using fine_at(1) [OF fine j] by simp
  then obtain resp where resp: "get_response r = Some resp" by (cases r) auto
  obtain e where e: "env_at pick n e" "sources n (le_getter (ge_load e))"
      "\<forall>m name k. le_peer (ge_load e) m name k = Client_Get (deliver wire resp)" using some_env [OF quiet] by blast
  obtain pc' g' where sec: "group_section e (GGet k) (GLoad (SfRun c)) (cl_group s n) = Some (pc', g')"
    using group_progress [OF fine_at(3) [OF fine i] i] by fastforce
  show ?thesis
    by (rule movesI [OF cl_reply [where sources = sources, OF i req fwd j [unfolded pc] resp e(1,2) e(3) [THEN spec, THEN spec, THEN spec] sec]]) (simp add: req)
qed

lemma owner_here:
  assumes fine: "cluster_fine rank pick s" and i: "cl_threads s n i = Some (GGet k, pc)" and wait: "group_waits pc (cl_group s n)"
  shows "\<exists>c j spc. pc = GLoad (SfWait c) \<and> cl_threads s n j = Some (GGet k, GLoad spc) \<and> owns spc = Some c"
proof -
  let ?g = "cl_group s n" and ?t = "sf_thread \<circ> cl_threads s n"
  obtain c where c: "pc = GLoad (SfWait c)" "\<not> sc_done (sf_calls (g_loader ?g) c)"
    using wait by (cases "(pc, ?g)" rule: group_waits.cases) auto
  have inv: "sf_inv (g_loader ?g, ?t)" "sf_keyed (\<lambda>_ _. True) (g_loader ?g, ?t)"
    using fine_at(3) [OF fine i] by (simp_all add: group_ok_def parts)
  have w: "?t i = Some (k, SfWait c)" using i c(1) by simp
  then have "c < sf_next (g_loader ?g)" using sf_invD(6) [OF inv(1) w] by simp
  then obtain j k' spc where j: "?t j = Some (k', spc)" "owns spc = Some c" using sf_invD(2) [OF inv(1) _ c(2)] by blast
  have "refs k c (g_loader ?g, ?t)" "refs k' c (g_loader ?g, ?t)"
    unfolding refs_def snd_conv using w j waits.simps(1) by blast+
  then have "k' = k" using sf_keyedD(1) [OF inv(2)] by blast
  with c(1) j show ?thesis by (auto simp: sf_thread_eq)
qed

lemma get_unblocks:
  assumes fine: "cluster_fine rank pick s" and fall: "falling rank pick" and quiet: "nodes_quiet pick sources"
  shows "cl_threads s n i = Some (GGet k, pc) \<Longrightarrow> \<not> group_finished pc
    \<Longrightarrow> \<exists>p. (blocked s)\<^sup>*\<^sup>* (n, i) p \<and> moves (cluster_step pick wire calls sources late) s p"
proof (induction "rank k n" arbitrary: n i pc rule: less_induct)
  case less
  let ?moves = "moves (cluster_step pick wire calls sources late) s"
  have req: "requests_ok pick s" using fine by (simp add: cluster_fine_def)
  have run: "\<exists>p. (blocked s)\<^sup>*\<^sup>* (n, i) p \<and> ?moves p"
    if i: "cl_threads s n i = Some (GGet k, pc)" and go: "\<not> group_finished pc" "\<not> group_waits pc (cl_group s n)" for i pc
  proof (cases "asks_node pick n (cl_group s n) (GGet k) pc")
    case None
    then show ?thesis using local_moves [OF fine quiet i go] by blast
  next
    case (Some m)
    then obtain c where c: "pc = GLoad (SfRun c)" "forwards pick n (cl_group s n) k = Some m"
      by (cases pc rule: before_end.cases) auto
    note i' = i [unfolded c(1)]
    show ?thesis
    proof (cases "cl_request s n i")
      case None
      then show ?thesis using send_moves [OF fine i' c(2)] by blast
    next
      case (Some q)
      obtain m' j where q: "q = (m', j)" by (cases q)
      then obtain pc2 where j: "m' = m" "cl_threads s m j = Some (GGet k, pc2)"
        using requests_okD(1) [OF req, of n i m' j] Some i' c(2) by auto
      have r: "cl_request s n i = Some (m, j)" using Some q j(1) by simp
      show ?thesis
      proof (cases "group_finished pc2")
        case True
        then show ?thesis using reply_moves [OF fine quiet i' c(2) r j(2)] by blast
      next
        case False
        have "blocked s (n, i) (m, j)" by (rule blocked_peer [OF r j(2) False])
        moreover obtain p where "(blocked s)\<^sup>*\<^sup>* (m, j) p" "?moves p"
          using less.hyps [OF forwards_falls [OF c(2) fall] j(2) False] by blast
        ultimately show ?thesis by (meson converse_rtranclp_into_rtranclp)
      qed
    qed
  qed
  show ?case
  proof (cases "group_waits pc (cl_group s n)")
    case True
    then obtain c j spc where c: "pc = GLoad (SfWait c)" "cl_threads s n j = Some (GGet k, GLoad spc)" "owns spc = Some c"
      using owner_here [OF fine less.prems(1)] by blast
    have "blocked s (n, i) (n, j)" using blocked_load less.prems(1) c by blast
    moreover have "\<not> group_finished (GLoad spc)" "\<not> group_waits (GLoad spc) (cl_group s n)" using c(3) by (cases spc; simp)+
    then obtain p where "(blocked s)\<^sup>*\<^sup>* (n, j) p" "?moves p" using run [OF c(2)] by blast
    ultimately show ?thesis by (meson converse_rtranclp_into_rtranclp)
  next
    case False
    then show ?thesis using run less.prems by blast
  qed
qed

lemma call_unblocks:
  assumes fine: "cluster_fine rank pick s" and fall: "falling rank pick" and quiet: "nodes_quiet pick sources"
    and i: "cl_threads s n i = Some (x, pc)" and go: "\<not> group_finished pc"
  shows "\<exists>p. (blocked s)\<^sup>*\<^sup>* (n, i) p \<and> moves (cluster_step pick wire calls sources late) s p"
proof (cases "\<exists>k. x = GGet k")
  case True
  then show ?thesis using get_unblocks [OF fine fall quiet _ go] i by blast
next
  case False
  then have here: "asks_node pick n (cl_group s n) x pc = None" by (cases x) auto
  have "group_at_ok (\<lambda>_ _. True) False x pc" using fine_at(3) [OF fine i] i unfolding group_ok_def snd_conv by blast
  then have "\<not> group_waits pc (cl_group s n)" using False by (cases x; cases pc) auto
  then show ?thesis using local_moves [OF fine quiet i go _ here] by blast
qed

text \<open>All calls that are under way can return, without a new call and without a timeout.\<close>

lemma calls_return:
  assumes "cluster_fine rank pick s" and fall: "falling rank pick" and quiet: "nodes_quiet pick sources"
  shows "\<exists>s'. (cluster_step pick wire (\<lambda>_. False) sources False)\<^sup>*\<^sup>* s s'
    \<and> (\<forall>n i x pc. cl_threads s' n i = Some (x, pc) \<longrightarrow> group_finished pc)"
  using assms(1)
proof (induction "work rank s" arbitrary: s rule: less_induct)
  case less
  let ?step = "cluster_step pick wire (\<lambda>_. False) sources False"
  show ?case
  proof (cases "\<forall>n i x pc. cl_threads s n i = Some (x, pc) \<longrightarrow> group_finished pc")
    case True
    then show ?thesis by blast
  next
    case False
    then obtain n i x pc where t: "cl_threads s n i = Some (x, pc)" "\<not> group_finished pc" by blast
    obtain p where "moves ?step s p" using call_unblocks [OF less.prems fall quiet t] by blast
    then obtain s1 where s1: "?step s s1" "active s s1" unfolding moves_def active_def by metis
    have "work rank s1 < work rank s"
      using step_work [OF s1(1) _ _ fall] less.prems s1(2) by (auto simp: cluster_fine_def)
    moreover have "cluster_fine rank pick s1" by (rule cluster_fine_step [OF s1(1) less.prems fall])
    ultimately obtain s' where "?step\<^sup>*\<^sup>* s1 s'" "\<forall>n i x pc. cl_threads s' n i = Some (x, pc) \<longrightarrow> group_finished pc"
      using less.hyps by blast
    then show ?thesis using converse_rtranclp_into_rtranclp [of ?step, OF s1(1)] by blast
  qed
qed

subsection \<open>Properties\<close>

text \<open>
  C19. A cluster whose nodes do not send keys in circles never blocks: in every state that any calls,
  losses and timeouts lead to, every call that has not returned can move, or waits, through owners
  of loads and threads that serve requests, for one that can; and from there all calls can return
  without a new call and without waiting for a timeout.
\<close>

theorem acyclic_cluster_returns:
  assumes "\<And>n. group_options_ok (opts n)"
    and "(cluster_step pick wire calls sources late)\<^sup>*\<^sup>* (cluster_init (\<lambda>n. make_group name (bytes n) (opts n))) s"
    and "falling rank pick" and "nodes_quiet pick sources"
  shows "(\<forall>n i x pc. cl_threads s n i = Some (x, pc) \<longrightarrow> \<not> group_finished pc \<longrightarrow>
      (\<exists>p. (blocked s)\<^sup>*\<^sup>* (n, i) p \<and> moves (cluster_step pick wire (\<lambda>_. False) sources False) s p))
    \<and> (\<exists>s'. (cluster_step pick wire (\<lambda>_. False) sources False)\<^sup>*\<^sup>* s s'
        \<and> (\<forall>n i x pc. cl_threads s' n i = Some (x, pc) \<longrightarrow> group_finished pc))"
proof -
  have "cluster_fine rank pick (cluster_init (\<lambda>n. make_group name (bytes n) (opts n)))"
    by (rule cluster_fine_init [of "\<lambda>_. name"]) (rule fresh_make_group [OF assms(1)])
  from cluster_fine_reach [OF assms(2) this assms(3)] have fine: "cluster_fine rank pick s" .
  with call_unblocks [OF fine assms(3,4)] calls_return [OF fine assms(3,4)] show ?thesis by blast
qed

text \<open>
  C20. And its calls cannot go on for ever: in every execution from such a state in which no new
  call begins, whatever order the threads run in, which requests are lost and which time out, at
  most \<open>work rank s\<close> steps concern a call, a request or a synchronisation: for each thread the 22
  sections of a call, once more for every node down the chain, and for each write its
  synchronisation.
\<close>

theorem acyclic_work_bounded:
  assumes "\<And>n. group_options_ok (opts n)"
    and "(cluster_step pick wire calls sources late)\<^sup>*\<^sup>* (cluster_init (\<lambda>n. make_group name (bytes n) (opts n))) (f 0)"
    and "falling rank pick"
    and "\<And>t. t < N \<Longrightarrow> cluster_step pick wire (\<lambda>_. False) sources late (f t) (f (Suc t))"
  shows "card {t. t < N \<and> active (f t) (f (Suc t))} \<le> work rank (f 0)"
proof -
  have "cluster_fine rank pick (cluster_init (\<lambda>n. make_group name (bytes n) (opts n)))"
    by (rule cluster_fine_init [of "\<lambda>_. name"]) (rule fresh_make_group [OF assms(1)])
  from cluster_fine_reach [OF assms(2) this assms(3)] have fine: "cluster_fine rank pick (f 0)" .
  have "cluster_fine rank pick (f M) \<and> card {t. t < M \<and> active (f t) (f (Suc t))} + work rank (f M) \<le> work rank (f 0)" if "M \<le> N" for M
    using that
  proof (induction M)
    case (Suc M)
    have step: "cluster_step pick wire (\<lambda>_. False) sources late (f M) (f (Suc M))" using assms(4) Suc.prems by simp
    have ih: "cluster_fine rank pick (f M)" "card {t. t < M \<and> active (f t) (f (Suc t))} + work rank (f M) \<le> work rank (f 0)"
      using Suc by simp_all
    have w: "work rank (f (Suc M)) \<le> work rank (f M) \<and> (active (f M) (f (Suc M)) \<longrightarrow> work rank (f (Suc M)) < work rank (f M))"
      using step_work [OF step _ _ assms(3)] ih(1) by (auto simp: cluster_fine_def)
    let ?A = "\<lambda>M. {t. t < M \<and> active (f t) (f (Suc t))}"
    have "?A (Suc M) = (if active (f M) (f (Suc M)) then insert M (?A M) else ?A M)" by (auto simp: less_Suc_eq)
    then have "card (?A (Suc M)) = card (?A M) + of_bool (active (f M) (f (Suc M)))" by simp
    then have "card (?A (Suc M)) + work rank (f (Suc M)) \<le> work rank (f 0)"
      using ih(2) w by (cases "active (f M) (f (Suc M))") simp_all
    with cluster_fine_step [OF step ih(1) assms(3)] show ?case ..
  qed (simp add: fine)
  from this [of N] show ?thesis by simp
qed

subsection \<open>Witnesses\<close>

text \<open>Node 0 owns every key and knows it; the others send it to node 0.\<close>

definition to_owner :: cluster_pick where
  "to_owner n k = (if n = 0 then (None, False, True) else (Some 0, True, False))"

lemma to_owner_ok: "falling (\<lambda>k n. n) to_owner" "nodes_quiet to_owner (\<lambda>_ _. True)"
  by (auto simp: falling_def nodes_quiet_def to_owner_def intro: exI [of _ "\<lambda>_. GetterReturn [] None"])

definition asked :: Cluster where
  "asked = set_thread 1 0 (Some (GGet ''k'', GStart)) (cluster_init (\<lambda>_. make_group ''g'' 1 [WithPeers True]))"

lemma asked_reached:
  "(cluster_step to_owner (\<lambda>s. s) (\<lambda>_. True) (\<lambda>_ _. True) late)\<^sup>*\<^sup>* (cluster_init (\<lambda>_. make_group ''g'' 1 [WithPeers True])) asked"
  unfolding asked_def
  by (rule r_into_rtranclp [of "cluster_step to_owner (\<lambda>s. s) (\<lambda>_. True) (\<lambda>_ _. True) late"], rule cl_begin) (simp_all add: cluster_init_def)

theorem acyclic_cluster_returns_witness:
  "\<exists>s'. (cluster_step to_owner (\<lambda>s. s) (\<lambda>_. False) (\<lambda>_ _. True) False)\<^sup>*\<^sup>* asked s'
     \<and> (\<forall>n i x pc. cl_threads s' n i = Some (x, pc) \<longrightarrow> group_finished pc)"
  using acyclic_cluster_returns [OF _ asked_reached to_owner_ok] by (simp add: group_options_ok_def)

theorem acyclic_work_bounded_witness:
  "card {t. t < (1 :: nat) \<and> active asked (set_thread 1 0 (Some (GGet ''k'', GCache (CGet (0, 0) ''k'') Load_closed)) asked)}
     \<le> work (\<lambda>k n. n) asked"
proof -
  let ?f = "\<lambda>t :: nat. if t = 0 then asked else set_thread 1 0 (Some (GGet ''k'', GCache (CGet (0, 0) ''k'') Load_closed)) asked"
  let ?e = "idle_env\<lparr>ge_load := (ge_load idle_env)\<lparr>le_pick := to_owner 1\<rparr>\<rparr>"
  have g: "cl_group asked 1 = make_group ''g'' 1 [WithPeers True]" by (simp add: asked_def cluster_init_def)
  have i: "cl_threads asked 1 0 = Some (GGet ''k'', GStart)" by (simp add: asked_def)
  have e: "env_at to_owner 1 ?e" by (simp add: env_at_def env_quiet_def to_owner_def idle_env_def)
  have sec: "group_section ?e (GGet ''k'') GStart (cl_group asked 1) = Some (GCache (CGet (0, 0) ''k'') Load_closed, cl_group asked 1)"
    unfolding g by (simp add: make_group_def idle_env_def)
  have "cluster_step to_owner (\<lambda>s. s) (\<lambda>_. False) (\<lambda>_ _. True) True asked (?f 1)"
    using cl_local [where sources = "\<lambda>_ _. True" and calls = "\<lambda>_. False" and late = True and wire = "\<lambda>s. s", OF i _ e _ sec]
    by simp
  then have "\<And>t. t < 1 \<Longrightarrow> cluster_step to_owner (\<lambda>s. s) (\<lambda>_. False) (\<lambda>_ _. True) True (?f t) (?f (Suc t))" by simp
  from acyclic_work_bounded [where f = ?f and N = 1 and calls = "\<lambda>_. True" and name = "''g''" and bytes = "\<lambda>_. 1"
      and opts = "\<lambda>_. [WithPeers True]", OF _ _ to_owner_ok(1) this] asked_reached [of True]
  show ?thesis by (simp add: group_options_ok_def cong: conj_cong)
qed

end
