(* ===== verification/Cluster_Discovery.thy ===== *)
theory Cluster_Discovery
  imports Peer_Picker_Props Cluster_Props
begin

text \<open>
  The pickers of all nodes of a cluster together, and the cluster they make: which node each of
  them picks for a key once the nodes have discovered each other, and what becomes of the calls.
\<close>

subsection \<open>Nodes that have discovered each other\<close>

text \<open>
  \<open>p\<close> is a picker of the node \<open>self\<close> that fetched the services and watched them, and what it was
  told amounts to the other addresses of \<open>A\<close>.
\<close>

definition discovered :: "Config \<Rightarrow> string set \<Rightarrow> string \<Rightarrow> ClientPicker \<Rightarrow> bool" where
  "discovered cfg A self p \<longleftrightarrow>
     (\<exists>(opts :: client_option picker_option list) vals ms p0.
        NewClientPicker (\<lambda>_ _ _. True) cfg self opts True (Some vals) = Ok (Inr p0, False)
      \<and> watchServiceChanges (\<lambda>_ _. True) ms p0 = Ok p
      \<and> set vals - {[]} \<subseteq> A \<and> (\<forall>e \<in> set (watched ms). set (event_addr e) - {[]} \<subseteq> A)
      \<and> events_members self (p_svcName p) (map (EventPut []) vals @ watched ms) {} = A - {self})"

lemma discovered_picker:
  assumes "Hash_Ring.cluster_ok cfg A" and "discovered cfg A self p"
  shows "picker_ok A p" "p_selfAddr p = self" "m_config (p_ring p) = cfg" "members (p_ring p) = A - {self}"
proof -
  obtain opts vals ms p0 where h:
      "NewClientPicker (\<lambda>_ :: client_option list. \<lambda>_ _. True) cfg self opts True (Some vals) = Ok (Inr p0, False)"
      "watchServiceChanges (\<lambda>_ _. True) ms p0 = Ok p"
      "set vals - {[]} \<subseteq> A" "\<forall>e \<in> set (watched ms). set (event_addr e) - {[]} \<subseteq> A"
      "events_members self (p_svcName p) (map (EventPut []) vals @ watched ms) {} = A - {self}"
    using assms(2) unfolding discovered_def by blast
  let ?q = "new_picker self (ps_svcName (fold apply_picker_option opts default_settings)) cfg"
  have puts: "\<forall>e \<in> set (map (EventPut []) vals). set (event_addr e) - {[]} \<subseteq> A" using h(3) by auto
  obtain p1 where p1: "handleWatchEvents (\<lambda>_ _. True) (map (EventPut []) vals) ?q = Ok p1"
      "followed A (\<lambda>_ _. True) (map (EventPut []) vals) ?q p1"
    using handleWatchEvents_followed [OF picker_ok_new [OF assms(1)] puts] by blast
  have "p0 = p1" using h(1) p1(1) by (simp add: NewClientPicker_def fetchAllServices_def set_all_events Let_def)
  moreover have "picker_ok A p1" using p1(2) by (simp add: followed_def)
  moreover from watch_followed [OF this h(4), of "\<lambda>_ _. True"] obtain p2 where
    "watchServiceChanges (\<lambda>_ _. True) ms p1 = Ok p2" "followed A (\<lambda>_ _. True) (watched ms) p1 p2" by blast
  ultimately have f: "followed A (\<lambda>_ _. True) (map (EventPut []) vals @ watched ms) ?q p"
    using h(2) followed_trans [OF p1(2)] by simp
  then show "picker_ok A p" "p_selfAddr p = self" "m_config (p_ring p) = cfg"
    by (simp_all add: followed_def new_picker_def New_def)
  have "members (p_ring ?q) = {}" by (simp add: new_picker_def New_def members_def)
  then show "members (p_ring p) = A - {self}" using f h(5) by (simp add: followed_def new_picker_def)
qed

text \<open>What puts alone amount to.\<close>

lemma puts_members:
  assumes "\<forall>e \<in> set es. \<exists>key addr. e = EventPut key addr \<and> addr \<noteq> []"
  shows "events_members self svc es M = M \<union> ({addr. \<exists>key. EventPut key addr \<in> set es} - {self})"
  using assms by (induction es arbitrary: M) (auto split: if_splits)

subsection \<open>Agreement\<close>

text \<open>The positions of a ring whose replicas are the default ones.\<close>

definition positions :: "Config \<Rightarrow> string set \<Rightarrow> int set" where
  "positions cfg B = (\<lambda>(n, i). vhash cfg n i) ` (B \<times> {..<nat (DefaultReplicas cfg)})"

lemma ring_positions:
  assumes "ring_ok m" and "default_replicas m"
  shows "set (m_keys m) = positions (m_config m) (members m)"
    and "n \<in> members m \<Longrightarrow> i < nat (DefaultReplicas (m_config m)) \<Longrightarrow> mget (hashMap m) (vhash (m_config m) n i) = Some n"
proof -
  let ?R = "nat (DefaultReplicas (m_config m))"
  have vn: "is_vnode m n h \<longleftrightarrow> (\<exists>i < ?R. h = vhash (m_config m) n i)" if "n \<in> members m" for n h
    using assms(2) that by (simp add: is_vnode_def default_replicas_def)
  have "h \<in> set (m_keys m) \<longleftrightarrow> (\<exists>n. n \<in> members m \<and> is_vnode m n h)" for h
    using ring_okD(6,7) [OF assms(1)] by auto
  then have "h \<in> set (m_keys m) \<longleftrightarrow> (\<exists>n \<in> members m. \<exists>i < ?R. h = vhash (m_config m) n i)" for h using vn by blast
  then show "set (m_keys m) = positions (m_config m) (members m)"
    unfolding positions_def by (auto 0 3)
  show "mget (hashMap m) (vhash (m_config m) n i) = Some n" if "n \<in> members m" "i < ?R"
    using ring_okD(7) [OF assms(1)] vn that by blast
qed

text \<open>The owner on the ring is the node of the nearest position.\<close>

lemma owner_nearest:
  assumes "ring_ok m" and "default_replicas m" and "n \<in> members m" and "i < nat (DefaultReplicas (m_config m))"
    and "nearest (positions (m_config m) (members m)) (uint (HashFunc (m_config m) key)) (vhash (m_config m) n i)"
  shows "owner m key = n"
proof -
  have "m_keys m \<noteq> []" by (rule members_keys [OF assms(1,3)])
  from nearest_successor [OF ring_okD(2) [OF assms(1)] this]
  have "successor (m_keys m) (uint (HashFunc (m_config m) key)) = vhash (m_config m) n i"
    using assms(5) ring_positions(1) [OF assms(1,2)] nearest_unique by metis
  then show ?thesis using ring_positions(2) [OF assms(1-4)] by (simp add: owner_def getd_def)
qed

lemma nearest_exists: "finite S \<Longrightarrow> S \<noteq> {} \<Longrightarrow> \<exists>x. nearest S h x"
  using nearest_successor [of "sorted_list_of_set S" h] by auto

text \<open>What a picker answers for a key.\<close>

definition asks_addr :: "ClientPicker \<Rightarrow> string \<Rightarrow> string \<Rightarrow> bool" where
  "asks_addr p key addr \<longleftrightarrow> (\<exists>c p'. PickPeer key p = Ok ((Some c, True, False), p') \<and> mget (p_clients p) addr = Some c)"

lemma picker_asks_owner:
  assumes "ring_ok (p_ring p)" and "set (mkeys (p_clients p)) = members (p_ring p)" and "p_selfAddr p \<notin> members (p_ring p)"
    and "m_keys (p_ring p) \<noteq> []" and "key \<noteq> []"
  shows "asks_addr p key (owner (p_ring p) key)" "owner (p_ring p) key \<in> members (p_ring p)"
proof -
  obtain m' where g: "Get key (p_ring p) = Ok (owner (p_ring p) key, m')" "owner (p_ring p) key \<in> members (p_ring p)"
    using Get_owner [OF assms(1,4,5)] by blast
  then have "owner (p_ring p) key \<noteq> []" "owner (p_ring p) key \<noteq> p_selfAddr p"
    using ring_okD(10) [OF assms(1)] assms(3) by auto
  moreover obtain c where "mget (p_clients p) (owner (p_ring p) key) = Some c" using g(2) assms(2) by (metis domD mget_dom)
  ultimately show "asks_addr p key (owner (p_ring p) key)" "owner (p_ring p) key \<in> members (p_ring p)"
    using g by (auto simp: asks_addr_def PickPeer_def Let_def)
qed

subsection \<open>Properties\<close>

text \<open>
  C17. Ownership in a cluster of at least two nodes that have discovered each other and whose virtual
  nodes do not collide: for every key there is one node \<open>x\<close> that all other nodes ask, whatever the
  order in which they learned of each other; \<open>x\<close> itself, which is not on its own ring, asks another
  node \<open>y\<close>, and that one asks \<open>x\<close>.
\<close>

theorem nodes_agree_on_owner:
  assumes "Hash_Ring.cluster_ok cfg A" and "\<forall>a \<in> A. discovered cfg A a (ps a)" and "a \<in> A" and "b \<in> A" and "a \<noteq> b" and "key \<noteq> []"
  shows "\<exists>x \<in> A. \<exists>y \<in> A - {x}. asks_addr (ps x) key y \<and> (\<forall>z \<in> A - {x}. asks_addr (ps z) key x)"
proof -
  have d: "picker_ok A (ps z)" "p_selfAddr (ps z) = z" "m_config (p_ring (ps z)) = cfg" "members (p_ring (ps z)) = A - {z}"
    if "z \<in> A" for z using discovered_picker [OF assms(1)] assms(2) that by blast+
  let ?R = "nat (DefaultReplicas cfg)" and ?h = "uint (HashFunc cfg key)"
  have asks: "asks_addr (ps z) key (owner (p_ring (ps z)) key)" "owner (p_ring (ps z)) key \<in> A - {z}" if "z \<in> A" for z
  proof -
    note ok = picker_okD [OF d(1) [OF that]]
    have "A - {z} \<noteq> {}" using assms(3-5) by blast
    then have "m_keys (p_ring (ps z)) \<noteq> []" using members_keys [OF ok(1)] d(4) [OF that] by auto
    from picker_asks_owner [OF ok(1,5,7) this assms(6)] d(4) [OF that]
    show "asks_addr (ps z) key (owner (p_ring (ps z)) key)" "owner (p_ring (ps z)) key \<in> A - {z}" by simp_all
  qed
  have "finite (A - {a})"
    using d(4) [OF assms(3)] picker_okD(5) [OF d(1) [OF assms(3)]] by (metis finite_set)
  then have "finite (positions cfg A)" by (simp add: positions_def)
  moreover have "vhash cfg a 0 \<in> positions cfg A"
    using assms(1,3) by (force simp: positions_def Hash_Ring.cluster_ok_def)
  then have "positions cfg A \<noteq> {}" by blast
  ultimately obtain h where h: "nearest (positions cfg A) ?h h" using nearest_exists by blast
  then have "h \<in> positions cfg A" by (simp add: nearest_def)
  then obtain x i where x: "x \<in> A" "i < ?R" "h = vhash cfg x i" by (auto simp: positions_def)
  have "owner (p_ring (ps z)) key = x" if z: "z \<in> A - {x}" for z
  proof -
    have A: "z \<in> A" using z by blast
    note ok = picker_okD [OF d(1) [OF A]]
    have "positions cfg (A - {z}) \<subseteq> positions cfg A" by (auto simp: positions_def)
    moreover have "h \<in> positions cfg (A - {z})" using x z by (auto simp: positions_def)
    ultimately have "nearest (positions cfg (A - {z})) ?h h" by (rule nearest_subset [OF h])
    then show ?thesis using owner_nearest [OF ok(1,2), of x i key] x z by (auto simp: d(3,4) [OF A])
  qed
  then show ?thesis using asks x(1) by (metis DiffD1)
qed

text \<open>The node of the client that a picker hands out.\<close>

definition client_node :: "(string \<Rightarrow> nat) \<Rightarrow> ClientPicker \<Rightarrow> nat \<Rightarrow> nat option" where
  "client_node node p c = map_option (\<lambda>(a, c). node a) (find (\<lambda>(a, c'). c' = c) (p_clients p))"

text \<open>The picks of the pickers \<open>ps\<close> as those of a cluster whose node with address \<open>a\<close> is \<open>node a\<close>.\<close>

definition picks :: "(string \<Rightarrow> nat) \<Rightarrow> (nat \<Rightarrow> ClientPicker) \<Rightarrow> cluster_pick" where
  "picks node ps n key =
     (case PickPeer key (ps n) of
        Ok ((c, found, self), p) \<Rightarrow> (Option.bind c (client_node node (ps n)), found, self)
      | _ \<Rightarrow> (None, False, False))"

text \<open>
  The picker of node \<open>n\<close> has a ring in order, whatever the balancer made of it, with at least one
  member; all are nodes of \<open>N\<close>, and \<open>n\<close> is not among them.
\<close>

definition finds_peers :: "(nat \<Rightarrow> string) \<Rightarrow> nat set \<Rightarrow> nat \<Rightarrow> ClientPicker \<Rightarrow> bool" where
  "finds_peers addr N n p \<longleftrightarrow> ring_ok (p_ring p) \<and> members (p_ring p) \<noteq> {} \<and> members (p_ring p) \<subseteq> addr ` N
     \<and> p_selfAddr p = addr n \<and> addr n \<notin> members (p_ring p)
     \<and> gomap_ok (p_clients p) \<and> set (mkeys (p_clients p)) = members (p_ring p) \<and> distinct (map snd (p_clients p))"

lemma discovered_finds_peers:
  assumes "Hash_Ring.cluster_ok cfg (addr ` N)" and "discovered cfg (addr ` N) (addr n) p" and "addr ` N \<noteq> {addr n}" and "n \<in> N"
  shows "finds_peers addr N n p"
proof -
  note p = discovered_picker [OF assms(1,2)]
  then show ?thesis using picker_okD [OF p(1)] assms(3,4) by (auto simp: finds_peers_def simp del: set_map)
qed

lemma client_node_of:
  assumes "distinct (map snd (p_clients p))" and "mget (p_clients p) a = Some c"
  shows "client_node node p c = Some (node a)"
proof -
  have a: "(a, c) \<in> set (p_clients p)" using map_of_SomeD [OF assms(2)] .
  have "find (\<lambda>(a, c'). c' = c) (p_clients p) \<noteq> None" using a by (auto simp: find_None_iff)
  then obtain z where z: "find (\<lambda>(a, c'). c' = c) (p_clients p) = Some z" by blast
  then have "z \<in> set (p_clients p)" "snd z = c" by (fastforce simp: find_Some_iff in_set_conv_nth)+
  with a assms(1) have "z = (a, c)" by (auto simp: distinct_map inj_on_def)
  with z show ?thesis by (simp add: client_node_def)
qed

lemma finds_peers_picks:
  assumes "finds_peers addr N n (ps n)" and "\<forall>n \<in> N. node (addr n) = n" and "key \<noteq> []"
  shows "\<exists>m \<in> N - {n}. picks node ps n key = (Some m, True, False)"
proof -
  note f = assms(1) [unfolded finds_peers_def]
  then have "m_keys (p_ring (ps n)) \<noteq> []" using members_keys by blast
  with f picker_asks_owner [of "ps n", OF _ _ _ _ assms(3)] obtain c p' a where
    a: "PickPeer key (ps n) = Ok ((Some c, True, False), p')" "mget (p_clients (ps n)) a = Some c" "a \<in> members (p_ring (ps n))"
    unfolding asks_addr_def by metis
  with f obtain m where m: "m \<in> N" "a = addr m" by blast
  then have "m \<noteq> n" using a(3) f by blast
  with m a assms(2) client_node_of [OF _ a(2)] f show ?thesis by (auto simp: picks_def)
qed

text \<open>
  C18. In a cluster of nodes whose pickers have each found a peer in it, no miss is ever loaded: until
  a client's timeout expires no \<open>Get\<close> of any key returns on any of the nodes and none of them holds a
  value of it, whatever calls, losses and cleanups happen meanwhile, however many nodes there are and
  whatever the balancers did to their rings, unless the key is set or a group is closed.  A node is
  never on its own ring, so that each of them sends the key on to another one.
\<close>

theorem discovered_cluster_waits:
  assumes "\<forall>n \<in> N. finds_peers addr N n (ps n) \<and> node (addr n) = n" and "k \<noteq> []"
    and "\<And>n. group_options_ok (opts n)" and "\<forall>n \<in> N. g_peers (make_group name (bytes n) (opts n))"
    and "(cluster_step (picks node ps) wire (\<lambda>x. x \<noteq> GClose \<and> (\<forall>v p. x \<noteq> GSet k v p)) sources False)\<^sup>*\<^sup>*
           (cluster_init (\<lambda>n. make_group name (bytes n) (opts n))) s"
    and "n \<in> N"
  shows "(\<forall>i pc. cl_threads s n i = Some (GGet k, pc) \<longrightarrow> \<not> group_finished pc) \<and> cache_held (g_mainCache (cl_group s n)) k = {}"
proof -
  let ?next = "\<lambda>n. SOME m. m \<in> N \<and> picks node ps n k = (Some m, True, False)"
  have "?next n \<in> N \<and> picks node ps n k = (Some (?next n), True, False)" if "n \<in> N" for n
  proof (rule someI_ex)
    show "\<exists>m. m \<in> N \<and> picks node ps n k = (Some m, True, False)"
      using finds_peers_picks [OF _ _ assms(2), of addr N n ps node] assms(1) that by blast
  qed
  then have "\<forall>n \<in> N. picks node ps n k = (Some (?next n), True, False) \<and> ?next n \<in> N \<and> g_peers (make_group name (bytes n) (opts n))"
    using assms(4) by blast
  from closed_forwarding [OF assms(3) this assms(2,5,6)] show ?thesis .
qed

subsection \<open>Witnesses\<close>

text \<open>A node that fetches the addresses of all nodes has discovered the others.\<close>

lemma fetch_discovers:
  assumes "Hash_Ring.cluster_ok cfg A" and "set vals = A" and "[] \<notin> A"
  shows "\<exists>p. discovered cfg A self p"
proof -
  let ?q = "new_picker self (ps_svcName (default_settings :: client_option picker_settings)) cfg"
  have puts: "\<forall>e \<in> set (map (EventPut []) vals). set (event_addr e) - {[]} \<subseteq> A" using assms(2) by auto
  from handleWatchEvents_followed [OF picker_ok_new [OF assms(1)] puts] obtain p where
    p: "handleWatchEvents (\<lambda>_ _. True) (map (EventPut []) vals) ?q = Ok p" by blast
  then have new: "NewClientPicker (\<lambda>_ _ _. True) cfg self ([] :: client_option picker_option list) True (Some vals) = Ok (Inr p, False)"
    by (simp add: NewClientPicker_def fetchAllServices_def set_all_events Let_def)
  have "\<forall>e \<in> set (map (EventPut []) vals). \<exists>key addr. e = EventPut key addr \<and> addr \<noteq> []" using assms(2,3) by auto
  from puts_members [OF this, of self "p_svcName p" "{}"]
  have ev: "events_members self (p_svcName p) (map (EventPut []) vals @ watched []) {} = A - {self}"
    using assms(2) by auto
  show ?thesis
    unfolding discovered_def
    by (intro exI [of _ p] exI [of _ "[] :: client_option picker_option list"] exI [of _ vals] exI [of _ "[] :: watch_message list"]
        conjI new ev) (use assms(2) in auto)
qed

lemma pair_discovered: "\<exists>p. discovered toy_config {''a'', ''bb''} self p"
proof (rule fetch_discovers [OF toy_cluster])
  show "set [''a'', ''bb''] = {''a'', ''bb''}" by simp
qed simp

theorem nodes_agree_on_owner_witness:
  "\<exists>pa pb. discovered toy_config {''a'', ''bb''} ''a'' pa \<and> discovered toy_config {''a'', ''bb''} ''bb'' pb
     \<and> asks_addr pa ''key'' ''bb'' \<and> asks_addr pb ''key'' ''a''"
proof -
  define ps where "ps self = (SOME p. discovered toy_config {''a'', ''bb''} self p)" for self
  have d: "discovered toy_config {''a'', ''bb''} self (ps self)" for self
    unfolding ps_def by (rule someI_ex [OF pair_discovered])
  have k: "''a'' \<in> {''a'', ''bb''}" "''bb'' \<in> {''a'', ''bb''}" "''a'' \<noteq> ''bb''" "''key'' \<noteq> []" by auto
  have "\<forall>a \<in> {''a'', ''bb''}. discovered toy_config {''a'', ''bb''} a (ps a)" using d by blast
  from nodes_agree_on_owner [OF toy_cluster this k] have "asks_addr (ps ''a'') ''key'' ''bb'' \<and> asks_addr (ps ''bb'') ''key'' ''a''"
    by auto
  with d show ?thesis by blast
qed

definition pair_addr :: "nat \<Rightarrow> string" where
  "pair_addr n = (if n = 0 then ''a'' else ''bb'')"

definition pair_node :: "string \<Rightarrow> nat" where
  "pair_node a = (if a = ''a'' then 0 else 1)"

theorem discovered_cluster_waits_witness:
  "\<exists>ps s. discovered toy_config {''a'', ''bb''} ''a'' (ps 0) \<and> discovered toy_config {''a'', ''bb''} ''bb'' (ps 1)
     \<and> (cluster_step (picks pair_node ps) (\<lambda>s. s) (\<lambda>x. x \<noteq> GClose \<and> (\<forall>v p. x \<noteq> GSet ''k'' v p)) (\<lambda>_ _. True) False)\<^sup>*\<^sup>* pair_init s
     \<and> cl_threads s 0 0 = Some (GGet ''k'', GStart) \<and> cache_held (g_mainCache (cl_group s 1)) ''k'' = {}"
proof -
  have A: "pair_addr ` {0, 1} = {''a'', ''bb''}" by (auto simp: pair_addr_def)
  define ps where "ps n = (SOME p. discovered toy_config {''a'', ''bb''} (pair_addr n) p)" for n
  have d: "discovered toy_config {''a'', ''bb''} (pair_addr n) (ps n)" for n
    unfolding ps_def by (rule someI_ex [OF pair_discovered])
  have "finds_peers pair_addr {0, 1} n (ps n)" if "n \<in> {0, 1}" for n
  proof (rule discovered_finds_peers)
    show "Hash_Ring.cluster_ok toy_config (pair_addr ` {0, 1})" using toy_cluster A by simp
    show "discovered toy_config (pair_addr ` {0, 1}) (pair_addr n) (ps n)" using d A by simp
    show "pair_addr ` {0, 1} \<noteq> {pair_addr n}" unfolding A by (auto simp: pair_addr_def)
  qed (rule that)
  then have f: "\<forall>n \<in> {0, 1}. finds_peers pair_addr {0, 1} n (ps n) \<and> pair_node (pair_addr n) = n"
    by (auto simp: pair_addr_def pair_node_def)
  let ?R = "cluster_step (picks pair_node ps) (\<lambda>s. s) (\<lambda>x. x \<noteq> GClose \<and> (\<forall>v p. x \<noteq> GSet ''k'' v p)) (\<lambda>_ _. True) False"
  let ?s = "set_thread 0 0 (Some (GGet ''k'', GStart)) pair_init"
  have "?R pair_init ?s" by (rule cl_begin) (simp_all add: cluster_init_def)
  then have r: "?R\<^sup>*\<^sup>* pair_init ?s" by (rule r_into_rtranclp)
  have "cache_held (g_mainCache (cl_group ?s 1)) ''k'' = {}"
    using discovered_cluster_waits [OF f _ _ _ r, of 1] by (simp add: group_options_ok_def make_group_def)
  moreover have "pair_addr 0 = ''a''" "pair_addr 1 = ''bb''" by (simp_all add: pair_addr_def)
  ultimately show ?thesis using r d [of 0] d [of 1] by (intro exI [of _ ps] exI [of _ ?s]) simp
qed

end
