(* ===== verification/Node_Launch.thy ===== *)
theory Node_Launch
  imports Node_Start User_Service
begin

text \<open>
  The \<open>main\<close> functions of the three example programs from their settings to the running node, what
  \<open>Server.Start\<close> registers, and how the link shortener shuts down.  \<open>log.Fatalf\<close> ends the program and
  runs no deferred call: it is an error here.  What etcd, the file system and the network answer is
  an argument; the goroutines' own work is that of \<open>Registration\<close>, \<open>Peer_Picker\<close> and \<open>Rpc\<close>.
\<close>

subsection \<open>Starting\<close>

datatype start_error = FatalDb string | FatalPicker picker_error | FatalServer server_error

text \<open>
  Whether an etcd client can be made for the server and for the picker, what etcd lists at the first
  fetch, whether a certificate pair loads, and which clients of peers can be made.
\<close>

record start_env =
  st_server_etcd :: bool
  st_picker_etcd :: bool
  st_services :: "string list option"
  st_cert :: "string \<Rightarrow> string \<Rightarrow> bool"
  st_dial :: "client_option list \<Rightarrow> dial"

record started_node =
  sn_server :: Server
  sn_picker :: ClientPicker
  sn_group :: nat
  sn_world :: World
  sn_db_open :: bool

text \<open>The two constructors, with the configuration of the picker's ring as in \<open>NewClientPicker\<close>.\<close>

definition start_server :: "start_env \<Rightarrow> client_option node_settings \<Rightarrow> start_error + Server" where
  "start_server e s =
     (case fst (NewServer (ns_listen s) (ns_svcName s) (ns_server s) (st_server_etcd e) (st_cert e)) of
        Inl err \<Rightarrow> Inl (FatalServer err)
      | Inr server \<Rightarrow> Inr server)"

definition start_picker :: "Config \<Rightarrow> start_env \<Rightarrow> client_option node_settings \<Rightarrow> (start_error + ClientPicker) outcome" where
  "start_picker cfg e s =
     obind (NewClientPicker (st_dial e) cfg (ns_advertise s) (ns_picker s) (st_picker_etcd e) (st_services e))
       (\<lambda>(r, _). Ok (case r of Inl err \<Rightarrow> Inl (FatalPicker err) | Inr p \<Rightarrow> Inr p))"

text \<open>A panic of \<open>NewGroup\<close> is one of the program.\<close>

definition start_group :: "string \<Rightarrow> int \<Rightarrow> group_option list \<Rightarrow> World \<Rightarrow> (nat \<times> World) outcome" where
  "start_group name cacheBytes opts w =
     (case NewGroup True name cacheBytes opts w of None \<Rightarrow> Panic | Some aw \<Rightarrow> Ok aw)"

text \<open>\<open>sample\<close>: the server, the picker, the group.\<close>

definition sample_start ::
    "Config \<Rightarrow> start_env \<Rightarrow> (string \<Rightarrow> string) \<Rightarrow> string \<Rightarrow> World \<Rightarrow> (start_error + started_node) outcome" where
  "sample_start cfg e env hostname w =
     (let s = sample_settings env hostname in
      case start_server e s of
        Inl err \<Rightarrow> Ok (Inl err)
      | Inr server \<Rightarrow>
          obind (start_picker cfg e s) (\<lambda>r.
            case r of
              Inl err \<Rightarrow> Ok (Inl err)
            | Inr p \<Rightarrow>
                obind (start_group ''demo'' (8 * 2 ^ 20) [WithPeers True, WithExpiration (180 * 1000000000)] w) (\<lambda>(a, w).
                  Ok (Inr \<lparr>sn_server = server, sn_picker = p, sn_group = a, sn_world = w, sn_db_open = False\<rparr>))))"

text \<open>\<open>shortlink\<close>: the table, the picker, the server, the group.  The address is computed first.\<close>

definition shortlink_start ::
    "Config \<Rightarrow> start_env \<Rightarrow> 'd sql_driver \<Rightarrow> string + 'd \<Rightarrow> string \<Rightarrow> string \<Rightarrow> string \<Rightarrow> string \<Rightarrow> World
      \<Rightarrow> (start_error + 'd \<times> started_node) outcome" where
  "shortlink_start cfg e drv opened grpcAddr advAddr etcdEP svcName w =
     (case shortlink_settings grpcAddr advAddr etcdEP svcName of
        None \<Rightarrow> Panic
      | Some s \<Rightarrow>
          (case open_shortlinks drv opened of
             Inl err \<Rightarrow> Ok (Inl (FatalDb err))
           | Inr db \<Rightarrow>
               obind (start_picker cfg e s) (\<lambda>r.
                 case r of
                   Inl err \<Rightarrow> Ok (Inl err)
                 | Inr p \<Rightarrow>
                     (case start_server e s of
                        Inl err \<Rightarrow> Ok (Inl err)
                      | Inr server \<Rightarrow>
                          obind (start_group ''shortlink'' (32 * 2 ^ 20) [WithPeers True, WithExpiration (3600 * 1000000000)] w)
                            (\<lambda>(a, w).
                              Ok (Inr (db, \<lparr>sn_server = server, sn_picker = p, sn_group = a, sn_world = w,
                                            sn_db_open = True\<rparr>)))))))"

text \<open>\<open>single\<close>: the table and a group without peers; \<open>opened\<close> is what \<open>sql.Open\<close> answers.\<close>

definition users_start ::
    "'d sql_driver \<Rightarrow> ('d \<Rightarrow> 'd) \<Rightarrow> ('d \<Rightarrow> 'd) \<Rightarrow> string + 'd \<Rightarrow> World \<Rightarrow> (start_error + 'd \<times> nat \<times> World) outcome" where
  "users_start drv begin_tx commit opened w =
     (case opened of
        Inl err \<Rightarrow> Ok (Inl (FatalDb (''open db: '' @ err)))
      | Inr db \<Rightarrow>
          let db = initUsersDB drv begin_tx commit db in
          obind (start_group ''users'' (64 * 2 ^ 20) [WithExpiration (600 * 1000000000)] w)
            (\<lambda>(a, w). Ok (Inr (db, a, w))))"

subsection \<open>Serving and stopping\<close>

text \<open>The goroutine of \<open>Server.Start\<close>.\<close>

definition server_registers :: "Server \<Rightarrow> register_env \<Rightarrow> register_error option \<times> etcd_call list" where
  "server_registers s e =
     Register (sv_svcName s) (sv_addr s) (so_AdvertiseAddr (sv_opts s)) (so_EtcdEndpoints (sv_opts s))
       (so_DialTimeout (sv_opts s)) e"

text \<open>
  The end of the shortener's \<open>main\<close>, after the HTTP server: \<open>server.Stop\<close> and the deferred calls in
  their reverse order, \<open>DestroyGroup\<close>, \<open>picker.Close\<close> and \<open>db.Close\<close>.  \<open>client_err\<close> and
  \<open>etcd_err\<close> say which connections fail to close; the results of deferred calls are ignored.
\<close>

definition shortlink_stop :: "(nat \<Rightarrow> bool) \<Rightarrow> bool \<Rightarrow> started_node \<Rightarrow> started_node outcome" where
  "shortlink_stop client_err etcd_err n =
     (case Server_Stop (sn_server n) of
        None \<Rightarrow> Panic
      | Some server \<Rightarrow>
          (case DestroyGroup ''shortlink'' (sn_world n) of
             None \<Rightarrow> Panic
           | Some (_, w) \<Rightarrow>
               obind (picker_Close client_err etcd_err (sn_picker n)) (\<lambda>(_, p).
                 Ok (n\<lparr>sn_server := server, sn_world := w, sn_picker := p, sn_db_open := False\<rparr>))))"

end
