(* ===== verification/Node_Launch_Props.thy ===== *)
theory Node_Launch_Props
  imports Node_Launch Cluster_Discovery Group_Registry_Props Short_Link_Props
begin

text \<open>
  What the start of the example nodes amounts to: the nodes of the demonstration discover each other
  through what they register, and a node of the link shortener stops without leaving anything open.
\<close>

subsection \<open>Runs of the demonstration node\<close>

text \<open>What one process of \<open>sample\<close> meets.\<close>

record node_run =
  nr_vars :: "string \<Rightarrow> string"
  nr_host :: string
  nr_start :: start_env
  nr_world :: World
  nr_register :: register_env
  nr_watch :: "watch_message list"

definition nr_settings :: "node_run \<Rightarrow> client_option node_settings" where
  "nr_settings r = sample_settings (nr_vars r) (nr_host r)"

abbreviation nr_addr :: "node_run \<Rightarrow> string" where
  "nr_addr r \<equiv> ns_advertise (nr_settings r)"

text \<open>The puts with which the node registers.\<close>

definition registers :: "Config \<Rightarrow> node_run \<Rightarrow> (string \<times> string) set" where
  "registers cfg r = {(key, addr). \<exists>n. sample_start cfg (nr_start r) (nr_vars r) (nr_host r) (nr_world r) = Ok (Inr n)
     \<and> EtcdPut key addr \<in> set (snd (server_registers (sn_server n) (nr_register r)))}"

text \<open>The node has started, is registered, and \<open>p\<close> is its picker after what it watched; it can dial its peers.\<close>

definition runs_with :: "Config \<Rightarrow> node_run \<Rightarrow> ClientPicker \<Rightarrow> bool" where
  "runs_with cfg r p \<longleftrightarrow> (\<forall>o' c a. st_dial (nr_start r) o' c a)
     \<and> (\<exists>n. sample_start cfg (nr_start r) (nr_vars r) (nr_host r) (nr_world r) = Ok (Inr n)
          \<and> fst (server_registers (sn_server n) (nr_register r)) = None
          \<and> watchServiceChanges (\<lambda>_ _. True) (nr_watch r) (sn_picker n) = Ok p)"

text \<open>
  etcd has told the node of the puts \<open>S\<close>, of each with its first answer or with a later event, and
  of nothing else.
\<close>

definition told :: "(string \<times> string) set \<Rightarrow> node_run \<Rightarrow> bool" where
  "told S r \<longleftrightarrow> (\<exists>vals. st_services (nr_start r) = Some vals \<and> set vals \<subseteq> snd ` S
     \<and> (\<forall>e \<in> set (watched (nr_watch r)). \<exists>key addr. e = EventPut key addr \<and> (key, addr) \<in> S)
     \<and> (\<forall>(key, addr) \<in> S. addr \<in> set vals \<or> EventPut key addr \<in> set (watched (nr_watch r))))"

lemma nr_addr_filled: "nr_addr r \<noteq> []"
  by (simp add: nr_settings_def sample_settings_def Let_def)

lemma sample_startD:
  assumes "sample_start cfg e env host w = Ok (Inr n)"
  shows "start_server e (sample_settings env host) = Inr (sn_server n)"
    and "start_picker cfg e (sample_settings env host) = Ok (Inr (sn_picker n))"
  using assms by (auto simp: sample_start_def Let_def obind_def split: sum.splits outcome.splits prod.splits)

lemma start_server_settings:
  assumes "start_server e s = Inr server"
  shows "sv_svcName server = ns_svcName s" "sv_addr server = ns_listen s"
    "sv_opts server = fold apply_server_option (ns_server s) DefaultServerOptions" "\<not> sv_stopCh_closed server"
  using assms by (auto simp: start_server_def NewServer_def Let_def split: sum.splits if_splits)

lemma picker_made: "NewClientPicker dial cfg addr opts etcd resp = Ok (Inr p, b) \<Longrightarrow> etcd \<and> \<not> b"
  by (auto simp: NewClientPicker_def obind_def Let_def split: if_splits outcome.splits)

lemma start_pickerD:
  assumes "start_picker cfg e s = Ok (Inr p)"
  shows "NewClientPicker (st_dial e) cfg (ns_advertise s) (ns_picker s) True (st_services e) = Ok (Inr p, False)"
    and "st_picker_etcd e"
proof -
  obtain b where b: "NewClientPicker (st_dial e) cfg (ns_advertise s) (ns_picker s) (st_picker_etcd e) (st_services e) = Ok (Inr p, b)"
    using assms by (auto simp: start_picker_def obind_def split: outcome.splits sum.splits)
  with picker_made [OF b]
  show "NewClientPicker (st_dial e) cfg (ns_advertise s) (ns_picker s) True (st_services e) = Ok (Inr p, False)" "st_picker_etcd e"
    by simp_all
qed

text \<open>The put of a node: its advertised address under its own key.\<close>

lemma registers_addr:
  assumes "runs_with cfg r p"
  shows "registers cfg r = {(register_key (ns_svcName (nr_settings r)) (nr_addr r), nr_addr r)}"
proof -
  obtain n where n: "sample_start cfg (nr_start r) (nr_vars r) (nr_host r) (nr_world r) = Ok (Inr n)"
      "fst (server_registers (sn_server n) (nr_register r)) = None"
    using assms by (auto simp: runs_with_def)
  note sv = start_server_settings [OF sample_startD(1) [OF n(1)], folded nr_settings_def]
  have adv: "so_AdvertiseAddr (sv_opts (sn_server n)) = nr_addr r"
    unfolding sv(3) by (simp add: nr_settings_def sample_settings_def Let_def)
  have "EtcdPut key addr \<in> set (snd (server_registers (sn_server n) (nr_register r))) \<longleftrightarrow>
      key = register_key (ns_svcName (nr_settings r)) (nr_addr r) \<and> addr = nr_addr r" for key addr
    using n(2) nr_addr_filled [of r]
    by (auto simp: server_registers_def Register_def registered_addr_def adv sv(1) Let_def split: if_splits option.splits)
  with n(1) show ?thesis by (auto simp: registers_def)
qed

lemma runs_discovered:
  assumes run: "runs_with cfg r p" and told: "told S r" and S: "[] \<notin> snd ` S"
  shows "discovered cfg (snd ` S) (nr_addr r) p"
proof -
  obtain n where n: "sample_start cfg (nr_start r) (nr_vars r) (nr_host r) (nr_world r) = Ok (Inr n)"
      "watchServiceChanges (\<lambda>_ _. True) (nr_watch r) (sn_picker n) = Ok p"
    using run by (auto simp: runs_with_def)
  obtain vals where t: "st_services (nr_start r) = Some vals" "set vals \<subseteq> snd ` S"
      "\<forall>e \<in> set (watched (nr_watch r)). \<exists>key addr. e = EventPut key addr \<and> (key, addr) \<in> S"
      "\<forall>(key, addr) \<in> S. addr \<in> set vals \<or> EventPut key addr \<in> set (watched (nr_watch r))"
    using told by (auto simp: told_def)
  let ?es = "map (EventPut []) vals @ watched (nr_watch r)"
  have dial: "st_dial (nr_start r) = (\<lambda>_ _ _. True)" using run by (auto simp: runs_with_def fun_eq_iff)
  have "start_picker cfg (nr_start r) (nr_settings r) = Ok (Inr (sn_picker n))"
    using sample_startD(2) [OF n(1)] by (simp add: nr_settings_def)
  from start_pickerD(1) [OF this]
  have new: "NewClientPicker (\<lambda>_ _ _. True) cfg (nr_addr r) (ns_picker (nr_settings r)) True (Some vals) = Ok (Inr (sn_picker n), False)"
    by (simp add: dial t(1))
  have puts: "\<exists>key addr. e = EventPut key addr \<and> addr \<in> snd ` S" if "e \<in> set ?es" for e
  proof -
    from that consider a where "a \<in> set vals" "e = EventPut [] a" | "e \<in> set (watched (nr_watch r))" by auto
    then show ?thesis
    proof cases
      case 2
      with t(3) obtain key addr where "e = EventPut key addr" "(key, addr) \<in> S" by blast
      then show ?thesis by (metis imageI snd_conv)
    qed (use t(2) in blast)
  qed
  have "{addr. \<exists>key. EventPut key addr \<in> set ?es} = snd ` S"
  proof
    show "{addr. \<exists>key. EventPut key addr \<in> set ?es} \<subseteq> snd ` S" using puts by blast
    have "\<exists>k. EventPut k addr \<in> set ?es" if "(key, addr) \<in> S" for key addr
    proof -
      have "addr \<in> set vals \<or> EventPut key addr \<in> set (watched (nr_watch r))" using bspec [OF t(4) that] by simp
      then show ?thesis by auto
    qed
    then show "snd ` S \<subseteq> {addr. \<exists>key. EventPut key addr \<in> set ?es}" by auto
  qed
  moreover have "\<forall>e \<in> set ?es. \<exists>key addr. e = EventPut key addr \<and> addr \<noteq> []" using puts S by metis
  ultimately have ev: "events_members (nr_addr r) (p_svcName p) ?es {} = snd ` S - {nr_addr r}"
    using puts_members [of ?es "nr_addr r" "p_svcName p" "{}"] by simp
  have "set (event_addr e) - {[]} \<subseteq> snd ` S" if "e \<in> set (watched (nr_watch r))" for e
  proof -
    have "e \<in> set ?es" using that by simp
    from puts [OF this] obtain key addr where "e = EventPut key addr" "addr \<in> snd ` S" by blast
    then show ?thesis by (simp add: subset_iff)
  qed
  with new n(2) t(2) ev show ?thesis
    unfolding discovered_def by (intro exI [of _ "ns_picker (nr_settings r)"] exI [of _ vals] exI [of _ "nr_watch r"] exI [of _ "sn_picker n"]) auto
qed

text \<open>
  C38. The nodes of the demonstration discover each other: when processes of \<open>sample\<close> have started and
  registered, and etcd has told each of them of all those registrations, some at its first fetch
  and the others by events, in any order and repeatedly, then the picker of each node has exactly
  the other nodes' advertised addresses on its ring and one open client for each of them, and none
  for itself.
\<close>

theorem started_nodes_discover:
  assumes "Hash_Ring.cluster_ok cfg (nr_addr ` R)" and "\<forall>r \<in> R. runs_with cfg r (ps r)"
    and "\<forall>r \<in> R. told (\<Union> (registers cfg ` R)) r" and "r \<in> R"
  shows "set (mkeys (p_clients (ps r))) = nr_addr ` R - {nr_addr r} \<and> members (p_ring (ps r)) = nr_addr ` R - {nr_addr r}
    \<and> distinct (map snd (p_clients (ps r))) \<and> set (map snd (p_clients (ps r))) \<inter> set (p_closed_clients (ps r)) = {}"
proof -
  let ?S = "\<Union> (registers cfg ` R)"
  have "snd ` registers cfg r = {nr_addr r}" if "r \<in> R" for r using registers_addr assms(2) that by fastforce
  then have "snd ` ?S = nr_addr ` R" by (auto simp: image_Union)
  moreover have "[] \<notin> nr_addr ` R" using nr_addr_filled by (metis imageE)
  ultimately have "discovered cfg (nr_addr ` R) (nr_addr r) (ps r)"
    using runs_discovered [of cfg r "ps r" ?S] assms(2-4) by simp
  note p = discovered_picker [OF assms(1) this]
  from picker_okD(5,8,10) [OF p(1)] p(4) show ?thesis by (auto simp del: set_map)
qed

subsection \<open>Starting succeeds\<close>

lemma start_group_ok:
  assumes "world_ok w" and "group_options_ok opts"
  shows "\<exists>w'. start_group name bytes opts w = Ok (w_next w, w') \<and> world_ok w' \<and> GetGroup name w' = Some (w_next w)
    \<and> w_heap w' (w_next w) = make_group name bytes opts \<and> (world_reach w \<longrightarrow> world_reach w')"
proof -
  obtain w' where w': "NewGroup True name bytes opts w = Some (w_next w, w')" "world_ok w'"
      "w_groups w' = mput name (w_next w) (w_groups w)" "w_heap w' (w_next w) = make_group name bytes opts"
    using new_group_ok [OF assms, of name bytes] by blast
  have "world_reach w \<longrightarrow> world_reach w'" using world_next [of w "NewOp name bytes opts" w'] w'(1) assms(2) by simp
  with w' show ?thesis by (simp add: start_group_def GetGroup_def)
qed

lemma start_picker_ok:
  assumes "Hash_Ring.cluster_ok cfg A" and "st_picker_etcd e" and "st_services e = Some vals" and "set vals - {[]} \<subseteq> A"
  shows "\<exists>p. start_picker cfg e s = Ok (Inr p) \<and> picker_ok A p \<and> \<not> m_done (p_ring p)"
proof -
  let ?q = "new_picker (ns_advertise s) (ps_svcName (fold apply_picker_option (ns_picker s) default_settings)) cfg"
  have puts: "\<forall>e \<in> set (map (EventPut []) vals). set (event_addr e) - {[]} \<subseteq> A" using assms(4) by auto
  from handleWatchEvents_followed [OF picker_ok_new [OF assms(1)] puts] obtain p where
    p: "handleWatchEvents (st_dial e (ps_clientOpts (fold apply_picker_option (ns_picker s) default_settings))) (map (EventPut []) vals) ?q = Ok p"
      "followed A (st_dial e (ps_clientOpts (fold apply_picker_option (ns_picker s) default_settings))) (map (EventPut []) vals) ?q p"
    by blast
  have "start_picker cfg e s = Ok (Inr p)"
    using p(1) assms(2,3) by (simp add: start_picker_def NewClientPicker_def fetchAllServices_def set_all_events Let_def)
  with p(2) show ?thesis by (simp add: followed_def new_picker_def New_def)
qed

text \<open>A node of the demonstration starts when etcd can be reached; it uses no certificate.\<close>

lemma sample_starts:
  assumes "Hash_Ring.cluster_ok cfg A" and "st_services e = Some vals" and "set vals - {[]} \<subseteq> A"
    and "st_server_etcd e" and "st_picker_etcd e" and "world_ok w"
  shows "\<exists>n. sample_start cfg e env host w = Ok (Inr n) \<and> picker_ok A (sn_picker n) \<and> world_ok (sn_world n)
    \<and> GetGroup ''demo'' (sn_world n) = Some (sn_group n) \<and> w_heap (sn_world n) (sn_group n) = sample_group"
proof -
  let ?s = "sample_settings env host :: client_option node_settings"
  obtain server where server: "start_server e ?s = Inr server"
    using assms(4) by (simp add: start_server_def NewServer_def sample_settings_def DefaultServerOptions_def Let_def)
  obtain p where p: "start_picker cfg e ?s = Ok (Inr p)" "picker_ok A p"
    using start_picker_ok [OF assms(1,5,2,3)] by blast
  have "group_options_ok [WithPeers True, WithExpiration (180 * 1000000000)]" by (simp add: group_options_ok_def)
  from start_group_ok [OF assms(6) this] obtain w' where
    "start_group ''demo'' (8 * 2 ^ 20) [WithPeers True, WithExpiration (180 * 1000000000)] w = Ok (w_next w, w')" "world_ok w'"
    "GetGroup ''demo'' w' = Some (w_next w)"
    "w_heap w' (w_next w) = make_group ''demo'' (8 * 2 ^ 20) [WithPeers True, WithExpiration (180 * 1000000000)]" by metis
  with server p show ?thesis by (simp add: sample_start_def sample_group_def Let_def)
qed

subsection \<open>Stopping\<close>

lemma picker_Close_ok:
  assumes "picker_ok A p" and "\<not> m_done (p_ring p)"
  shows "\<exists>err p'. picker_Close client_err etcd_err p = Ok (err, p') \<and> p_cancelled p' \<and> m_done (p_ring p') \<and> p_etcd_closed p'
    \<and> distinct (p_closed_clients p') \<and> set (p_closed_clients p') = set (p_closed_clients p) \<union> set (map snd (p_clients p))"
  using picker_okD(8,10,11) [OF assms(1)] assms(2) by (auto simp: picker_Close_def Close_def simp del: set_map)

text \<open>A picker that has just been made, with its balancer waiting.\<close>

lemma work_ok_start:
  assumes "start_picker cfg e s = Ok (Inr p)" and "Hash_Ring.cluster_ok cfg A" and "st_services e = Some vals" and "set vals - {[]} \<subseteq> A"
  shows "work_ok A 0 (True, Waiting, p, [])"
proof -
  let ?q = "new_picker (ns_advertise s) (ps_svcName (fold apply_picker_option (ns_picker s) default_settings)) cfg"
  let ?dial = "st_dial e (ps_clientOpts (fold apply_picker_option (ns_picker s) default_settings))"
  have puts: "\<forall>e \<in> set (map (EventPut []) vals). set (event_addr e) - {[]} \<subseteq> A" using assms(4) by auto
  have q: "picker_ok A ?q" by (rule picker_ok_new [OF assms(2)])
  from handleWatchEvents_followed [OF q puts, of ?dial] obtain p' where
    p': "handleWatchEvents ?dial (map (EventPut []) vals) ?q = Ok p'" "followed A ?dial (map (EventPut []) vals) ?q p'" by blast
  have "start_picker cfg e s = Ok (Inr p')"
    using p'(1) assms(3) start_pickerD(2) [OF assms(1)]
    by (simp add: start_picker_def NewClientPicker_def fetchAllServices_def set_all_events Let_def)
  with assms(1) have "p' = p" by simp
  moreover have "keeps ?q p'" by (rule handleWatchEvents_keeps [OF q puts p'(1)])
  moreover have "picker_ok A p'" "\<not> m_done (p_ring p')" "m_config (p_ring p') = cfg"
    using p'(2) by (simp_all add: followed_def new_picker_def New_def)
  ultimately show ?thesis using picker_okD(1,2,6) [of A p']
    by (simp add: work_ok_def ring_inv_def keeps_def new_picker_def New_def)
qed

text \<open>
  C36. A node of the link shortener stops cleanly.  It has started, and until the end of \<open>main\<close>
  closes the picker anything may have happened to it in any order: messages of the watch, which end
  it or not, calls of \<open>PickPeer\<close>, and ticks and rebalances of its ring's balancer; and the program may
  have done anything with its groups.  Then none of this has panicked, and the end of \<open>main\<close> runs
  without a panic.  Afterwards the server is stopped and its etcd client closed, the group is closed
  and out of the table, the goroutines of the watch and of the balancer are told to end, the
  picker's own etcd client and the database are closed, and every client that was in the table at any
  time, so each that \<open>PickPeer\<close> has handed out, is closed exactly once, even when closing fails.
  The exception is a rebalance that waits for itself while it holds the lock of the ring
  (\<open>rebalance_deadlocks\<close>): a \<open>PickPeer\<close> or an event of the watch then keeps the picker's lock and
  \<open>Close\<close> does not return.  It takes a thousand calls of \<open>PickPeer\<close>.
  The requests in progress, for which \<open>GracefulStop\<close> waits, are part of what happens before;  an event
  that is handled after \<open>Close\<close> is not covered, see \<open>event_after_close_leaks\<close>.
\<close>

theorem shortlink_stops_cleanly:
  assumes "shortlink_start cfg e drv opened grpcAddr advAddr etcdEP svc w0 = Ok (Inr (db, n))"
    and "Hash_Ring.cluster_ok cfg A" and "st_services e = Some vals" and "set vals - {[]} \<subseteq> A"
    and "\<forall>pe \<in> set es. \<forall>ev \<in> set (heard pe). set (event_addr ev) - {[]} \<subseteq> A"
    and "world_reach w"
  shows "case picker_run dial es (True, Waiting, sn_picker n, []) of
      Panic \<Rightarrow> False
    | Deadlock \<Rightarrow> 1000 \<le> peers_asked es
    | Ok (on, b, p, out) \<Rightarrow>
        (\<exists>n'. shortlink_stop client_err etcd_err (n\<lparr>sn_picker := p, sn_world := w\<rparr>) = Ok n'
          \<and> sv_stopCh_closed (sn_server n') \<and> sv_grpc_stopped (sn_server n') \<and> sv_etcd_closed (sn_server n')
          \<and> GetGroup ''shortlink'' (sn_world n') = None
          \<and> (\<forall>a. GetGroup ''shortlink'' w = Some a \<longrightarrow> g_closed (w_heap (sn_world n') a))
          \<and> p_cancelled (sn_picker n') \<and> m_done (p_ring (sn_picker n')) \<and> p_etcd_closed (sn_picker n')
          \<and> sn_db_open n \<and> \<not> sn_db_open n'
          \<and> distinct (p_closed_clients (sn_picker n')) \<and> set out \<subseteq> set (p_closed_clients (sn_picker n'))
          \<and> set (p_closed_clients (sn_picker n')) = set (p_closed_clients p) \<union> set (map snd (p_clients p)))"
proof -
  obtain s where s: "start_picker cfg e s = Ok (Inr (sn_picker n))" "start_server e s = Inr (sn_server n)" and open_db: "sn_db_open n"
    using assms(1) by (auto simp: shortlink_start_def obind_def split: option.splits sum.splits outcome.splits prod.splits)
  note run = picker_run_ok [OF work_ok_start [OF s(1) assms(2-4)] assms(5), of dial]
  have server: "\<not> sv_stopCh_closed (sn_server n)" by (rule start_server_settings(4) [OF s(2)])
  note ok = world_reach_ok [OF assms(6)]
  obtain b w' where w': "DestroyGroup ''shortlink'' w = Some (b, w')" "w_groups w' = mdel ''shortlink'' (w_groups w)"
    using destroy_group_ok [OF ok, of "''shortlink''"] by blast
  have closed: "g_closed (w_heap w' a)" if "GetGroup ''shortlink'' w = Some a" for a
    using destroy_ok [OF ok, of "''shortlink''" a] that w'(1) by (auto simp: DestroyGroup_def GetGroup_def)
  have gone: "GetGroup ''shortlink'' w' = None" using w'(2) by (simp add: GetGroup_def)
  show ?thesis
  proof (cases "picker_run dial es (True, Waiting, sn_picker n, [])")
    case (Ok q)
    obtain on bal p out where q: "q = (on, bal, p, out)" by (metis prod_cases4)
    with run Ok have p: "picker_ok A p" "\<not> m_done (p_ring p)" "set out \<subseteq> known p"
      by (simp_all add: work_ok_def ring_inv_def)
    from picker_Close_ok [OF p(1,2)] obtain err p' where
      "picker_Close client_err etcd_err p = Ok (err, p')" "p_cancelled p'" "m_done (p_ring p')" "p_etcd_closed p'"
      "distinct (p_closed_clients p')" "set (p_closed_clients p') = set (p_closed_clients p) \<union> set (map snd (p_clients p))" by metis
    with server w'(1) closed gone open_db p(3) show ?thesis
      by (simp add: Ok q shortlink_stop_def Server_Stop_def known_def del: set_map)
  qed (use run in simp_all)
qed

subsection \<open>Witnesses\<close>

text \<open>Two hosts whose addresses the toy hash keeps apart; both find both nodes at their first fetch.\<close>

definition two_hosts :: "string list" where
  "two_hosts = [''a:8001'', ''bb:8001'']"

definition open_env :: start_env where
  "open_env = \<lparr>st_server_etcd = True, st_picker_etcd = True, st_services = Some two_hosts,
     st_cert = (\<lambda>_ _. True), st_dial = (\<lambda>_ _ _. True)\<rparr>"

definition run_of :: "string \<Rightarrow> node_run" where
  "run_of host = \<lparr>nr_vars = (\<lambda>_. []), nr_host = host, nr_start = open_env, nr_world = empty_world,
     nr_register = good_env, nr_watch = []\<rparr>"

lemma hosts_cluster: "Hash_Ring.cluster_ok toy_config (set two_hosts)"
  by (auto simp: Hash_Ring.cluster_ok_def inj_on_def toy_vhash two_hosts_def) (simp_all add: toy_config_def vhash_def dec_small)

lemma run_of_addr: "nr_addr (run_of host) = host @ '':8001''"
  by (simp add: run_of_def nr_settings_def sample_settings_def getEnv_def Let_def)

lemma run_of_runs: "\<exists>p. runs_with toy_config (run_of host) p"
proof -
  have e: "st_services open_env = Some two_hosts" "set two_hosts - {[]} \<subseteq> set two_hosts" "st_server_etcd open_env" "st_picker_etcd open_env"
    by (auto simp: open_env_def)
  from sample_starts [OF hosts_cluster e world_ok_empty] obtain n where
    n: "sample_start toy_config open_env (\<lambda>_. []) host empty_world = Ok (Inr n)" by blast
  have "so_AdvertiseAddr (sv_opts (sn_server n)) \<noteq> []"
    using start_server_settings(3) [OF sample_startD(1) [OF n]] by (simp add: sample_settings_def Let_def)
  then have "fst (server_registers (sn_server n) good_env) = None"
    by (simp add: server_registers_def Register_def good_env_def registered_addr_def Let_def)
  with n show ?thesis by (auto simp: runs_with_def run_of_def open_env_def)
qed

theorem started_nodes_discover_witness:
  "\<exists>pa pb. runs_with toy_config (run_of ''a'') pa \<and> runs_with toy_config (run_of ''bb'') pb
     \<and> members (p_ring pa) = {''bb:8001''} \<and> members (p_ring pb) = {''a:8001''}"
proof -
  obtain pa pb where runs: "runs_with toy_config (run_of ''a'') pa" "runs_with toy_config (run_of ''bb'') pb"
    using run_of_runs by metis
  let ?R = "{run_of ''a'', run_of ''bb''}" let ?ps = "\<lambda>r. if nr_host r = ''a'' then pa else pb"
  have host: "nr_host (run_of ''a'') = ''a''" "nr_host (run_of ''bb'') = ''bb''" by (simp_all add: run_of_def)
  have all: "\<forall>r \<in> ?R. runs_with toy_config r (?ps r)" using runs host by simp
  have addrs: "nr_addr ` ?R = set two_hosts" by (simp add: run_of_addr two_hosts_def)
  have "told (\<Union> (registers toy_config ` ?R)) r" if "r \<in> ?R" for r
  proof -
    have S: "snd ` \<Union> (registers toy_config ` ?R) = set two_hosts"
      by (simp add: registers_addr [OF runs(1)] registers_addr [OF runs(2)] run_of_addr two_hosts_def insert_commute)
    then have "addr \<in> set two_hosts" if "(key, addr) \<in> \<Union> (registers toy_config ` ?R)" for key addr
      using that by (metis imageI snd_conv)
    moreover have "st_services (nr_start r) = Some two_hosts" "nr_watch r = []" using that by (auto simp: run_of_def open_env_def)
    ultimately show ?thesis using S by (auto simp: told_def)
  qed
  then have told: "\<forall>r \<in> ?R. told (\<Union> (registers toy_config ` ?R)) r" by blast
  have cl: "Hash_Ring.cluster_ok toy_config (nr_addr ` ?R)" unfolding addrs by (rule hosts_cluster)
  have "members (p_ring (?ps r)) = set two_hosts - {nr_addr r}" if "r \<in> ?R" for r
    using started_nodes_discover [OF cl all told that] unfolding addrs by blast
  from this [of "run_of ''a''"] this [of "run_of ''bb''"] have
    "members (p_ring pa) = {''bb:8001''}" "members (p_ring pb) = {''a:8001''}"
    by (simp_all add: host run_of_addr two_hosts_def insert_Diff_if)
  with runs show ?thesis by blast
qed

theorem shortlink_stops_cleanly_witness:
  "\<exists>db n on b p out n'. shortlink_start toy_config open_env list_driver (Inr []) '':50051'' ''a:8001'' ''e'' ''svc'' empty_world = Ok (Inr (db, n))
     \<and> GetGroup ''shortlink'' (sn_world n) \<noteq> None
     \<and> picker_run (\<lambda>_ _. True) [Picked ''key'', BalancerTicks, Received (WatchEvents [EventPut ''k'' ''bb:8001'']), Picked ''key'',
           Received WatchClosed] (True, Waiting, sn_picker n, []) = Ok (on, b, p, out)
     \<and> shortlink_stop (\<lambda>_. True) True (n\<lparr>sn_picker := p, sn_world := sn_world n\<rparr>) = Ok n'
     \<and> GetGroup ''shortlink'' (sn_world n') = None \<and> sv_etcd_closed (sn_server n') \<and> p_etcd_closed (sn_picker n') \<and> \<not> sn_db_open n'
     \<and> distinct (p_closed_clients (sn_picker n')) \<and> set out \<subseteq> set (p_closed_clients (sn_picker n'))"
proof -
  obtain s where s: "shortlink_settings '':50051'' ''a:8001'' ''e'' ''svc'' = Some (s :: client_option node_settings)"
      "ns_server s = [WithEtcdEndpoints (split_comma ''e''), WithDialTimeout (5 * second), WithAdvertiseAddr ''a:8001'']"
    by (simp add: shortlink_settings_def advertise_addr_def Let_def)
  have e: "st_picker_etcd open_env" "st_services open_env = Some two_hosts" "set two_hosts - {[]} \<subseteq> set two_hosts" by (auto simp: open_env_def)
  obtain p where p: "start_picker toy_config open_env s = Ok (Inr p)" using start_picker_ok [OF hosts_cluster e] by blast
  obtain server where server: "start_server open_env s = Inr server"
    by (simp add: start_server_def NewServer_def s(2) open_env_def DefaultServerOptions_def Let_def)
  obtain db where db: "open_shortlinks list_driver (Inr []) = Inr db"
    by (simp add: open_shortlinks_def initShortLinkDB_def list_driver_def)
  have "group_options_ok [WithPeers True, WithExpiration (3600 * 1000000000)]" by (simp add: group_options_ok_def)
  from start_group_ok [where name = "''shortlink''" and bytes = "32 * 2 ^ 20", OF world_ok_empty this] obtain w where
    w: "start_group ''shortlink'' (32 * 2 ^ 20) [WithPeers True, WithExpiration (3600 * 1000000000)] empty_world = Ok (w_next empty_world, w)"
      "GetGroup ''shortlink'' w = Some (w_next empty_world)" "world_reach w" using world_start by blast
  let ?n = "\<lparr>sn_server = server, sn_picker = p, sn_group = w_next empty_world, sn_world = w, sn_db_open = True\<rparr>"
  let ?es = "[Picked ''key'', BalancerTicks, Received (WatchEvents [EventPut ''k'' ''bb:8001'']), Picked ''key'', Received WatchClosed]"
  have start: "shortlink_start toy_config open_env list_driver (Inr []) '':50051'' ''a:8001'' ''e'' ''svc'' empty_world = Ok (Inr (db, ?n))"
    by (simp add: shortlink_start_def s(1) db p server w(1) [simplified])
  have A: "\<forall>pe \<in> set ?es. \<forall>ev \<in> set (heard pe). set (event_addr ev) - {[]} \<subseteq> set two_hosts" by (simp add: two_hosts_def)
  have pk: "peers_asked ?es = 2" by simp
  note t = shortlink_stops_cleanly [where dial = "\<lambda>_ _. True" and client_err = "\<lambda>_. True" and etcd_err = True,
      OF start hosts_cluster e(2,3) A w(3), unfolded pk]
  then obtain on b p' out where run: "picker_run (\<lambda>_ _. True) ?es (True, Waiting, sn_picker ?n, []) = Ok (on, b, p', out)"
    by (cases "picker_run (\<lambda>_ _. True) ?es (True, Waiting, sn_picker ?n, [])") (auto simp del: picker_run.simps)
  from t [unfolded run] obtain n' where
    "shortlink_stop (\<lambda>_. True) True (?n\<lparr>sn_picker := p', sn_world := w\<rparr>) = Ok n'"
    "GetGroup ''shortlink'' (sn_world n') = None" "sv_etcd_closed (sn_server n')" "p_etcd_closed (sn_picker n')" "\<not> sn_db_open n'"
    "distinct (p_closed_clients (sn_picker n'))" "set out \<subseteq> set (p_closed_clients (sn_picker n'))" by auto
  with start w(2) run show ?thesis
    by (intro exI [of _ db] exI [of _ ?n] exI [of _ on] exI [of _ b] exI [of _ p'] exI [of _ out] exI [of _ n'])
      (simp del: picker_run.simps)
qed

end
